(* ===== verification/Encodings.thy ===== *)
theory Encodings
  imports Prelude
begin

text \<open>
  Text and integer encodings of the Rust standard library that the sources use: ASCII
  classes and case mapping of \<^verbatim>\<open>u8\<close>, \<^verbatim>\<open>trim_ascii_start\<close> and
  \<^verbatim>\<open>trim_ascii_end\<close>, big-endian and little-endian integers of a given width,
  decimal printing and \<^verbatim>\<open>str::parse\<close> of integers, and \<^verbatim>\<open>{:02x}\<close>.
  Each printer comes with the inverse law that the components' round trips rest on.
\<close>

unbundle bit_operations_syntax

section \<open>Bit fields\<close>

text \<open>
  The sources pack fields with shifts and \<^verbatim>\<open>|\<close> and unpack them with masks. On
  natural numbers a field is a quotient and a remainder.
\<close>

lemma push_bit_or_nat:
  fixes h l :: nat
  assumes "l < 2 ^ k"
  shows "push_bit k h OR l = 2 ^ k * h + l"
proof -
  have "\<not> bit (push_bit k h) n \<or> \<not> bit l n" for n
  proof (cases "n < k")
    case True
    then show ?thesis by (simp add: bit_push_bit_iff)
  next
    case False
    have "take_bit k l = l" using assms by (simp add: take_bit_nat_eq_self)
    then have "\<not> bit l n" using False by (metis bit_take_bit_iff)
    then show ?thesis by simp
  qed
  then have "push_bit k h + l = push_bit k h OR l" by (rule disjunctive_add)
  then show ?thesis by (simp add: push_bit_nat_def mult.commute)
qed

lemma or_push_bit_nat: "(l::nat) < 2 ^ k \<Longrightarrow> l OR push_bit k h = 2 ^ k * h + l"
  by (subst or.commute) (rule push_bit_or_nat)

lemma and_mask_nat: "(n::nat) AND (2 ^ k - 1) = n mod 2 ^ k"
  by (metis mask_eq_exp_minus_1 take_bit_eq_mask take_bit_nat_def)

lemma unat_and_mask: "unat (w AND mask k) = unat w mod 2 ^ k"
  by (simp add: take_bit_eq_mask [symmetric] unsigned_take_bit_eq take_bit_nat_def)

section \<open>ASCII classes\<close>

definition in_range :: "byte \<Rightarrow> byte \<Rightarrow> byte \<Rightarrow> bool" where
  "in_range lo hi b \<longleftrightarrow> lo \<le> b \<and> b \<le> hi"

definition is_ascii_digit :: "byte \<Rightarrow> bool" where
  "is_ascii_digit b = in_range 48 57 b"

definition is_ascii_lowercase :: "byte \<Rightarrow> bool" where
  "is_ascii_lowercase b = in_range 97 122 b"

definition is_ascii_uppercase :: "byte \<Rightarrow> bool" where
  "is_ascii_uppercase b = in_range 65 90 b"

definition is_ascii_alphabetic :: "byte \<Rightarrow> bool" where
  "is_ascii_alphabetic b \<longleftrightarrow> is_ascii_lowercase b \<or> is_ascii_uppercase b"

definition is_ascii_alphanumeric :: "byte \<Rightarrow> bool" where
  "is_ascii_alphanumeric b \<longleftrightarrow> is_ascii_alphabetic b \<or> is_ascii_digit b"

definition is_ascii_hexdigit :: "byte \<Rightarrow> bool" where
  "is_ascii_hexdigit b \<longleftrightarrow> is_ascii_digit b \<or> in_range 97 102 b \<or> in_range 65 70 b"

definition is_ascii_control :: "byte \<Rightarrow> bool" where
  "is_ascii_control b \<longleftrightarrow> b \<le> 31 \<or> b = 127"

definition is_ascii_graphic :: "byte \<Rightarrow> bool" where
  "is_ascii_graphic b = in_range 33 126 b"

definition is_ascii_punctuation :: "byte \<Rightarrow> bool" where
  "is_ascii_punctuation b \<longleftrightarrow> is_ascii_graphic b \<and> \<not> is_ascii_alphanumeric b"

text \<open>Space, tab, line feed, form feed and carriage return; not the vertical tab.\<close>

definition is_ascii_whitespace :: "byte \<Rightarrow> bool" where
  "is_ascii_whitespace b \<longleftrightarrow> b = 32 \<or> b = 9 \<or> b = 10 \<or> b = 12 \<or> b = 13"

definition to_ascii_lowercase :: "byte \<Rightarrow> byte" where
  "to_ascii_lowercase b = (if is_ascii_uppercase b then b + 32 else b)"

definition to_ascii_uppercase :: "byte \<Rightarrow> byte" where
  "to_ascii_uppercase b = (if is_ascii_lowercase b then b - 32 else b)"

definition eq_ignore_ascii_case :: "byte \<Rightarrow> byte \<Rightarrow> bool" where
  "eq_ignore_ascii_case a b \<longleftrightarrow> to_ascii_lowercase a = to_ascii_lowercase b"

lemmas ascii_class_defs [rust_std] =
  in_range_def is_ascii_digit_def is_ascii_lowercase_def is_ascii_uppercase_def
  is_ascii_alphabetic_def is_ascii_alphanumeric_def is_ascii_hexdigit_def
  is_ascii_control_def is_ascii_graphic_def is_ascii_punctuation_def
  is_ascii_whitespace_def to_ascii_lowercase_def to_ascii_uppercase_def
  eq_ignore_ascii_case_def

definition trim_ascii_start :: "bytes \<Rightarrow> bytes" where
  "trim_ascii_start bs = dropWhile is_ascii_whitespace bs"

definition trim_ascii_end :: "bytes \<Rightarrow> bytes" where
  "trim_ascii_end bs = rev (dropWhile is_ascii_whitespace (rev bs))"

lemma trim_ascii_end_no_ws:
  "bs = [] \<or> \<not> is_ascii_whitespace (last bs) \<Longrightarrow> trim_ascii_end bs = bs"
  by (cases bs rule: rev_cases) (auto simp add: trim_ascii_end_def)

lemma trim_ascii_end_snoc_ws:
  "is_ascii_whitespace w \<Longrightarrow> trim_ascii_end (bs @ [w]) = trim_ascii_end bs"
  by (simp add: trim_ascii_end_def)

lemma trim_ascii_start_Cons_ws:
  "is_ascii_whitespace w \<Longrightarrow> trim_ascii_start (w # bs) = trim_ascii_start bs"
  by (simp add: trim_ascii_start_def)

lemma trim_ascii_start_no_ws:
  "bs = [] \<or> \<not> is_ascii_whitespace (hd bs) \<Longrightarrow> trim_ascii_start bs = bs"
  by (cases bs) (auto simp add: trim_ascii_start_def)

section \<open>Fixed-width integers\<close>

text \<open>\<^verbatim>\<open>uN::from_be_bytes\<close>, \<^verbatim>\<open>uN::to_be_bytes\<close> and their little-endian forms.\<close>

definition be_nat :: "bytes \<Rightarrow> nat" where
  "be_nat bs = foldl (\<lambda>v b. 256 * v + unat b) 0 bs"

fun be_bytes :: "nat \<Rightarrow> nat \<Rightarrow> bytes" where
  "be_bytes 0 v = []"
| "be_bytes (Suc k) v = be_bytes k (v div 256) @ [of_nat v]"

fun le_nat :: "bytes \<Rightarrow> nat" where
  "le_nat [] = 0"
| "le_nat (b # bs) = unat b + 256 * le_nat bs"

fun le_bytes :: "nat \<Rightarrow> nat \<Rightarrow> bytes" where
  "le_bytes 0 v = []"
| "le_bytes (Suc k) v = of_nat v # le_bytes k (v div 256)"

lemma unat_byte_less [simp]: "unat (b :: byte) < 256"
  using unsigned_less [of b] by simp

lemma unat_of_nat_byte [simp]: "unat (of_nat v :: byte) = v mod 256"
  by (simp add: unat_of_nat)

lemma length_be_bytes [simp]: "length (be_bytes k v) = k"
  by (induction k arbitrary: v) auto

lemma length_le_bytes [simp]: "length (le_bytes k v) = k"
  by (induction k arbitrary: v) auto

lemma be_nat_Nil [simp]: "be_nat [] = 0"
  by (simp add: be_nat_def)

lemma be_nat_snoc [simp]: "be_nat (bs @ [b]) = 256 * be_nat bs + unat b"
  by (simp add: be_nat_def)

lemma be_nat_less: "be_nat bs < 256 ^ length bs"
proof (induction bs rule: rev_induct)
  case Nil
  then show ?case by simp
next
  case (snoc b bs)
  then have "256 * be_nat bs + 256 \<le> 256 * 256 ^ length bs" by simp
  moreover have "unat b < 256" by simp
  ultimately show ?case by (simp del: unat_byte_less)
qed

lemma mod_mult_div_split: "(v::nat) mod (c * m) = c * (v div c mod m) + v mod c"
  by (simp add: mod_mult2_eq)

lemma be_nat_be_bytes [simp]: "be_nat (be_bytes k v) = v mod 256 ^ k"
  by (induction k arbitrary: v) (auto simp add: mod_mult_div_split)

lemma be_bytes_be_nat: "be_bytes (length bs) (be_nat bs) = bs"
proof (induction bs rule: rev_induct)
  case Nil
  then show ?case by simp
next
  case (snoc b bs)
  have "(256 * be_nat bs + unat b) div 256 = be_nat bs"
    by (simp add: div_mult_self1 div_less)
  moreover have "(of_nat (256 * be_nat bs + unat b) :: byte) = b"
    by (rule word_unat_eq_iff [THEN iffD2]) (simp del: of_nat_add of_nat_mult)
  ultimately show ?case using snoc by simp
qed

lemma le_nat_less: "le_nat bs < 256 ^ length bs"
proof (induction bs)
  case Nil
  then show ?case by simp
next
  case (Cons b bs)
  then have "256 * le_nat bs + 256 \<le> 256 * 256 ^ length bs" by simp
  moreover have "unat b < 256" by simp
  ultimately show ?case by (simp del: unat_byte_less)
qed

lemma le_nat_le_bytes [simp]: "le_nat (le_bytes k v) = v mod 256 ^ k"
  by (induction k arbitrary: v) (auto simp add: mod_mult_div_split)

section \<open>Decimal text\<close>

fun decimal :: "nat \<Rightarrow> bytes" where
  "decimal n = (if n < 10 then [48 + of_nat n] else decimal (n div 10) @ [48 + of_nat (n mod 10)])"

declare decimal.simps [simp del]

fun digits_value :: "nat \<Rightarrow> bytes \<Rightarrow> nat" where
  "digits_value v [] = v"
| "digits_value v (b # bs) = digits_value (10 * v + (unat b - 48)) bs"

lemma digits_value_append:
  "digits_value v (xs @ ys) = digits_value (digits_value v xs) ys"
  by (induction xs arbitrary: v) auto

lemma unat_digit: "d < 10 \<Longrightarrow> unat (48 + of_nat d :: byte) = 48 + d"
  by (simp add: unat_word_ariths)

lemma is_digit_of_nat: "d < 10 \<Longrightarrow> is_ascii_digit (48 + of_nat d)"
  by (simp add: is_ascii_digit_def in_range_def word_le_nat_alt unat_digit)

lemma decimal_digits: "\<forall>b \<in> set (decimal n). is_ascii_digit b"
proof (induction n rule: decimal.induct)
  case (1 n)
  then show ?case by (simp add: decimal.simps [of n] is_digit_of_nat)
qed

lemma decimal_not_Nil [simp]: "decimal n \<noteq> []"
  by (simp add: decimal.simps [of n])

lemma digits_value_decimal: "digits_value 0 (decimal n) = n"
proof (induction n rule: decimal.induct)
  case (1 n)
  then show ?case
    by (simp add: decimal.simps [of n] digits_value_append unat_digit)
qed

lemma decimal_inject: "decimal m = decimal n \<longleftrightarrow> m = n"
  by (metis digits_value_decimal)

text \<open>
  \<^verbatim>\<open>str::parse\<close> for a signed integer type with the given bounds: an optional sign,
  then at least one digit and nothing else; a value outside the bounds is an error.
\<close>

definition parse_int :: "int \<Rightarrow> int \<Rightarrow> bytes \<Rightarrow> int option" where
  "parse_int lo hi bs =
     (let neg = (bs \<noteq> [] \<and> hd bs = 45);
          ds = (if bs \<noteq> [] \<and> (hd bs = 43 \<or> hd bs = 45) then tl bs else bs)
      in if ds = [] \<or> \<not> list_all is_ascii_digit ds then None
         else let v = int (digits_value 0 ds); w = (if neg then - v else v)
              in if lo \<le> w \<and> w \<le> hi then Some w else None)"

text \<open>\<^verbatim>\<open>Display\<close> for a signed integer.\<close>

definition show_int :: "int \<Rightarrow> bytes" where
  "show_int v = (if v < 0 then 45 # decimal (nat (- v)) else decimal (nat v))"

lemma hd_decimal_digit: "is_ascii_digit (hd (decimal n))"
  using decimal_digits [of n] decimal_not_Nil [of n] by (meson list.set_sel(1))

lemma digit_not_sign: "is_ascii_digit b \<Longrightarrow> b \<noteq> 43 \<and> b \<noteq> 45"
  by (auto simp add: is_ascii_digit_def in_range_def)

lemma list_all_decimal [simp]: "list_all is_ascii_digit (decimal n)"
  using decimal_digits [of n] by (simp add: list_all_iff)

lemma parse_int_show_int:
  assumes "lo \<le> v" and "v \<le> hi"
  shows "parse_int lo hi (show_int v) = Some v"
proof (cases "v < 0")
  case True
  then show ?thesis using assms
    by (simp add: parse_int_def show_int_def Let_def digits_value_decimal)
next
  case False
  have "hd (decimal (nat v)) \<noteq> 43" "hd (decimal (nat v)) \<noteq> 45"
    using digit_not_sign [OF hd_decimal_digit] by auto
  with False assms show ?thesis
    by (simp add: parse_int_def show_int_def Let_def digits_value_decimal)
qed

section \<open>Hexadecimal text\<close>

definition hex_char :: "byte \<Rightarrow> byte" where
  "hex_char d = (if d < 10 then 48 + d else 87 + d)"

text \<open>\<^verbatim>\<open>{:02x}\<close>.\<close>

definition hex2 :: "byte \<Rightarrow> bytes" where
  "hex2 b = [hex_char (drop_bit 4 b), hex_char (b AND 15)]"

lemma length_hex2 [simp]: "length (hex2 b) = 2"
  by (simp add: hex2_def)

lemma length_concat_hex2 [simp]: "length (concat (map hex2 bs)) = 2 * length bs"
  by (induction bs) auto

end
