(* ===== verification/Bytes.thy ===== *)
theory Bytes
  imports Encodings
begin

text \<open>
  \<^verbatim>\<open>src/bytes.rs\<close>: the byte splitting that the parsers of repository and network input
  share. The lemmas say exactly which split is returned; the parsers above use them as
  rewrite and inversion rules.
\<close>

definition split_once :: "bytes \<Rightarrow> byte \<Rightarrow> (bytes \<times> bytes) option" where
  "split_once bytes delimiter =
     Option.bind (position (\<lambda>b. b = delimiter) bytes) (\<lambda>pos.
     Option.bind (split_at_checked bytes pos) (\<lambda>(before, after).
     map_option (\<lambda>rest. (before, rest)) (get_from after 1)))"

definition rsplit_once :: "bytes \<Rightarrow> byte \<Rightarrow> (bytes \<times> bytes) option" where
  "rsplit_once bytes delimiter =
     Option.bind (rposition (\<lambda>b. b = delimiter) bytes) (\<lambda>pos.
     Option.bind (split_at_checked bytes pos) (\<lambda>(before, after).
     map_option (\<lambda>rest. (before, rest)) (get_from after 1)))"

text \<open>A key \<^verbatim>\<open>section.name\<close> or \<^verbatim>\<open>section.subsection.name\<close>.\<close>

definition config_key :: "bytes \<Rightarrow> (bytes \<times> bytes option \<times> bytes) option" where
  "config_key key =
     Option.bind (split_once key 46) (\<lambda>(section, rest).
     Some (case rsplit_once rest 46 of
             Some (subsection, name) \<Rightarrow> (section, Some subsection, name)
           | None \<Rightarrow> (section, None, rest)))"

lemma split_once_append [codec_simps]:
  assumes "d \<notin> set xs"
  shows "split_once (xs @ d # ys) d = Some (xs, ys)"
proof -
  from assms have "position (\<lambda>b. b = d) (xs @ d # ys) = Some (length xs)"
    by (intro position_append_first) auto
  then show ?thesis by (simp add: split_once_def split_at_checked_def get_from_def)
qed

lemma split_once_None_iff: "split_once bs d = None \<longleftrightarrow> d \<notin> set bs"
proof
  assume none: "split_once bs d = None"
  show "d \<notin> set bs"
  proof
    assume "d \<in> set bs"
    then obtain xs ys where "bs = xs @ d # ys" "d \<notin> set xs"
      by (meson split_list_first)
    with none show False by (simp add: split_once_append)
  qed
next
  assume "d \<notin> set bs"
  then have "position (\<lambda>b. b = d) bs = None" by (auto simp add: position_None_iff)
  then show "split_once bs d = None" by (simp add: split_once_def)
qed

lemma split_once_Some_iff:
  "split_once bs d = Some (xs, ys) \<longleftrightarrow> bs = xs @ d # ys \<and> d \<notin> set xs"
proof
  assume some: "split_once bs d = Some (xs, ys)"
  then have "d \<in> set bs" using split_once_None_iff [of bs d] by auto
  then obtain us vs where split: "bs = us @ d # vs" "d \<notin> set us"
    by (meson split_list_first)
  with some show "bs = xs @ d # ys \<and> d \<notin> set xs" by (simp add: split_once_append)
qed (simp add: split_once_append)

lemma split_once_length:
  "split_once bs d = Some (xs, ys) \<Longrightarrow> length xs + length ys < length bs"
  by (simp add: split_once_Some_iff)

lemma rsplit_once_append [codec_simps]:
  assumes "d \<notin> set ys"
  shows "rsplit_once (xs @ d # ys) d = Some (xs, ys)"
proof -
  from assms have "rposition (\<lambda>b. b = d) (xs @ d # ys) = Some (length xs)"
    by (intro rposition_append_last) auto
  then show ?thesis by (simp add: rsplit_once_def split_at_checked_def get_from_def)
qed

lemma rsplit_once_None_iff: "rsplit_once bs d = None \<longleftrightarrow> d \<notin> set bs"
proof
  assume none: "rsplit_once bs d = None"
  show "d \<notin> set bs"
  proof
    assume "d \<in> set bs"
    then obtain xs ys where "bs = xs @ d # ys" "d \<notin> set ys"
      by (meson split_list_last)
    with none show False by (simp add: rsplit_once_append)
  qed
next
  assume "d \<notin> set bs"
  then have "rposition (\<lambda>b. b = d) bs = None" by (auto simp add: rposition_None_iff)
  then show "rsplit_once bs d = None" by (simp add: rsplit_once_def)
qed

lemma rsplit_once_Some_iff:
  "rsplit_once bs d = Some (xs, ys) \<longleftrightarrow> bs = xs @ d # ys \<and> d \<notin> set ys"
proof
  assume some: "rsplit_once bs d = Some (xs, ys)"
  then have "d \<in> set bs" using rsplit_once_None_iff [of bs d] by auto
  then obtain us vs where split: "bs = us @ d # vs" "d \<notin> set vs"
    by (meson split_list_last)
  with some show "bs = xs @ d # ys \<and> d \<notin> set ys" by (simp add: rsplit_once_append)
qed (simp add: rsplit_once_append)

lemma config_key_three:
  "46 \<notin> set section \<Longrightarrow> 46 \<notin> set name \<Longrightarrow>
     config_key (section @ 46 # subsection @ 46 # name) = Some (section, Some subsection, name)"
  by (simp add: config_key_def split_once_append rsplit_once_append)

lemma config_key_two:
  "46 \<notin> set section \<Longrightarrow> 46 \<notin> set name \<Longrightarrow>
     config_key (section @ 46 # name) = Some (section, None, name)"
  by (simp add: config_key_def split_once_append rsplit_once_None_iff [THEN iffD2])

end
