(* ===== verification/Object_Id.thy ===== *)
theory Object_Id
  imports Bytes
begin

text \<open>
  \<^verbatim>\<open>src/object.rs\<close> and \<^verbatim>\<open>src/object/prefix.rs\<close>: object kinds and hash formats,
  identities with their hexadecimal text, abbreviated identities, and the framing that is
  hashed. The digests themselves come from the \<^verbatim>\<open>aws-lc-rs\<close> package and are
  parameters of the functions that use them.
\<close>

section \<open>Kinds, formats and identities\<close>

datatype object_kind = Blob | Tree | Commit | Tag

fun object_kind_as_str :: "object_kind \<Rightarrow> bytes" where
  "object_kind_as_str Blob = ascii ''blob''"
| "object_kind_as_str Tree = ascii ''tree''"
| "object_kind_as_str Commit = ascii ''commit''"
| "object_kind_as_str Tag = ascii ''tag''"

datatype object_format = Sha1 | Sha256

fun digest_len :: "object_format \<Rightarrow> nat" where
  "digest_len Sha1 = 20"
| "digest_len Sha256 = 32"

text \<open>
  The arrays \<^verbatim>\<open>[u8; 20]\<close> and \<^verbatim>\<open>[u8; 32]\<close> are byte lists; \<open>oid_wf\<close> states the
  length that the array types carry.
\<close>

datatype object_id = IdSha1 bytes | IdSha256 bytes

fun oid_format :: "object_id \<Rightarrow> object_format" where
  "oid_format (IdSha1 _) = Sha1"
| "oid_format (IdSha256 _) = Sha256"

fun as_bytes :: "object_id \<Rightarrow> bytes" where
  "as_bytes (IdSha1 bytes) = bytes"
| "as_bytes (IdSha256 bytes) = bytes"

definition oid_wf :: "object_id \<Rightarrow> bool" where
  "oid_wf oid \<longleftrightarrow> length (as_bytes oid) = digest_len (oid_format oid)"

datatype parse_object_id_error = ParseObjectIdError

record object_format_error =
  expected :: object_format
  actual :: object_format

definition from_bytes :: "object_format \<Rightarrow> bytes \<Rightarrow> parse_object_id_error + object_id" where
  "from_bytes format bytes =
     (case format of
        Sha1 \<Rightarrow> if length bytes = 20 then Inr (IdSha1 bytes) else Inl ParseObjectIdError
      | Sha256 \<Rightarrow> if length bytes = 32 then Inr (IdSha256 bytes) else Inl ParseObjectIdError)"

fun oid_null :: "object_format \<Rightarrow> object_id" where
  "oid_null Sha1 = IdSha1 (replicate 20 0)"
| "oid_null Sha256 = IdSha256 (replicate 32 0)"

definition is_null :: "object_id \<Rightarrow> bool" where
  "is_null oid = list_all (\<lambda>b. b = 0) (as_bytes oid)"

definition require_format :: "object_id \<Rightarrow> object_format \<Rightarrow> object_format_error + unit" where
  "require_format oid ex =
     (if oid_format oid = ex then Inr ()
      else Inl \<lparr>expected = ex, actual = oid_format oid\<rparr>)"

section \<open>Hexadecimal text\<close>

definition oid_to_string :: "object_id \<Rightarrow> bytes" where
  "oid_to_string oid = concat (map hex2 (as_bytes oid))"

definition hex_digit :: "byte \<Rightarrow> parse_object_id_error + byte" where
  "hex_digit digit =
     (if in_range 48 57 digit then Inr (digit - 48)
      else if in_range 97 102 digit then Inr (digit - 97 + 10)
      else if in_range 65 70 digit then Inr (digit - 65 + 10)
      else Inl ParseObjectIdError)"

text \<open>The loop of \<^verbatim>\<open>from_str\<close> over \<^verbatim>\<open>as_chunks::<2>\<close>.\<close>

fun hex_pairs :: "bytes \<Rightarrow> parse_object_id_error + bytes" where
  "hex_pairs (high # low # rest) =
     and_then (hex_digit high) (\<lambda>h.
     and_then (hex_digit low) (\<lambda>l.
     and_then (hex_pairs rest) (\<lambda>bytes.
     Inr ((push_bit 4 h OR l) # bytes))))"
| "hex_pairs _ = Inr []"

definition from_str :: "bytes \<Rightarrow> parse_object_id_error + object_id" where
  "from_str value =
     (if length value = 40 then
        and_then (hex_pairs value) (\<lambda>bytes. Inr (IdSha1 bytes))
      else if length value = 64 then
        and_then (hex_pairs value) (\<lambda>bytes. Inr (IdSha256 bytes))
      else Inl ParseObjectIdError)"

definition from_hex :: "object_format \<Rightarrow> bytes \<Rightarrow> parse_object_id_error + object_id" where
  "from_hex format value =
     and_then (from_str value) (\<lambda>oid.
     if oid_format oid \<noteq> format then Inl ParseObjectIdError else Inr oid)"

section \<open>Abbreviated identities\<close>

record object_id_prefix =
  lower :: object_id
  digits :: nat

datatype parse_object_id_prefix_error = ParseObjectIdPrefixError

definition prefix_from_hex ::
  "object_format \<Rightarrow> bytes \<Rightarrow> parse_object_id_prefix_error + object_id_prefix" where
  "prefix_from_hex format text =
     (let width = digest_len format * 2 in
      if \<not> (4 \<le> length text \<and> length text \<le> width) \<or> \<not> list_all is_ascii_hexdigit text
      then Inl ParseObjectIdPrefixError
      else
        let padded = text @ replicate (width - length text) 48 in
        and_then (map_err (\<lambda>_. ParseObjectIdPrefixError) (from_hex format padded)) (\<lambda>oid.
        Inr \<lparr>lower = oid, digits = length text\<rparr>))"

definition prefix_matches :: "object_id_prefix \<Rightarrow> object_id \<Rightarrow> bool" where
  "prefix_matches self oid =
     (if oid_format oid \<noteq> oid_format (lower self) then False
      else
        let bytes = digits self div 2; left = as_bytes (lower self); right = as_bytes oid in
        get_to left bytes = get_to right bytes \<and>
        (digits self mod 2 = 0 \<or>
         (case (get_at left bytes, get_at right bytes) of
            (Some a, Some b) \<Rightarrow> drop_bit 4 a = drop_bit 4 b
          | _ \<Rightarrow> False)))"

definition prefix_from_id :: "object_id \<Rightarrow> nat \<Rightarrow> object_id_prefix" where
  "prefix_from_id oid minimum =
     (let n = max 4 (min minimum (length (as_bytes oid) * 2));
          bytes = as_bytes oid;
          masked = (if n mod 2 \<noteq> 0 \<and> n div 2 < length bytes
                    then bytes[n div 2 := bytes ! (n div 2) AND 240] else bytes);
          cleared = take (div_ceil n 2) masked @ replicate (length masked - div_ceil n 2) 0
      in \<lparr>lower = (case oid of IdSha1 _ \<Rightarrow> IdSha1 cleared | IdSha256 _ \<Rightarrow> IdSha256 cleared),
          digits = n\<rparr>)"

definition prefix_to_string :: "object_id_prefix \<Rightarrow> bytes option" where
  "prefix_to_string self = get_to (oid_to_string (lower self)) (digits self)"

section \<open>Framing and hashing\<close>

definition object_header :: "bytes \<Rightarrow> nat \<Rightarrow> bytes" where
  "object_header kind len = kind @ [32] @ decimal len @ [0]"

definition encode_blob :: "bytes \<Rightarrow> bytes" where
  "encode_blob bytes = object_header (ascii ''blob'') (length bytes) @ bytes"

definition hash_object ::
  "(bytes \<Rightarrow> bytes) \<Rightarrow> (bytes \<Rightarrow> bytes) \<Rightarrow> object_format \<Rightarrow> object_kind \<Rightarrow> bytes \<Rightarrow> object_id" where
  "hash_object sha1 sha256 format kind bytes =
     (case format of
        Sha1 \<Rightarrow> IdSha1 (sha1 (object_header (object_kind_as_str kind) (length bytes) @ bytes))
      | Sha256 \<Rightarrow> IdSha256 (sha256 (object_header (object_kind_as_str kind) (length bytes) @ bytes)))"

section \<open>Facts about identities\<close>

lemma from_bytes_Inr_iff:
  "from_bytes format bs = Inr oid \<longleftrightarrow> oid_wf oid \<and> oid_format oid = format \<and> as_bytes oid = bs"
  by (cases oid; cases format) (auto simp add: from_bytes_def oid_wf_def)

lemma from_bytes_as_bytes [codec_simps]:
  "oid_wf oid \<Longrightarrow> from_bytes (oid_format oid) (as_bytes oid) = Inr oid"
  by (simp add: from_bytes_Inr_iff)

lemma oid_eq_iff: "oid = oid' \<longleftrightarrow> oid_format oid = oid_format oid' \<and> as_bytes oid = as_bytes oid'"
  by (cases oid; cases oid') auto

lemma require_format_Inr [simp]: "require_format oid f = Inr u \<longleftrightarrow> oid_format oid = f"
  by (simp add: require_format_def)

text \<open>Nibbles, as natural numbers.\<close>

lemma byte_15: "(15 :: byte) = mask 4"
  by (simp add: mask_eq_exp_minus_1)

lemma unat_drop4 [simp]: "unat (drop_bit 4 (b :: byte)) = unat b div 16"
  by (simp add: unat_drop_bit_eq drop_bit_nat_def)

lemma unat_and15 [simp]: "unat ((b :: byte) AND 15) = unat b mod 16"
  by (simp only: byte_15 unat_and_mask) simp

lemma unat_nibbles:
  fixes h l :: byte
  assumes "unat h < 16" and "unat l < 16"
  shows "unat (push_bit 4 h OR l) = 16 * unat h + unat l"
proof -
  have "unat (push_bit 4 h OR l) = take_bit 8 (push_bit 4 (unat h)) OR unat l"
    by (simp add: unsigned_or_eq unsigned_push_bit_eq)
  also have "take_bit 8 (push_bit 4 (unat h)) = push_bit 4 (unat h)"
    using assms by (simp add: take_bit_nat_eq_self push_bit_nat_def)
  finally show ?thesis using assms by (simp add: push_bit_or_nat)
qed

lemma unat_eqI: "unat a = unat b \<Longrightarrow> a = (b :: byte)"
  by (simp add: word_unat_eq_iff)

lemma nibbles_of_byte: "push_bit 4 (drop_bit 4 b) OR (b AND 15) = (b :: byte)"
  by (rule unat_eqI, subst unat_nibbles) (auto simp add: less_mult_imp_div_less)

lemma drop4_nibbles:
  "unat h < 16 \<Longrightarrow> unat l < 16 \<Longrightarrow> drop_bit 4 (push_bit 4 h OR l) = (h :: byte)"
  by (rule unat_eqI) (simp add: unat_nibbles del: drop_bit_or)

lemma and15_nibbles:
  "unat h < 16 \<Longrightarrow> unat l < 16 \<Longrightarrow> (push_bit 4 h OR l) AND 15 = (l :: byte)"
  by (rule unat_eqI) (simp add: unat_nibbles)

text \<open>One digit: printing and reading are inverse, up to case.\<close>

lemma unat_hex_char: "unat d < 16 \<Longrightarrow> unat (hex_char d) = (if unat d < 10 then 48 else 87) + unat d"
  by (auto simp add: hex_char_def word_less_nat_alt unat_word_ariths)

lemma hex_digit_hex_char:
  assumes "unat d < 16"
  shows "hex_digit (hex_char d) = Inr d"
proof (cases "unat d < 10")
  case True
  with assms have "hex_char d = 48 + d" "unat (48 + d) = 48 + unat d"
    by (auto simp add: hex_char_def word_less_nat_alt unat_word_ariths)
  with True show ?thesis by (simp add: hex_digit_def in_range_def word_le_nat_alt)
next
  case False
  with assms have "hex_char d = 87 + d" "unat (87 + d) = 87 + unat d"
    by (auto simp add: hex_char_def word_less_nat_alt unat_word_ariths)
  with False assms show ?thesis by (simp add: hex_digit_def in_range_def word_le_nat_alt)
qed

lemma hex_digit_Inr:
  assumes "hex_digit c = Inr d"
  shows "unat d < 16 \<and> hex_char d = to_ascii_lowercase c \<and> is_ascii_hexdigit c"
proof -
  from assms consider
      (dec) "in_range 48 57 c" "d = c - 48"
    | (low) "in_range 97 102 c" "d = c - 97 + 10"
    | (up) "in_range 65 70 c" "d = c - 65 + 10"
    by (auto simp add: hex_digit_def split: if_splits)
  then show ?thesis
  proof cases
    case dec
    then have d: "unat d = unat c - 48"
      by (simp add: in_range_def word_le_nat_alt unat_sub)
    show ?thesis using dec d
      by (auto intro!: unat_eqI simp add: unat_hex_char ascii_class_defs word_le_nat_alt)
  next
    case low
    then have d: "unat d = unat c - 87"
      by (simp add: in_range_def word_le_nat_alt unat_sub)
    show ?thesis using low d
      by (auto intro!: unat_eqI simp add: unat_hex_char ascii_class_defs word_le_nat_alt)
  next
    case up
    then have d: "unat d = unat c - 55"
      by (simp add: in_range_def word_le_nat_alt unat_sub)
    show ?thesis using up d
      by (auto intro!: unat_eqI
          simp add: unat_hex_char ascii_class_defs word_le_nat_alt unat_word_ariths)
  qed
qed

lemma hex_digit_ok_iff: "is_ok (hex_digit c) \<longleftrightarrow> is_ascii_hexdigit c"
  by (auto simp add: hex_digit_def is_ascii_hexdigit_def is_ascii_digit_def)

lemma hex_digit_lowercase: "hex_digit (to_ascii_lowercase c) = hex_digit c"
proof (cases "is_ascii_uppercase c")
  case True
  then have "unat (c + 32) = unat c + 32"
    by (simp add: ascii_class_defs word_le_nat_alt unat_word_ariths)
  with True show ?thesis
    by (auto simp add: hex_digit_def ascii_class_defs word_le_nat_alt)
next
  case False
  then show ?thesis by (simp add: to_ascii_lowercase_def)
qed

lemma hex_char_inject:
  "unat a < 16 \<Longrightarrow> unat b < 16 \<Longrightarrow> hex_char a = hex_char b \<longleftrightarrow> a = b"
  by (metis hex_digit_hex_char sum.inject(2))

lemma nibble_bounds [simp]: "unat (b :: byte) div 16 < 16" "unat b mod 16 < 16"
  using unat_byte_less [of b] by (auto simp add: less_mult_imp_div_less simp del: unat_byte_less)

lemma hexdigit_hex_char: "unat d < 16 \<Longrightarrow> is_ascii_hexdigit (hex_char d)"
  using hex_digit_Inr [OF hex_digit_hex_char] by blast

lemma list_all_hex2 [simp]: "list_all is_ascii_hexdigit (concat (map hex2 bs))"
  by (induction bs) (auto simp add: hex2_def hexdigit_hex_char)

lemma hex_pairs_hex2 [codec_simps]: "hex_pairs (concat (map hex2 bs)) = Inr bs"
  by (induction bs) (auto simp add: hex2_def hex_digit_hex_char nibbles_of_byte)

lemma hex_pairs_Inr:
  "hex_pairs v = Inr bs \<Longrightarrow> even (length v) \<Longrightarrow>
     concat (map hex2 bs) = map to_ascii_lowercase v \<and> list_all is_ascii_hexdigit v"
proof (induction v arbitrary: bs rule: hex_pairs.induct)
  case (1 high low rest)
  then obtain h l bs' where hl: "hex_digit high = Inr h" "hex_digit low = Inr l"
    and rest: "hex_pairs rest = Inr bs'" and bs: "bs = (push_bit 4 h OR l) # bs'"
    by (auto simp add: and_then_Inr_iff)
  from "1.IH" [OF hl rest] "1.prems"
  have IH: "concat (map hex2 bs') = map to_ascii_lowercase rest \<and> list_all is_ascii_hexdigit rest"
    by simp
  from hex_digit_Inr [OF hl(1)] hex_digit_Inr [OF hl(2)]
  have "hex2 (push_bit 4 h OR l) = [to_ascii_lowercase high, to_ascii_lowercase low]"
    by (simp add: hex2_def drop4_nibbles and15_nibbles del: drop_bit_or)
  with IH bs hex_digit_Inr [OF hl(1)] hex_digit_Inr [OF hl(2)] show ?case by simp
qed auto

lemma hex_pairs_lowercase: "hex_pairs (map to_ascii_lowercase v) = hex_pairs v"
  by (induction v rule: hex_pairs.induct)
    (auto simp add: hex_digit_lowercase intro!: and_then_cong)

lemma from_str_iff:
  "from_str v = Inr oid \<longleftrightarrow> oid_wf oid \<and> oid_to_string oid = map to_ascii_lowercase v"
proof
  assume v: "from_str v = Inr oid"
  then have len: "length v = 2 * digest_len (oid_format oid)" and pairs: "hex_pairs v = Inr (as_bytes oid)"
    by (auto simp add: from_str_def and_then_Inr_iff split: if_splits)
  have hex: "oid_to_string oid = map to_ascii_lowercase v"
    using hex_pairs_Inr [OF pairs] len by (simp add: oid_to_string_def)
  have "2 * length (as_bytes oid) = length (map to_ascii_lowercase v)"
    by (simp flip: hex add: oid_to_string_def)
  with len hex show "oid_wf oid \<and> oid_to_string oid = map to_ascii_lowercase v"
    by (simp add: oid_wf_def)
next
  assume r: "oid_wf oid \<and> oid_to_string oid = map to_ascii_lowercase v"
  then have "length v = length (oid_to_string oid)" by simp
  then have "length v = 2 * length (as_bytes oid)" by (simp add: oid_to_string_def)
  with r have len: "length v = 2 * digest_len (oid_format oid)" by (simp add: oid_wf_def)
  have "hex_pairs v = hex_pairs (oid_to_string oid)"
    using r by (simp add: hex_pairs_lowercase)
  also have "\<dots> = Inr (as_bytes oid)" by (simp add: oid_to_string_def hex_pairs_hex2)
  finally show "from_str v = Inr oid"
    using len by (cases oid) (simp_all add: from_str_def)
qed

lemma lowercase_hex_char: "unat d < 16 \<Longrightarrow> to_ascii_lowercase (hex_char d) = hex_char d"
  by (simp add: to_ascii_lowercase_def is_ascii_uppercase_def in_range_def word_le_nat_alt
      unat_hex_char)

lemma lowercase_oid_to_string [simp]:
  "map to_ascii_lowercase (oid_to_string oid) = oid_to_string oid"
proof -
  have "map to_ascii_lowercase (hex2 b) = hex2 b" for b
    by (simp add: hex2_def lowercase_hex_char)
  then have "map to_ascii_lowercase (concat (map hex2 bs)) = concat (map hex2 bs)" for bs
    by (induction bs) auto
  then show ?thesis by (simp add: oid_to_string_def)
qed

lemma from_str_to_string [codec_simps]: "oid_wf oid \<Longrightarrow> from_str (oid_to_string oid) = Inr oid"
  by (simp add: from_str_iff)

lemma length_oid_to_string [simp]:
  "oid_wf oid \<Longrightarrow> length (oid_to_string oid) = 2 * digest_len (oid_format oid)"
  by (simp add: oid_to_string_def oid_wf_def)

lemma from_hex_to_string [codec_simps]:
  "oid_wf oid \<Longrightarrow> from_hex (oid_format oid) (oid_to_string oid) = Inr oid"
  by (simp add: from_hex_def from_str_to_string)

section \<open>Facts about abbreviations\<close>

lemma hex_text_take_eq:
  assumes "length xs = length ys" and "n \<le> 2 * length xs"
  shows "take n (concat (map hex2 xs)) = take n (concat (map hex2 ys)) \<longleftrightarrow>
     take (n div 2) xs = take (n div 2) ys \<and>
     (even n \<or> drop_bit 4 (xs ! (n div 2)) = drop_bit 4 (ys ! (n div 2)))"
  using assms
proof (induction xs ys arbitrary: n rule: list_induct2)
  case Nil
  then show ?case by simp
next
  case (Cons x xs y ys)
  have eq: "hex2 x = hex2 y \<longleftrightarrow> x = y"
    using hex_pairs_hex2 [of "[x]"] hex_pairs_hex2 [of "[y]"] by (metis concat.simps list.simps(8,9)
        append_Nil2 list.inject sum.inject(2))
  show ?case
  proof (cases "n < 2")
    case True
    then have "n = 0 \<or> n = 1" by auto
    then show ?thesis by (auto simp add: hex2_def hex_char_inject)
  next
    case False
    then obtain m where n: "n = m + 2" by (metis le_add_diff_inverse2 not_less)
    have tk: "take n (concat (map hex2 (z # zs))) = hex2 z @ take m (concat (map hex2 zs))" for z zs
      by (simp add: n)
    have "take n (concat (map hex2 (x # xs))) = take n (concat (map hex2 (y # ys))) \<longleftrightarrow>
        x = y \<and> take m (concat (map hex2 xs)) = take m (concat (map hex2 ys))"
      unfolding tk using eq by simp
    also have "take m (concat (map hex2 xs)) = take m (concat (map hex2 ys)) \<longleftrightarrow>
        take (m div 2) xs = take (m div 2) ys \<and>
        (even m \<or> drop_bit 4 (xs ! (m div 2)) = drop_bit 4 (ys ! (m div 2)))"
      by (rule Cons.IH) (use Cons.prems n in simp)
    finally show ?thesis by (simp add: n)
  qed
qed

lemma prefix_from_hex_Inr:
  assumes "prefix_from_hex f t = Inr p"
  shows "digits p = length t \<and> oid_wf (lower p) \<and> oid_format (lower p) = f \<and>
     4 \<le> length t \<and> length t \<le> 2 * digest_len f \<and>
     take (length t) (oid_to_string (lower p)) = map to_ascii_lowercase t"
proof -
  let ?padded = "t @ replicate (digest_len f * 2 - length t) 48"
  from assms have t: "4 \<le> length t" "length t \<le> 2 * digest_len f"
    and hex: "from_hex f ?padded = Inr (lower p)" and d: "digits p = length t"
    by (auto simp add: prefix_from_hex_def Let_def and_then_Inr_iff split: if_splits)
  from hex have "from_str ?padded = Inr (lower p)" "oid_format (lower p) = f"
    by (auto simp add: from_hex_def and_then_Inr_iff split: if_splits)
  with t d show ?thesis by (simp add: from_str_iff)
qed

lemma prefix_matches_take:
  assumes "oid_wf (lower p)" and "oid_wf oid" and "digits p \<le> 2 * digest_len (oid_format (lower p))"
  shows "prefix_matches p oid \<longleftrightarrow> oid_format oid = oid_format (lower p) \<and>
     take (digits p) (oid_to_string oid) = take (digits p) (oid_to_string (lower p))"
proof (cases "oid_format oid = oid_format (lower p)")
  case True
  with assms have len: "length (as_bytes oid) = length (as_bytes (lower p))"
    "digits p \<le> 2 * length (as_bytes oid)"
    by (simp_all add: oid_wf_def)
  have half: "odd (digits p) \<Longrightarrow> digits p div 2 < length (as_bytes oid)"
    using len(2) by presburger
  have "digits p div 2 \<le> length (as_bytes oid)" using len(2) by simp
  then have "prefix_matches p oid \<longleftrightarrow>
      take (digits p div 2) (as_bytes oid) = take (digits p div 2) (as_bytes (lower p)) \<and>
      (even (digits p) \<or>
       drop_bit 4 (as_bytes oid ! (digits p div 2)) = drop_bit 4 (as_bytes (lower p) ! (digits p div 2)))"
    using True len half
    by (cases "even (digits p)")
      (auto simp add: prefix_matches_def Let_def get_to_def get_at_def even_iff_mod_2_eq_zero)
  also have "\<dots> \<longleftrightarrow>
      take (digits p) (oid_to_string oid) = take (digits p) (oid_to_string (lower p))"
    unfolding oid_to_string_def by (rule hex_text_take_eq [OF len, symmetric])
  finally show ?thesis using True by simp
next
  case False
  then show ?thesis by (simp add: prefix_matches_def)
qed

lemma unat_and240: "unat ((b :: byte) AND 240) div 16 = unat b div 16"
proof -
  have "drop_bit 4 (b AND 240) = drop_bit 4 b AND drop_bit 4 (240 :: byte)"
    by (rule drop_bit_and)
  also have "drop_bit 4 (240 :: byte) = mask 4"
    by (simp add: mask_eq_exp_minus_1)
  also have "drop_bit 4 b AND mask 4 = drop_bit 4 b"
    by (rule unat_eqI) (simp add: unat_and_mask)
  finally show ?thesis by (metis unat_drop4)
qed

lemma prefix_from_id_lower:
  assumes "oid_wf oid"
  shows "digits (prefix_from_id oid m) = max 4 (min m (2 * digest_len (oid_format oid)))"
    and "oid_wf (lower (prefix_from_id oid m))"
    and "oid_format (lower (prefix_from_id oid m)) = oid_format oid"
  using assms
  by (cases oid; simp add: prefix_from_id_def oid_wf_def Let_def div_ceil_def)+

lemma prefix_from_id_text:
  assumes wf: "oid_wf oid"
  shows "take (digits (prefix_from_id oid m)) (oid_to_string (lower (prefix_from_id oid m))) =
     take (digits (prefix_from_id oid m)) (oid_to_string oid)"
proof -
  define n where "n = max 4 (min m (length (as_bytes oid) * 2))"
  let ?bs = "as_bytes oid"
  have len: "length ?bs = 20 \<or> length ?bs = 32"
    using wf by (cases oid) (auto simp add: oid_wf_def)
  then have n: "n \<le> 2 * length ?bs" by (auto simp add: n_def)
  define low where "low = as_bytes (lower (prefix_from_id oid m))"
  define masked where "masked = (if n mod 2 \<noteq> 0 \<and> n div 2 < length ?bs
      then ?bs[n div 2 := ?bs ! (n div 2) AND 240] else ?bs)"
  have low: "low = take (div_ceil n 2) masked @ replicate (length masked - div_ceil n 2) 0"
    by (cases oid) (simp_all add: low_def masked_def n_def prefix_from_id_def Let_def)
  have lm: "length masked = length ?bs" by (simp add: masked_def)
  have half: "n div 2 \<le> div_ceil n 2" by (simp add: div_ceil_def div_le_mono)
  have ln: "length low = length ?bs" using n by (simp add: low lm div_ceil_def)
  have "take (n div 2) low = take (n div 2) masked" using half n lm by (simp add: low)
  then have tk: "take (n div 2) low = take (n div 2) ?bs" by (simp add: masked_def)
  have hi: "odd n \<Longrightarrow> drop_bit 4 (low ! (n div 2)) = drop_bit 4 (?bs ! (n div 2))"
  proof -
    assume odd: "odd n"
    then have lt: "n div 2 < div_ceil n 2" "n div 2 < length ?bs"
      using n by (auto simp add: div_ceil_def elim!: oddE)
    then have "low ! (n div 2) = ?bs ! (n div 2) AND 240"
      using lm odd by (simp add: low nth_append masked_def odd_iff_mod_2_eq_one)
    then show ?thesis by (auto intro!: unat_eqI simp add: unat_and240 simp del: drop_bit_and)
  qed
  have "take n (concat (map hex2 low)) = take n (concat (map hex2 ?bs))"
    by (rule hex_text_take_eq [THEN iffD2]) (use ln n tk hi in auto)
  moreover have "digits (prefix_from_id oid m) = n"
    by (simp add: prefix_from_id_def Let_def n_def)
  ultimately show ?thesis by (simp add: oid_to_string_def low_def)
qed

section \<open>Facts about the framing\<close>

lemma kind_no_space: "32 \<notin> set (object_kind_as_str k)"
  by (cases k) (simp_all add: ascii_def)

lemma kind_inject: "object_kind_as_str k = object_kind_as_str k' \<longleftrightarrow> k = k'"
  by (cases k; cases k') (simp_all add: ascii_def)

lemma decimal_no_nul: "0 \<notin> set (decimal n)"
  using decimal_digits [of n] by (auto simp add: is_ascii_digit_def in_range_def)

lemma object_header_inject:
  "object_header (object_kind_as_str k) m @ xs = object_header (object_kind_as_str k') m' @ ys \<longleftrightarrow>
     k = k' \<and> m = m' \<and> xs = ys"
proof
  assume eq: "object_header (object_kind_as_str k) m @ xs
    = object_header (object_kind_as_str k') m' @ ys"
  have head: "split_once (object_header (object_kind_as_str k) m @ xs) 32 =
      Some (object_kind_as_str k, decimal m @ 0 # xs)" for k m xs
    by (simp add: object_header_def split_once_append kind_no_space)
  have tail: "split_once (decimal m @ 0 # xs) 0 = Some (decimal m, xs)" for m xs
    by (simp add: split_once_append decimal_no_nul)
  from eq have "object_kind_as_str k = object_kind_as_str k'"
    and rest: "decimal m @ 0 # xs = decimal m' @ 0 # ys"
    by (metis head option.inject prod.inject)+
  moreover from rest have "decimal m = decimal m'" "xs = ys"
    by (metis tail option.inject prod.inject)+
  ultimately show "k = k' \<and> m = m' \<and> xs = ys"
    by (simp add: kind_inject decimal_inject)
qed simp

section \<open>Properties\<close>

text \<open>
  C28: reading and printing identities. A text is read as an identity exactly when the
  identity is well formed and prints as that text in lower case: full identities of either
  format are accepted in either case, nothing else is, and printing then reading is the
  identity function.
\<close>

theorem object_id_text_iff:
  "from_str v = Inr oid \<longleftrightarrow> oid_wf oid \<and> oid_to_string oid = map to_ascii_lowercase v"
  by (rule from_str_iff)

text \<open>
  C29: an abbreviated identity matches exactly the identities of its format whose
  hexadecimal text starts with the abbreviation, odd numbers of digits included.
\<close>

theorem object_id_prefix_matches:
  assumes "prefix_from_hex f t = Inr p" and "oid_wf oid"
  shows "prefix_matches p oid \<longleftrightarrow>
     oid_format oid = f \<and> starts_with (oid_to_string oid) (map to_ascii_lowercase t)"
proof -
  note p = prefix_from_hex_Inr [OF assms(1)]
  then have "prefix_matches p oid \<longleftrightarrow> oid_format oid = f \<and>
      take (length t) (oid_to_string oid) = map to_ascii_lowercase t"
    using prefix_matches_take [of p oid] assms(2) by auto
  then show ?thesis by (simp add: starts_with_def)
qed

theorem object_id_prefix_matches_witness:
  "prefix_matches \<lparr>lower = IdSha1 ([0xab, 0xcd, 0x10] @ replicate 17 0), digits = 5\<rparr>
     (IdSha1 ([0xab, 0xcd, 0x1f] @ replicate 17 7))"
proof -
  let ?t = "ascii ''ABcd1''"
  let ?p = "\<lparr>lower = IdSha1 ([0xab, 0xcd, 0x10] @ replicate 17 0), digits = 5\<rparr>"
  let ?id = "IdSha1 ([0xab, 0xcd, 0x1f] @ replicate 17 7)"
  have h: "prefix_from_hex Sha1 ?t = Inr ?p" by code_simp
  have w: "oid_wf ?id" by (simp add: oid_wf_def)
  have "starts_with (oid_to_string ?id) (map to_ascii_lowercase ?t)" by code_simp
  then show ?thesis using object_id_prefix_matches [OF h w] by simp
qed




end
