(* ===== verification/Packet.thy ===== *)
theory Packet
  imports Object_Id
begin

text \<open>
  \<^verbatim>\<open>src/packet.rs\<close>: pkt-line framing. \<open>Wire\<close> reads frames from any reader under a
  byte budget, \<open>packet\<close> and \<open>put\<close> write them to any writer. Readers and writers
  are interfaces (\<^verbatim>\<open>std::io::Read\<close> and \<^verbatim>\<open>std::io::Write\<close>): the operations take
  the read or write function as an argument, and the locales \<open>byte_source\<close> and
  \<open>byte_sink\<close> state what a well-behaved one promises. They are interpreted here on byte
  slices and byte vectors, and in the theory of the async bridge on its channels.

  The state of a wire after an error is not modelled: every caller passes the error on.
  The cancellation flag has one value for the duration of a call.
\<close>

section \<open>The model\<close>

datatype io_error = Interrupted | WriteZero | InvalidData | BrokenPipe | OtherIo

datatype packet_error =
    Io io_error
  | Protocol string
  | Limit string
  | Cancelled
  | Remote bytes

datatype frame = Flush | Delim | ResponseEnd | Data bytes

record 'r wire =
  reader :: 'r
  remaining :: nat
  cancel :: bool

definition check_cancelled :: "bool \<Rightarrow> packet_error + unit" where
  "check_cancelled c = (if c then Inl Cancelled else Inr ())"

text \<open>\<^verbatim>\<open>usize::from_str_radix(digits, 16)\<close> on digits that are known to be hexadecimal.\<close>

definition hex_value :: "bytes \<Rightarrow> nat" where
  "hex_value ds =
     foldl (\<lambda>v d. 16 * v + (case hex_digit d of Inr x \<Rightarrow> unat x | Inl _ \<Rightarrow> 0)) 0 ds"

definition frame_length :: "bytes \<Rightarrow> packet_error + nat" where
  "frame_length header =
     (if \<not> list_all is_ascii_hexdigit header then Inl (Protocol ''pkt-line header'')
      else
        let len = hex_value header in
        if 2 < len \<and> \<not> (4 \<le> len \<and> len \<le> 65520) then Inl (Protocol ''pkt-line length'')
        else Inr len)"

definition packet_length :: "bytes \<Rightarrow> packet_error + nat" where
  "packet_length header =
     and_then (frame_length header) (\<lambda>len.
     if len = 1 \<or> len = 2 then Inl (Protocol ''pkt-line length'') else Inr len)"

definition charge :: "'r wire \<Rightarrow> nat \<Rightarrow> packet_error + 'r wire" where
  "charge self bytes =
     and_then (ok_or (Limit ''wire bytes'') (checked_sub (remaining self) bytes)) (\<lambda>left.
     Inr (self\<lparr>remaining := left\<rparr>))"

text \<open>
  Fills a buffer of \<open>need\<close> bytes. A read that returns no bytes is the end of the stream;
  an interrupted read is an error here.
\<close>

function exact ::
  "('r \<Rightarrow> nat \<Rightarrow> io_error + bytes \<times> 'r) \<Rightarrow> bool \<Rightarrow> 'r \<Rightarrow> nat \<Rightarrow> packet_error + bytes \<times> 'r" where
  "exact read c r need =
     (if need = 0 then Inr ([], r)
      else
        and_then (check_cancelled c) (\<lambda>_.
        and_then (map_err Io (read r need)) (\<lambda>(bytes, r').
        if bytes = [] then Inl (Protocol ''truncated pkt-line'')
        else if need < length bytes then Inl (Protocol ''reader overran its buffer'')
        else
          and_then (exact read c r' (need - length bytes)) (\<lambda>(rest, r'').
          Inr (bytes @ rest, r'')))))"
  by pat_completeness auto
termination
  by (relation "measure (\<lambda>(read, c, r, need). need)") auto

declare exact.simps [simp del]

definition wire_exact ::
  "('r \<Rightarrow> nat \<Rightarrow> io_error + bytes \<times> 'r) \<Rightarrow> 'r wire \<Rightarrow> nat \<Rightarrow> packet_error + bytes \<times> 'r wire" where
  "wire_exact read self need =
     and_then (exact read (cancel self) (reader self) need) (\<lambda>(bytes, r).
     Inr (bytes, self\<lparr>reader := r\<rparr>))"

definition wire_frame ::
  "('r \<Rightarrow> nat \<Rightarrow> io_error + bytes \<times> 'r) \<Rightarrow> 'r wire \<Rightarrow> packet_error + frame \<times> 'r wire" where
  "wire_frame read self =
     and_then (charge self 4) (\<lambda>self.
     and_then (wire_exact read self 4) (\<lambda>(header, self).
     and_then (frame_length header) (\<lambda>len.
     if len = 0 then Inr (Flush, self)
     else if len = 1 then Inr (Delim, self)
     else if len = 2 then Inr (ResponseEnd, self)
     else
       and_then (charge self (len - 4)) (\<lambda>self.
       and_then (wire_exact read self (len - 4)) (\<lambda>(bytes, self).
       case strip_prefix bytes (ascii ''ERR '') of
         Some message \<Rightarrow> Inl (Remote message)
       | None \<Rightarrow> Inr (Data bytes, self))))))"

definition wire_packet ::
  "('r \<Rightarrow> nat \<Rightarrow> io_error + bytes \<times> 'r) \<Rightarrow> 'r wire \<Rightarrow> packet_error + bytes option \<times> 'r wire" where
  "wire_packet read self =
     and_then (wire_frame read self) (\<lambda>(f, self).
     case f of
       Flush \<Rightarrow> Inr (None, self)
     | Data bytes \<Rightarrow> Inr (Some bytes, self)
     | Delim \<Rightarrow> Inl (Protocol ''pkt-line length'')
     | ResponseEnd \<Rightarrow> Inl (Protocol ''pkt-line length''))"

text \<open>
  The loop of \<^verbatim>\<open>frame_or_end\<close> repeats interrupted reads, so it may run forever;
  \<open>None\<close> is the value of a run that does.
\<close>

partial_function (option) read_first ::
  "('r \<Rightarrow> nat \<Rightarrow> io_error + bytes \<times> 'r) \<Rightarrow> ('r \<Rightarrow> 'r) \<Rightarrow> 'r \<Rightarrow> (io_error + bytes \<times> 'r) option" where
  "read_first read interrupted r =
     (case read r 1 of
        Inl e \<Rightarrow> if e = Interrupted then read_first read interrupted (interrupted r) else Some (Inl e)
      | Inr x \<Rightarrow> Some (Inr x))"

definition wire_frame_or_end ::
  "('r \<Rightarrow> nat \<Rightarrow> io_error + bytes \<times> 'r) \<Rightarrow> ('r \<Rightarrow> 'r) \<Rightarrow> 'r wire \<Rightarrow>
     (packet_error + frame option \<times> 'r wire) option" where
  "wire_frame_or_end read interrupted self =
     (if cancel self then Some (Inl Cancelled)
      else
        map_option (\<lambda>result.
          and_then (map_err Io result) (\<lambda>(first, r).
          let self = self\<lparr>reader := r\<rparr> in
          if first = [] then Inr (None, self)
          else
            and_then (charge self 4) (\<lambda>self.
            and_then (wire_exact read self 3) (\<lambda>(rest, self).
            and_then (frame_length (hd first # rest)) (\<lambda>len.
            if len = 0 then Inr (Some Flush, self)
            else if len = 1 then Inr (Some Delim, self)
            else if len = 2 then Inr (Some ResponseEnd, self)
            else
              and_then (charge self (len - 4)) (\<lambda>self.
              and_then (wire_exact read self (len - 4)) (\<lambda>(bytes, self).
              Inr (Some (Data bytes), self))))))))
          (read_first read interrupted (reader self)))"

definition wire_end ::
  "('r \<Rightarrow> nat \<Rightarrow> io_error + bytes \<times> 'r) \<Rightarrow> 'r wire \<Rightarrow> packet_error + 'r wire" where
  "wire_end read self =
     and_then (check_cancelled (cancel self)) (\<lambda>_.
     and_then (map_err Io (read (reader self) 1)) (\<lambda>(bytes, r).
     if length bytes \<noteq> 0 then Inl (Protocol ''trailing response bytes'')
     else Inr (self\<lparr>reader := r\<rparr>)))"

text \<open>The write loop; a write may accept only part of the bytes.\<close>

function put ::
  "('w \<Rightarrow> bytes \<Rightarrow> io_error + nat \<times> 'w) \<Rightarrow> 'w \<Rightarrow> bytes \<Rightarrow> bool \<Rightarrow> packet_error + 'w" where
  "put write w bytes c =
     (if bytes = [] then Inr w
      else
        and_then (check_cancelled c) (\<lambda>_.
        and_then (map_err Io (write w bytes)) (\<lambda>(written, w').
        if written = 0 then Inl (Io WriteZero)
        else if length bytes < written then Inl (Io InvalidData)
        else put write w' (drop written bytes) c)))"
  by pat_completeness auto
termination
  by (relation "measure (\<lambda>(write, w, bytes, c). length bytes)") auto

declare put.simps [simp del]

text \<open>\<^verbatim>\<open>{:04x}\<close> for values below \<open>65536\<close>.\<close>

definition hex4 :: "nat \<Rightarrow> bytes" where
  "hex4 n = concat (map hex2 (be_bytes 2 n))"

definition packet ::
  "('w \<Rightarrow> bytes \<Rightarrow> io_error + nat \<times> 'w) \<Rightarrow> 'w \<Rightarrow> bytes \<Rightarrow> bool \<Rightarrow> packet_error + 'w" where
  "packet write w bytes c =
     (if 65516 < length bytes then Inl (Protocol ''pkt-line output length'')
      else
        and_then (put write w (hex4 (length bytes + 4)) c) (\<lambda>w.
        put write w bytes c))"

section \<open>Headers\<close>

lemma hex_value_snoc:
  "hex_value (ds @ [d]) = 16 * hex_value ds + (case hex_digit d of Inr x \<Rightarrow> unat x | Inl _ \<Rightarrow> 0)"
  by (simp add: hex_value_def)

lemma hex_value_hex2: "hex_value (concat (map hex2 bs)) = be_nat bs"
proof (induction bs rule: rev_induct)
  case Nil
  then show ?case by (simp add: hex_value_def)
next
  case (snoc b bs)
  have "hex_value (concat (map hex2 bs) @ [hex_char (drop_bit 4 b), hex_char (b AND 15)])
      = 256 * hex_value (concat (map hex2 bs)) + unat b"
    using hex_value_snoc [of "concat (map hex2 bs) @ [hex_char (drop_bit 4 b)]"]
    by (simp add: hex_value_snoc hex_digit_hex_char)
  then show ?case using snoc by (simp add: hex2_def [of b])
qed

lemma length_hex4 [simp]: "length (hex4 n) = 4"
  by (simp add: hex4_def)

lemma frame_length_hex4 [codec_simps]:
  "n \<le> 2 \<or> 4 \<le> n \<Longrightarrow> n \<le> 65520 \<Longrightarrow> frame_length (hex4 n) = Inr n"
  by (auto simp add: frame_length_def hex4_def hex_value_hex2 Let_def simp del: be_bytes.simps)

lemma frame_length_bounds:
  "frame_length h = Inr n \<Longrightarrow> n \<le> 2 \<or> (4 \<le> n \<and> n \<le> 65520)"
  by (auto simp add: frame_length_def Let_def split: if_splits)

section \<open>Well-behaved readers and writers\<close>

text \<open>
  A byte source never fails, delivers a prefix of what is pending, and delivers nothing
  only when nothing is pending. How many bytes one read returns is up to the source.
\<close>

locale byte_source =
  fixes read :: "'r \<Rightarrow> nat \<Rightarrow> io_error + bytes \<times> 'r"
    and pending :: "'r \<Rightarrow> bytes"
    and good :: "'r \<Rightarrow> bool"
  assumes read_good: "good r \<Longrightarrow> 0 < n \<Longrightarrow>
      \<exists>bs r'. read r n = Inr (bs, r') \<and> good r' \<and> length bs \<le> n \<and>
        pending r = bs @ pending r' \<and> (bs = [] \<longrightarrow> pending r = [])"
begin

lemma exact_good:
  "good r \<Longrightarrow> n \<le> length (pending r) \<Longrightarrow>
     \<exists>r'. exact read False r n = Inr (take n (pending r), r') \<and> good r' \<and>
       pending r' = drop n (pending r)"
proof (induction n arbitrary: r rule: less_induct)
  case (less n)
  show ?case
  proof (cases "n = 0")
    case True
    with less.prems show ?thesis by (simp add: exact.simps)
  next
    case False
    with read_good [OF less.prems(1), of n] obtain bs r' where
        rd: "read r n = Inr (bs, r')" and r': "good r'" "length bs \<le> n"
      and p: "pending r = bs @ pending r'" and ne: "bs = [] \<longrightarrow> pending r = []"
      by auto
    from ne False less.prems(2) have bs: "bs \<noteq> []" by auto
    have "n - length bs < n" using bs False by simp
    moreover have "n - length bs \<le> length (pending r')" using less.prems(2) p by simp
    ultimately obtain r'' where
        "exact read False r' (n - length bs) = Inr (take (n - length bs) (pending r'), r'')"
      and "good r''" "pending r'' = drop (n - length bs) (pending r')"
      using less.IH r'(1) by blast
    with rd r' bs False p show ?thesis
      by (simp add: exact.simps [of read False r n] check_cancelled_def not_less)
  qed
qed

lemma exact_truncated:
  "good r \<Longrightarrow> length (pending r) < n \<Longrightarrow>
     exact read False r n = Inl (Protocol ''truncated pkt-line'')"
proof (induction n arbitrary: r rule: less_induct)
  case (less n)
  then have "n \<noteq> 0" by auto
  with read_good [OF less.prems(1), of n] obtain bs r' where
      rd: "read r n = Inr (bs, r')" and r': "good r'" "length bs \<le> n"
    and p: "pending r = bs @ pending r'" and ne: "bs = [] \<longrightarrow> pending r = []"
    by auto
  show ?case
  proof (cases "bs = []")
    case True
    with rd \<open>n \<noteq> 0\<close> show ?thesis
      by (simp add: exact.simps [of read False r n] check_cancelled_def)
  next
    case False
    then have "exact read False r' (n - length bs) = Inl (Protocol ''truncated pkt-line'')"
      using less.prems(2) p \<open>n \<noteq> 0\<close> by (intro less.IH r'(1)) auto
    with rd False r'(2) \<open>n \<noteq> 0\<close> show ?thesis
      by (simp add: exact.simps [of read False r n] check_cancelled_def not_less)
  qed
qed

lemma wire_exact_good:
  assumes "good (reader w)" and "\<not> cancel w" and "pending (reader w) = xs @ ys" and "n = length xs"
  shows "\<exists>w'. wire_exact read w n = Inr (xs, w') \<and> good (reader w') \<and>
    pending (reader w') = ys \<and> remaining w' = remaining w \<and> \<not> cancel w'"
proof -
  from exact_good [OF assms(1), of n] assms(3,4) obtain r' where
      "exact read False (reader w) n = Inr (xs, r')" "good r'" "pending r' = ys"
    by auto
  with assms(2) show ?thesis by (simp add: wire_exact_def)
qed

text \<open>A frame that was written is read back, and exactly its bytes are consumed and charged.\<close>

lemma frame_of_packet:
  assumes "good (reader w)" and "\<not> cancel w"
    and "pending (reader w) = hex4 (length bytes + 4) @ bytes @ rest"
    and "length bytes \<le> 65516" and "length bytes + 4 \<le> remaining w"
    and "\<not> starts_with bytes (ascii ''ERR '')"
  shows "\<exists>w'. wire_frame read w = Inr (Data bytes, w') \<and> good (reader w') \<and>
    pending (reader w') = rest \<and> remaining w' = remaining w - (length bytes + 4) \<and> \<not> cancel w'"
proof -
  let ?w1 = "w\<lparr>remaining := remaining w - 4\<rparr>"
  obtain w2 where w2: "wire_exact read ?w1 4 = Inr (hex4 (length bytes + 4), w2)"
      "good (reader w2)" "pending (reader w2) = bytes @ rest" "remaining w2 = remaining w - 4"
      "\<not> cancel w2"
    using wire_exact_good [of ?w1 "hex4 (length bytes + 4)" "bytes @ rest" 4] assms by auto
  let ?w3 = "w2\<lparr>remaining := remaining w2 - length bytes\<rparr>"
  obtain w4 where w4: "wire_exact read ?w3 (length bytes) = Inr (bytes, w4)"
      "good (reader w4)" "pending (reader w4) = rest"
      "remaining w4 = remaining w2 - length bytes" "\<not> cancel w4"
    using wire_exact_good [of ?w3 bytes rest "length bytes"] w2 by auto
  have c1: "charge w 4 = Inr ?w1" using assms(5) by (simp add: charge_def checked_sub_def)
  have c2: "charge w2 (length bytes) = Inr ?w3"
    using assms(5) w2(4) by (simp add: charge_def checked_sub_def)
  have fl: "frame_length (hex4 (length bytes + 4)) = Inr (length bytes + 4)"
    using assms(4) by (simp add: frame_length_hex4)
  have "wire_frame read w = Inr (Data bytes, w4)"
    using assms(6) by (simp add: wire_frame_def c1 w2(1) fl c2 w4(1) strip_prefix_def)
  with w2(4) w4 show ?thesis by auto
qed

end

text \<open>
  A byte sink accepts at least one byte of every non-empty write and appends what it
  accepted to what it holds.
\<close>

locale byte_sink =
  fixes write_op :: "'w \<Rightarrow> bytes \<Rightarrow> io_error + nat \<times> 'w"
    and accepted :: "'w \<Rightarrow> bytes"
    and ready :: "'w \<Rightarrow> bool"
  assumes write_ready: "ready w \<Longrightarrow> bs \<noteq> [] \<Longrightarrow>
      \<exists>n w'. write_op w bs = Inr (n, w') \<and> ready w' \<and> 0 < n \<and> n \<le> length bs \<and>
        accepted w' = accepted w @ take n bs"
begin

lemma put_ready:
  "ready w \<Longrightarrow> \<exists>w'. put write_op w bs False = Inr w' \<and> ready w' \<and> accepted w' = accepted w @ bs"
proof (induction "length bs" arbitrary: w bs rule: less_induct)
  case less
  show ?case
  proof (cases "bs = []")
    case True
    with less.prems show ?thesis by (simp add: put.simps)
  next
    case False
    from write_ready [OF less.prems False] obtain n w' where
        wr: "write_op w bs = Inr (n, w')" and w': "ready w'" "0 < n" "n \<le> length bs"
      and acc: "accepted w' = accepted w @ take n bs"
      by auto
    have "length (drop n bs) < length bs" using w' False by simp
    from less.hyps [OF this w'(1)] obtain w'' where
        "put write_op w' (drop n bs) False = Inr w''" "ready w''"
        "accepted w'' = accepted w' @ drop n bs"
      by blast
    with wr w' acc False show ?thesis
      by (simp add: put.simps [of write_op w bs] check_cancelled_def not_less)
  qed
qed

lemma packet_ready:
  assumes "ready w" and "length bs \<le> 65516"
  shows "\<exists>w'. packet write_op w bs False = Inr w' \<and> ready w' \<and>
    accepted w' = accepted w @ hex4 (length bs + 4) @ bs"
proof -
  from put_ready [OF assms(1)] obtain w1 where w1:
      "put write_op w (hex4 (length bs + 4)) False = Inr w1" "ready w1"
      "accepted w1 = accepted w @ hex4 (length bs + 4)"
    by blast
  from put_ready [OF w1(2), of bs] obtain w2 where
      "put write_op w1 bs False = Inr w2" "ready w2" "accepted w2 = accepted w1 @ bs"
    by blast
  with w1 assms(2) show ?thesis by (simp add: packet_def)
qed

end

section \<open>Slices and vectors\<close>

text \<open>
  \<^verbatim>\<open>impl Read for &[u8]\<close>, the reader of the response prefix check in
  \<^verbatim>\<open>src/fetch/stream.rs\<close>, and \<^verbatim>\<open>impl Write for Vec<u8>\<close>, the writer of every
  request that is built before it is sent.
\<close>

definition slice_read :: "bytes \<Rightarrow> nat \<Rightarrow> io_error + bytes \<times> bytes" where
  "slice_read self n = Inr (take n self, drop n self)"

definition vec_write :: "bytes \<Rightarrow> bytes \<Rightarrow> io_error + nat \<times> bytes" where
  "vec_write self bs = Inr (length bs, self @ bs)"

interpretation slice: byte_source slice_read "\<lambda>r. r" "\<lambda>_. True"
  by unfold_locales (auto simp add: slice_read_def)

interpretation vec: byte_sink vec_write "\<lambda>w. w" "\<lambda>_. True"
  by unfold_locales (auto simp add: vec_write_def)

section \<open>Budget and bounds\<close>

lemma charge_Inr_iff:
  "charge w n = Inr w' \<longleftrightarrow> n \<le> remaining w \<and> w' = w\<lparr>remaining := remaining w - n\<rparr>"
  by (auto simp add: charge_def and_then_Inr_iff checked_sub_def)

lemma exact_length: "exact read c r n = Inr (bs, r') \<Longrightarrow> length bs = n"
proof (induction read c r n arbitrary: bs rule: exact.induct)
  case (1 read c r need)
  show ?case
  proof (cases "need = 0")
    case True
    with "1.prems" show ?thesis by (simp add: exact.simps)
  next
    case False
    with "1.prems" obtain xs r1 ys where
        "read r need = Inr (xs, r1)" "xs \<noteq> []" "length xs \<le> need" "\<not> c"
        "exact read c r1 (need - length xs) = Inr (ys, r')" "bs = xs @ ys"
      by (auto simp add: exact.simps [of read c r need] and_then_Inr_iff map_err_def
          check_cancelled_def not_less split: sum.splits if_splits)
    with "1.IH" [OF False, of "()" "(xs, r1)" xs r1 ys] show ?thesis
      by (simp add: check_cancelled_def map_err_def not_less)
  qed
qed

lemma wire_exact_Inr:
  "wire_exact read w n = Inr (bs, w') \<Longrightarrow>
     length bs = n \<and> remaining w' = remaining w \<and> cancel w' = cancel w"
  by (auto simp add: wire_exact_def and_then_Inr_iff dest: exact_length)

text \<open>The bytes a frame occupies on the wire.\<close>

fun frame_size :: "frame \<Rightarrow> nat" where
  "frame_size (Data bytes) = 4 + length bytes"
| "frame_size _ = 4"

text \<open>
  C27: Whatever the reader does (it may fail, return short reads or end early), a frame that
  \<^verbatim>\<open>Wire::frame\<close> delivers was paid for: the budget decreases by exactly the frame's size
  on the wire, a frame is at most 65520 bytes, and no payload starts with the \<open>ERR\<close> marker.
\<close>

theorem frame_within_budget:
  assumes "wire_frame read w = Inr (f, w')"
  shows "remaining w = remaining w' + frame_size f \<and> frame_size f \<le> 65520 \<and>
    (\<forall>bytes. f = Data bytes \<longrightarrow> \<not> starts_with bytes (ascii ''ERR ''))"
proof -
  from assms obtain w0 header w1 len where
      c: "charge w 4 = Inr w0" and e: "wire_exact read w0 4 = Inr (header, w1)"
    and len: "frame_length header = Inr len"
    and k: "(if len = 0 then Inr (Flush, w1) else if len = 1 then Inr (Delim, w1)
      else if len = 2 then Inr (ResponseEnd, w1)
      else and_then (charge w1 (len - 4)) (\<lambda>self.
       and_then (wire_exact read self (len - 4)) (\<lambda>(bytes, self).
       case strip_prefix bytes (ascii ''ERR '') of
         Some message \<Rightarrow> Inl (Remote message)
       | None \<Rightarrow> Inr (Data bytes, self)))) = Inr (f, w')"
    unfolding wire_frame_def by (elim and_then_InrE) (simp only: split_paired_all prod.case, elim and_then_InrE, blast)
  from c wire_exact_Inr [OF e] have w1: "remaining w = remaining w1 + 4"
    by (simp add: charge_Inr_iff)
  show ?thesis
  proof (cases "len \<le> 2")
    case True
    then have "len = 0 \<or> len = 1 \<or> len = 2" by arith
    with k w1 show ?thesis by auto
  next
    case False
    with k have "and_then (charge w1 (len - 4)) (\<lambda>self.
        and_then (wire_exact read self (len - 4)) (\<lambda>(bytes, self).
        case strip_prefix bytes (ascii ''ERR '') of
          Some message \<Rightarrow> Inl (Remote message)
        | None \<Rightarrow> Inr (Data bytes, self))) = Inr (f, w')" by simp
    then obtain w2 bytes w3 where c2: "charge w1 (len - 4) = Inr w2"
      and e2: "wire_exact read w2 (len - 4) = Inr (bytes, w3)"
      and d: "strip_prefix bytes (ascii ''ERR '') = None" "f = Data bytes" "w' = w3"
      by (elim and_then_InrE) (auto split: option.splits)
    from c2 wire_exact_Inr [OF e2] False frame_length_bounds [OF len] w1 d show ?thesis
      by (auto simp add: charge_Inr_iff strip_prefix_def split: if_splits)
  qed
qed

theorem frame_within_budget_witness:
  "remaining \<lparr>reader = ascii ''0006hi0000'', remaining = 20, cancel = False\<rparr>
     = remaining \<lparr>reader = ascii ''0000'', remaining = 14, cancel = False\<rparr>
       + frame_size (Data (ascii ''hi''))"
proof -
  have "wire_frame slice_read \<lparr>reader = ascii ''0006hi0000'', remaining = 20, cancel = False\<rparr>
      = Inr (Data (ascii ''hi''), \<lparr>reader = ascii ''0000'', remaining = 14, cancel = False\<rparr>)"
    by (simp add: wire_frame_def wire_exact_def exact.simps charge_def checked_sub_def
        check_cancelled_def slice_read_def frame_length_def hex_value_def hex_digit_def
        ascii_class_defs ascii_def strip_prefix_def starts_with_def map_err_def and_then_def
        ok_or_def)
  from frame_within_budget [OF this] show ?thesis by blast
qed


end
