(* ===== verification/Bridge.thy ===== *)
theory Bridge
  imports Packet
begin

text \<open>
  \<^verbatim>\<open>src/serve/bridge.rs\<close>: the blocking ends of the async bridge, and the counting reader of
  \<^verbatim>\<open>src/fetch/stream.rs\<close>. A session holds one pending output buffer that the reader and the
  writer share. The channels are queues: \<open>queue\<close> holds the messages the input pump has sent or
  will send before it closes the channel, \<open>sent\<close> the chunks handed to the output pump, and
  \<open>receiving\<close> says whether the output pump still exists. Both ends are interpreted as
  instances of the reader and writer interfaces of pkt-line framing.
\<close>

section \<open>The model\<close>

definition CHUNK_BYTES :: nat where
  "CHUNK_BYTES = 64 * 1024"

record pending_output =
  pending_bytes :: bytes
  sender :: bool
  receiving :: bool
  sent :: "bytes list"

record session =
  queue :: "(io_error + bytes) list"
  chunk :: bytes
  position_in :: nat
  shared_output :: pending_output

definition pending_send :: "pending_output \<Rightarrow> (io_error + unit) \<times> pending_output" where
  "pending_send self =
     (if pending_bytes self = [] then (Inr (), self)
      else
        let bytes = pending_bytes self;
            self = self\<lparr>pending_bytes := []\<rparr>
        in
        if sender self \<and> receiving self
        then (Inr (), self\<lparr>sent := sent self @ [bytes]\<rparr>)
        else (Inl BrokenPipe, self\<lparr>sender := False\<rparr>))"

definition channel_copy :: "session \<Rightarrow> nat \<Rightarrow> (io_error + bytes) \<times> session" where
  "channel_copy self room_len =
     (let available = drop (position_in self) (chunk self);
          count = min (length available) room_len
      in (Inr (take count available), self\<lparr>position_in := position_in self + count\<rparr>))"

definition channel_read :: "session \<Rightarrow> nat \<Rightarrow> (io_error + bytes) \<times> session" where
  "channel_read self room_len =
     (if position_in self = length (chunk self) then
        case pending_send (shared_output self) of
          (Inl e, out) \<Rightarrow> (Inl e, self\<lparr>shared_output := out\<rparr>)
        | (Inr _, out) \<Rightarrow>
            (let self = self\<lparr>shared_output := out\<rparr> in
             case queue self of
               [] \<Rightarrow> (Inr [], self)
             | message # rest \<Rightarrow>
                 (let self = self\<lparr>queue := rest\<rparr> in
                  case message of
                    Inl e \<Rightarrow> (Inl e, self)
                  | Inr received \<Rightarrow>
                      channel_copy (self\<lparr>chunk := received, position_in := 0\<rparr>) room_len))
      else channel_copy self room_len)"

definition channel_write :: "pending_output \<Rightarrow> bytes \<Rightarrow> (io_error + nat) \<times> pending_output" where
  "channel_write self bytes =
     (if \<not> sender self then (Inl BrokenPipe, self)
      else
        let room = CHUNK_BYTES - length (pending_bytes self);
            count = min room (length bytes);
            self = self\<lparr>pending_bytes := pending_bytes self @ take count bytes\<rparr>
        in
        if length (pending_bytes self) = CHUNK_BYTES then
          case pending_send self of
            (Inl e, self) \<Rightarrow> (Inl e, self)
          | (Inr _, self) \<Rightarrow> (Inr count, self)
        else (Inr count, self))"

definition channel_flush :: "pending_output \<Rightarrow> (io_error + unit) \<times> pending_output" where
  "channel_flush self = pending_send self"

text \<open>
  The messages the input pump sends for a sequence of reads of the client's stream: it stops
  at the end of the stream, and after the first error.
\<close>

fun pump_input :: "(io_error + bytes) list \<Rightarrow> (io_error + bytes) list" where
  "pump_input [] = []"
| "pump_input (Inl e # reads) = [Inl e]"
| "pump_input (Inr bytes # reads) =
     (if bytes = [] then [] else Inr bytes # pump_input reads)"

text \<open>\<^verbatim>\<open>Counted\<close> of \<^verbatim>\<open>src/fetch/stream.rs\<close> around any reader.\<close>

record 'r counted =
  inner :: 'r
  read_count :: nat

definition counted_read ::
  "('r \<Rightarrow> nat \<Rightarrow> io_error + bytes \<times> 'r) \<Rightarrow> 'r counted \<Rightarrow> nat \<Rightarrow> io_error + bytes \<times> 'r counted" where
  "counted_read read self room_len =
     and_then (read (inner self) room_len) (\<lambda>(bytes, r).
     Inr (bytes, self\<lparr>inner := r, read_count := read_count self + length bytes\<rparr>))"

text \<open>The view of an operation through \<^verbatim>\<open>Read\<close> or \<^verbatim>\<open>Write\<close>: the state on success.\<close>

definition on_success :: "(io_error + 'a) \<times> 's \<Rightarrow> io_error + 'a \<times> 's" where
  "on_success x = (case x of (Inl e, _) \<Rightarrow> Inl e | (Inr v, s) \<Rightarrow> Inr (v, s))"

section \<open>The input end\<close>

fun ok_messages :: "(io_error + bytes) list \<Rightarrow> bool" where
  "ok_messages [] = True"
| "ok_messages (m # ms) = (case m of Inl _ \<Rightarrow> False | Inr bs \<Rightarrow> bs \<noteq> [] \<and> ok_messages ms)"

fun message_bytes :: "(io_error + bytes) list \<Rightarrow> bytes" where
  "message_bytes [] = []"
| "message_bytes (m # ms) = (case m of Inl _ \<Rightarrow> [] | Inr bs \<Rightarrow> bs @ message_bytes ms)"

definition pending_open :: "pending_output \<Rightarrow> bool" where
  "pending_open p \<longleftrightarrow> sender p \<and> receiving p \<and> length (pending_bytes p) < CHUNK_BYTES \<and>
     [] \<notin> set (sent p)"

definition session_pending :: "session \<Rightarrow> bytes" where
  "session_pending s = drop (position_in s) (chunk s) @ message_bytes (queue s)"

definition session_good :: "session \<Rightarrow> bool" where
  "session_good s \<longleftrightarrow>
     position_in s \<le> length (chunk s) \<and> ok_messages (queue s) \<and> pending_open (shared_output s)"

lemma CHUNK_BYTES_pos [simp]: "0 < CHUNK_BYTES" "CHUNK_BYTES \<noteq> 0"
  by (simp_all add: CHUNK_BYTES_def)

lemma pump_input_ok:
  "list_all (\<lambda>m. \<exists>bs. m = Inr bs) reads \<Longrightarrow> ok_messages (pump_input reads)"
  by (induction reads rule: pump_input.induct) auto

lemma pump_input_bytes:
  "message_bytes (pump_input (map Inr (chunks_in @ [[]]))) = concat (takeWhile (\<lambda>bs. bs \<noteq> []) chunks_in)"
  by (induction chunks_in) auto

lemma pending_send_open:
  assumes "pending_open p"
  obtains p' where "pending_send p = (Inr (), p')" and "pending_open p'" and "pending_bytes p' = []"
    and "concat (sent p') = concat (sent p) @ pending_bytes p"
  using assms
  by (cases "pending_bytes p = []")
     (auto simp add: pending_send_def pending_open_def Let_def)

lemma channel_copy_good:
  assumes "position_in s < length (chunk s)" and "ok_messages (queue s)" and "pending_open (shared_output s)"
    and "0 < n"
  shows "\<exists>bs s'. on_success (channel_copy s n) = Inr (bs, s') \<and> session_good s' \<and> length bs \<le> n \<and>
    session_pending s = bs @ session_pending s' \<and> bs \<noteq> []"
proof -
  let ?a = "drop (position_in s) (chunk s)"
  let ?k = "min (length ?a) n"
  let ?t = "s\<lparr>position_in := position_in s + ?k\<rparr>"
  have "take ?k ?a @ drop (position_in s + ?k) (chunk s) = ?a"
    using append_take_drop_id [of ?k ?a] by (simp only: drop_drop add.commute [of ?k])
  moreover have "session_pending ?t = drop (position_in s + ?k) (chunk s) @ message_bytes (queue s)"
    by (simp add: session_pending_def)
  ultimately have "session_pending s = take ?k ?a @ session_pending ?t"
    unfolding session_pending_def [of s] by (simp only: append_assoc [symmetric])
  moreover have "session_good ?t" using assms by (simp add: session_good_def)
  moreover have "on_success (channel_copy s n) = Inr (take ?k ?a, ?t)"
    by (simp only: channel_copy_def on_success_def Let_def prod.case sum.case)
  moreover have "length (take ?k ?a) \<le> n" "take ?k ?a \<noteq> []" using assms by simp_all
  ultimately show ?thesis by (intro exI conjI)
qed

interpretation channel_in: byte_source "\<lambda>s n. on_success (channel_read s n)" session_pending session_good
proof
  fix s :: session and n :: nat
  assume good: "session_good s" and n: "0 < n"
  show "\<exists>bs s'. on_success (channel_read s n) = Inr (bs, s') \<and> session_good s' \<and> length bs \<le> n \<and>
      session_pending s = bs @ session_pending s' \<and> (bs = [] \<longrightarrow> session_pending s = [])"
  proof (cases "position_in s = length (chunk s)")
    case False
    with good n have "\<exists>bs s'. on_success (channel_copy s n) = Inr (bs, s') \<and> session_good s' \<and>
        length bs \<le> n \<and> session_pending s = bs @ session_pending s' \<and> bs \<noteq> []"
      by (intro channel_copy_good) (auto simp add: session_good_def)
    moreover have "channel_read s n = channel_copy s n" using False by (simp add: channel_read_def)
    ultimately show ?thesis by (simp only:) blast
  next
    case True
    from good have "pending_open (shared_output s)" by (simp add: session_good_def)
    then obtain p' where p': "pending_send (shared_output s) = (Inr (), p')" "pending_open p'"
      by (rule pending_send_open)
    show ?thesis
    proof (cases "queue s")
      case Nil
      with True good p' show ?thesis
        by (simp add: channel_read_def on_success_def session_good_def session_pending_def)
    next
      case (Cons m ms)
      with good obtain bs where m: "m = Inr bs" "bs \<noteq> []" "ok_messages ms"
        by (auto simp add: session_good_def split: sum.splits)
      let ?t = "s\<lparr>shared_output := p', queue := ms, chunk := bs, position_in := 0\<rparr>"
      have "\<exists>bs s'. on_success (channel_copy ?t n) = Inr (bs, s') \<and> session_good s' \<and> length bs \<le> n \<and>
          session_pending ?t = bs @ session_pending s' \<and> bs \<noteq> []"
        by (intro channel_copy_good) (use m n p' in auto)
      moreover have "channel_read s n = channel_copy ?t n"
        using True Cons m p' by (simp add: channel_read_def)
      moreover have "session_pending ?t = session_pending s"
        using True Cons m by (simp add: session_pending_def)
      ultimately show ?thesis by (simp only:) blast
    qed
  qed
qed

interpretation counted_in: byte_source
  "counted_read (\<lambda>s n. on_success (channel_read s n))"
  "\<lambda>c. session_pending (inner c)" "\<lambda>c. session_good (inner c)"
proof
  fix c :: "session counted" and n :: nat
  assume "session_good (inner c)" and "0 < n"
  from channel_in.read_good [OF this] show "\<exists>bs r'.
      counted_read (\<lambda>s n. on_success (channel_read s n)) c n = Inr (bs, r') \<and>
      session_good (inner r') \<and> length bs \<le> n \<and>
      session_pending (inner c) = bs @ session_pending (inner r') \<and>
      (bs = [] \<longrightarrow> session_pending (inner c) = [])"
    by (auto simp add: counted_read_def)
qed

section \<open>The output end\<close>

definition delivered :: "pending_output \<Rightarrow> bytes" where
  "delivered p = concat (sent p) @ pending_bytes p"

interpretation channel_out: byte_sink "\<lambda>p bs. on_success (channel_write p bs)" delivered pending_open
proof
  fix p :: pending_output and bs :: bytes
  assume p: "pending_open p" and bs: "bs \<noteq> []"
  let ?k = "min (CHUNK_BYTES - length (pending_bytes p)) (length bs)"
  let ?q = "p\<lparr>pending_bytes := pending_bytes p @ take ?k bs\<rparr>"
  have k: "0 < ?k" "?k \<le> length bs" using p bs by (auto simp add: pending_open_def)
  show "\<exists>n p'. on_success (channel_write p bs) = Inr (n, p') \<and> pending_open p' \<and> 0 < n \<and>
      n \<le> length bs \<and> delivered p' = delivered p @ take n bs"
  proof (cases "length (pending_bytes ?q) = CHUNK_BYTES")
    case True
    then have "pending_bytes ?q \<noteq> []" by auto
    with True p have "channel_write p bs =
        (Inr ?k, ?q\<lparr>pending_bytes := [], sent := sent p @ [pending_bytes ?q]\<rparr>)"
      by (simp add: channel_write_def pending_send_def pending_open_def Let_def)
    with k p \<open>pending_bytes ?q \<noteq> []\<close> show ?thesis
      by (simp add: on_success_def pending_open_def delivered_def)
  next
    case False
    with p have w: "channel_write p bs = (Inr ?k, ?q)"
      by (simp add: channel_write_def pending_open_def Let_def)
    have "length (pending_bytes ?q) \<le> CHUNK_BYTES"
      using p by (auto simp add: pending_open_def)
    with False p have "pending_open ?q" unfolding pending_open_def by auto
    with w k show ?thesis
      by (simp add: on_success_def delivered_def)
  qed
qed

section \<open>Sessions\<close>

text \<open>
  A run of a session: its reads, writes and flushes in any order, and the output pump going
  away at any moment. The log is what the writes accepted.
\<close>

inductive bridge_run :: "session \<Rightarrow> bytes \<Rightarrow> bool" where
  Start: "bridge_run \<lparr>queue = q, chunk = [], position_in = 0,
      shared_output = \<lparr>pending_bytes = [], sender = True, receiving = True, sent = []\<rparr>\<rparr> []"
| Read: "bridge_run s log \<Longrightarrow> channel_read s n = (result, s') \<Longrightarrow> bridge_run s' log"
| Write: "bridge_run s log \<Longrightarrow> channel_write (shared_output s) bytes = (Inr count, out) \<Longrightarrow>
    bridge_run (s\<lparr>shared_output := out\<rparr>) (log @ take count bytes)"
| Write_Err: "bridge_run s log \<Longrightarrow> channel_write (shared_output s) bytes = (Inl e, out) \<Longrightarrow>
    bridge_run (s\<lparr>shared_output := out\<rparr>) log"
| Flush: "bridge_run s log \<Longrightarrow> channel_flush (shared_output s) = (res, out) \<Longrightarrow>
    bridge_run (s\<lparr>shared_output := out\<rparr>) log"
| Gone: "bridge_run s log \<Longrightarrow>
    bridge_run (s\<lparr>shared_output := (shared_output s)\<lparr>receiving := False\<rparr>\<rparr>) log"

definition output_ok :: "pending_output \<Rightarrow> bytes \<Rightarrow> bool" where
  "output_ok p log \<longleftrightarrow>
     length (pending_bytes p) < CHUNK_BYTES \<and>
     (\<forall>c \<in> set (sent p). c \<noteq> [] \<and> length c \<le> CHUNK_BYTES) \<and>
     (if sender p then delivered p = log
      else pending_bytes p = [] \<and> (\<exists>lost. log = concat (sent p) @ lost))"

lemma pending_send_cases:
  assumes "pending_send p = (r, p')"
  obtains (empty) "pending_bytes p = []" "r = Inr ()" "p' = p"
  | (passed) "pending_bytes p \<noteq> []" "sender p" "receiving p" "r = Inr ()"
      "p' = p\<lparr>pending_bytes := [], sent := sent p @ [pending_bytes p]\<rparr>"
  | (failed) "pending_bytes p \<noteq> []" "\<not> (sender p \<and> receiving p)" "r = Inl BrokenPipe"
      "p' = p\<lparr>pending_bytes := [], sender := False\<rparr>"
proof -
  note d = assms [unfolded pending_send_def Let_def]
  show thesis
  proof (cases "pending_bytes p = []")
    case True
    with d show thesis by (intro empty) simp_all
  next
    case ne: False
    show thesis
    proof (cases "sender p \<and> receiving p")
      case True
      with d ne show thesis by (intro passed) simp_all
    next
      case False
      with d ne show thesis by (intro failed) (simp_all split: if_splits)
    qed
  qed
qed

lemma pending_send_ok:
  assumes "output_ok p log" and "pending_send p = (r, p')"
  shows "output_ok p' log" and "pending_bytes p' = []"
proof -
  from assms(2) have "output_ok p' log \<and> pending_bytes p' = []"
  proof (cases rule: pending_send_cases)
    case empty
    with assms(1) show ?thesis by simp
  next
    case passed
    with assms(1) show ?thesis by (simp add: output_ok_def delivered_def less_imp_le)
  next
    case failed
    with assms(1) show ?thesis by (auto simp add: output_ok_def delivered_def split: if_splits)
  qed
  then show "output_ok p' log" and "pending_bytes p' = []" by auto
qed

lemma pending_send_full:
  assumes "length (pending_bytes p) = CHUNK_BYTES" and "sender p" and "delivered p = log"
    and "\<forall>c \<in> set (sent p). c \<noteq> [] \<and> length c \<le> CHUNK_BYTES"
    and "pending_send p = (r, p')"
  shows "output_ok p' log"
  using assms(5)
proof (cases rule: pending_send_cases)
  case empty
  with assms(1) show ?thesis by (metis CHUNK_BYTES_pos(2) list.size(3))
next
  case passed
  with assms show ?thesis by (simp add: output_ok_def delivered_def)
next
  case failed
  with assms show ?thesis by (auto simp add: output_ok_def delivered_def)
qed

lemma channel_write_cases:
  assumes "channel_write p bs = (r, p')"
  defines "k \<equiv> min (CHUNK_BYTES - length (pending_bytes p)) (length bs)"
  defines "q \<equiv> p\<lparr>pending_bytes := pending_bytes p @ take k bs\<rparr>"
  obtains (closed) "\<not> sender p" "r = Inl BrokenPipe" "p' = p"
  | (part) "sender p" "length (pending_bytes q) \<noteq> CHUNK_BYTES" "r = Inr k" "p' = q"
  | (full) r' where "sender p" "length (pending_bytes q) = CHUNK_BYTES" "pending_send q = (r', p')"
      "r = (case r' of Inl e \<Rightarrow> Inl e | Inr _ \<Rightarrow> Inr k)"
proof -
  note d = assms(1) [unfolded channel_write_def Let_def, folded k_def, folded q_def]
  show thesis
  proof (cases "sender p")
    case False
    with d show thesis by (intro closed) simp_all
  next
    case open_: True
    show thesis
    proof (cases "length (pending_bytes q) = CHUNK_BYTES")
      case True
      obtain r' q' where "pending_send q = (r', q')" by fastforce
      with d open_ True show thesis
        by (intro full [of r']) (simp_all split: sum.splits)
    next
      case False
      with d open_ show thesis by (intro part) simp_all
    qed
  qed
qed

lemma channel_write_ok:
  assumes ok: "output_ok p log" and w: "channel_write p bs = (r, p')"
  shows "r = Inr k \<Longrightarrow> output_ok p' (log @ take k bs)"
    and "r = Inl e \<Longrightarrow> output_ok p' log"
proof -
  let ?k = "min (CHUNK_BYTES - length (pending_bytes p)) (length bs)"
  let ?q = "p\<lparr>pending_bytes := pending_bytes p @ take ?k bs\<rparr>"
  consider (closed) "\<not> sender p" "r = Inl BrokenPipe" "p' = p"
    | (part) "sender p" "length (pending_bytes ?q) \<noteq> CHUNK_BYTES" "r = Inr ?k" "p' = ?q"
    | (full) r' where "sender p" "length (pending_bytes ?q) = CHUNK_BYTES" "pending_send ?q = (r', p')"
        "r = (case r' of Inl e \<Rightarrow> Inl e | Inr _ \<Rightarrow> Inr ?k)"
    by (rule channel_write_cases [OF w])
  then have "(\<forall>k. r = Inr k \<longrightarrow> output_ok p' (log @ take k bs)) \<and>
      (\<forall>e. r = Inl e \<longrightarrow> output_ok p' log)"
  proof cases
    case closed
    with ok show ?thesis by simp
  next
    case part
    with ok show ?thesis by (auto simp add: output_ok_def delivered_def)
  next
    case full
    have "delivered ?q = log @ take ?k bs" "sender ?q"
      "\<forall>c \<in> set (sent ?q). c \<noteq> [] \<and> length c \<le> CHUNK_BYTES"
      using ok full(1) by (auto simp add: output_ok_def delivered_def)
    with full have "output_ok p' (log @ take ?k bs)" by (intro pending_send_full) auto
    moreover have "output_ok p' log" if "r = Inl e" for e
    proof -
      from full(3) have "p' = ?q\<lparr>pending_bytes := [], sender := False\<rparr>"
        by (cases rule: pending_send_cases) (use full(4) that in auto)
      with ok full(1) show ?thesis by (auto simp add: output_ok_def delivered_def)
    qed
    ultimately show ?thesis using full(4) by (auto split: sum.splits)
  qed
  then show "r = Inr k \<Longrightarrow> output_ok p' (log @ take k bs)" and "r = Inl e \<Longrightarrow> output_ok p' log"
    by auto
qed

lemma channel_copy_output [simp]: "shared_output (snd (channel_copy s n)) = shared_output s"
  by (simp add: channel_copy_def Let_def)

lemma channel_read_output:
  assumes "channel_read s n = (r, s')"
  shows "shared_output s' =
    (if position_in s = length (chunk s) then snd (pending_send (shared_output s))
     else shared_output s)"
proof (cases "position_in s = length (chunk s)")
  case False
  with assms channel_copy_output [of s n] show ?thesis by (simp add: channel_read_def)
next
  case True
  obtain r0 out where ps: "pending_send (shared_output s) = (r0, out)" by fastforce
  have "shared_output (snd (channel_read s n)) = out"
  proof (cases r0)
    case Inl
    with True ps show ?thesis by (simp add: channel_read_def)
  next
    case (Inr x)
    show ?thesis
    proof (cases "queue s")
      case Nil
      with True ps Inr show ?thesis by (simp add: channel_read_def)
    next
      case (Cons m ms)
      with True ps Inr show ?thesis by (cases m) (simp_all add: channel_read_def)
    qed
  qed
  with assms True ps show ?thesis by simp
qed

text \<open>
  C13: In every reachable state of a session, whatever the order of its reads, writes and
  flushes and whenever the output pump goes away: the pending buffer is shorter than a chunk
  (so the writer's subtraction cannot underflow), every chunk passed on is non-empty and at most
  64 KiB, while the sender is open no accepted byte is lost, duplicated or reordered, and after
  it closed what was passed on is still a prefix of what the writes accepted.
\<close>

theorem bridge_output_invariant:
  assumes "bridge_run s log"
  shows "length (pending_bytes (shared_output s)) < CHUNK_BYTES \<and>
    (\<forall>c \<in> set (sent (shared_output s)). c \<noteq> [] \<and> length c \<le> CHUNK_BYTES) \<and>
    (sender (shared_output s) \<longrightarrow>
       concat (sent (shared_output s)) @ pending_bytes (shared_output s) = log) \<and>
    (\<exists>lost. log = concat (sent (shared_output s)) @ lost)"
proof -
  have "output_ok (shared_output s) log"
    using assms
  proof (induction rule: bridge_run.induct)
    case (Start q)
    then show ?case by (simp add: output_ok_def delivered_def)
  next
    case (Read s log n result s')
    obtain r out where ps: "pending_send (shared_output s) = (r, out)" by fastforce
    with pending_send_ok(1) [OF Read.IH ps] Read.IH show ?case
      unfolding channel_read_output [OF Read.hyps(2)] by simp
  next
    case (Write s log bytes count out)
    show ?case using channel_write_ok(1) [OF Write.IH Write.hyps(2) refl] by simp
  next
    case (Write_Err s log bytes e out)
    show ?case using channel_write_ok(2) [OF Write_Err.IH Write_Err.hyps(2) refl] by simp
  next
    case (Flush s log res out)
    show ?case
      using pending_send_ok(1) [OF Flush.IH Flush.hyps(2) [unfolded channel_flush_def]] by simp
  next
    case (Gone s log)
    then show ?case
      by (cases "sender (shared_output s)") (auto simp add: output_ok_def delivered_def)
  qed
  then show ?thesis
    by (cases "sender (shared_output s)") (auto simp add: output_ok_def delivered_def)
qed

theorem bridge_output_invariant_witness:
  "\<exists>lost. [104, 105] = concat (sent \<lparr>pending_bytes = [104, 105], sender = True, receiving = True,
     sent = []\<rparr>) @ lost"
proof -
  let ?p = "\<lparr>pending_bytes = [], sender = True, receiving = True, sent = []\<rparr>"
  let ?s = "\<lparr>queue = [], chunk = [], position_in = 0, shared_output = ?p\<rparr>"
  have "channel_write (shared_output ?s) [104, 105] =
      (Inr 2, \<lparr>pending_bytes = [104, 105], sender = True, receiving = True, sent = []\<rparr>)"
    by (simp add: channel_write_def CHUNK_BYTES_def)
  from bridge_output_invariant [OF bridge_run.Write [OF bridge_run.Start this]] show ?thesis
    by simp
qed





end
