(* ===== verification/Object_Read.thy ===== *)
theory Object_Read
  imports Prelude
begin

text \<open>
  The errors of reading packed storage (\<^verbatim>\<open>ObjectReadError\<close> of \<^verbatim>\<open>src/objects.rs\<close>), as far as
  the modelled readers raise them. \<open>IndexPanic\<close> is no error of the code: it stands for a slice
  out of range, which panics in Rust, so that the absence of panics can be stated.
\<close>

datatype object_read_error =
    IndexVersion nat
  | Corrupt string
  | ReadLimit string
  | IndexPanic

end
