(* ===== verification/Delta.thy ===== *)
theory Delta
  imports Encodings Object_Read
begin

text \<open>
  \<^verbatim>\<open>src/pack/delta.rs\<close> (the delta decoder that reads untrusted packs) and the delta encoder of
  \<^verbatim>\<open>src/pack/compression.rs\<close>. The decoder works on a cursor: every reader returns the value
  and the rest of the program. The encoder threads its work budget and the state of the caller's
  cancellation check; both are part of the result. The decode budget after an error is not
  modelled, because an error ends the read.
\<close>

unbundle bit_operations_syntax

section \<open>The decoder\<close>

definition delta_byte :: "bytes \<Rightarrow> object_read_error + byte \<times> bytes" where
  "delta_byte input =
     (case input of
        [] \<Rightarrow> Inl (Corrupt ''truncated delta or entry'')
      | value # tail \<Rightarrow> Inr (value, tail))"

function delta_size ::
  "bytes \<Rightarrow> nat \<Rightarrow> nat \<Rightarrow> bool \<Rightarrow> object_read_error + nat \<times> bytes" where
  "delta_size input value shift more =
     (if \<not> more then Inr (value, input)
      else
        and_then (delta_byte input) (\<lambda>(next, input).
        let part = unat (next AND 0x7f) in
        if 64 \<le> shift \<or> drop_bit shift usize_max < part then Inl (Corrupt ''size overflow'')
        else delta_size input (value OR push_bit shift part) (shift + 7) (next AND 0x80 \<noteq> 0)))"
  by pat_completeness auto
termination
  by (relation "measure (\<lambda>(input, value, shift, more). length input)")
     (auto simp add: delta_byte_def split: list.splits)

declare delta_size.simps [simp del]

text \<open>\<^verbatim>\<open>charge\<close> of \<^verbatim>\<open>delta.rs\<close>: the budget shared by the decodes of one read.\<close>

definition delta_charge :: "nat \<Rightarrow> nat \<Rightarrow> object_read_error + nat" where
  "delta_charge remaining sz =
     ok_or (ReadLimit ''cumulative decode bytes'') (checked_sub remaining sz)"

text \<open>
  The two \<^verbatim>\<open>for bit\<close> loops of a copy instruction: a flag bit says whether the operand's
  byte is present.
\<close>

fun read_operand ::
  "byte \<Rightarrow> byte \<Rightarrow> nat list \<Rightarrow> bytes \<Rightarrow> nat \<Rightarrow> object_read_error + nat \<times> bytes" where
  "read_operand instruction flag [] program acc = Inr (acc, program)"
| "read_operand instruction flag (i # bits) program acc =
     (if instruction AND push_bit i flag \<noteq> 0 then
        and_then (delta_byte program) (\<lambda>(b, program).
        read_operand instruction flag bits program (acc OR push_bit (i * 8) (unat b)))
      else read_operand instruction flag bits program acc)"

definition delta_source ::
  "bytes \<Rightarrow> byte \<Rightarrow> bytes \<Rightarrow> object_read_error + bytes \<times> bytes" where
  "delta_source base instruction program =
     (if instruction AND 0x80 = 0 then
        if instruction = 0 then Inl (Corrupt ''reserved delta instruction'')
        else
          (case split_at_checked program (unat instruction) of
             None \<Rightarrow> Inl (Corrupt ''truncated delta insertion'')
           | Some (data, rest) \<Rightarrow> Inr (data, rest))
      else
        and_then (read_operand instruction 1 [0..<4] program 0) (\<lambda>(offset, program).
        and_then (read_operand instruction 0x10 [0..<3] program 0) (\<lambda>(length0, program).
        let len = (if length0 = 0 then 65536 else length0) in
        (case checked_add offset len of
           None \<Rightarrow> Inl (Corrupt ''delta copy overflow'')
         | Some stop \<Rightarrow>
             (case get_range base offset stop of
                None \<Rightarrow> Inl (Corrupt ''delta copy outside base'')
              | Some copied \<Rightarrow> Inr (copied, program))))))"

lemma read_operand_rest:
  "read_operand instr flag bits program acc = Inr (v, rest) \<Longrightarrow> length rest \<le> length program"
  by (induction instr flag bits program acc rule: read_operand.induct)
     (fastforce simp add: delta_byte_def and_then_Inr_iff split: if_splits list.splits)+

lemma delta_source_rest:
  "delta_source base instr program = Inr (data, rest) \<Longrightarrow> length rest \<le> length program"
  by (auto simp add: delta_source_def and_then_Inr_iff Let_def split_at_checked_Some_iff
      split: if_splits option.splits dest!: read_operand_rest)

function apply_loop ::
  "bytes \<Rightarrow> nat \<Rightarrow> bytes \<Rightarrow> bytes \<Rightarrow> object_read_error + bytes" where
  "apply_loop base result_size program result =
     (if program = [] then Inr result
      else
        and_then (delta_byte program) (\<lambda>(instruction, program).
        and_then (delta_source base instruction program) (\<lambda>(source, program).
        if result_size - length result < length source
        then Inl (Corrupt ''delta exceeds result size'')
        else apply_loop base result_size program (result @ source))))"
  by pat_completeness auto
termination
  by (relation "measure (\<lambda>(base, result_size, program, result). length program)")
     (auto simp add: delta_byte_def dest!: delta_source_rest split: list.splits)

declare apply_loop.simps [simp del]

definition delta_apply ::
  "bytes \<Rightarrow> bytes \<Rightarrow> nat \<Rightarrow> nat \<Rightarrow> object_read_error + bytes \<times> nat" where
  "delta_apply base program max_size remaining =
     and_then (delta_size program 0 0 True) (\<lambda>(base_size, program).
     if base_size \<noteq> length base then Inl (Corrupt ''delta base size'')
     else
       and_then (delta_size program 0 0 True) (\<lambda>(result_size, program).
       if max_size < result_size then Inl (ReadLimit ''object bytes'')
       else
         and_then (delta_charge remaining result_size) (\<lambda>remaining.
         and_then (apply_loop base result_size program []) (\<lambda>result.
         if length result \<noteq> result_size then Inl (Corrupt ''delta result size'')
         else Inr (result, remaining)))))"

section \<open>The encoder\<close>

definition charge_work ::
  "('s \<Rightarrow> 'e + 's) \<Rightarrow> nat \<times> 's \<Rightarrow> 'e + bool \<times> nat \<times> 's" where
  "charge_work check st =
     (case st of (remaining, s) \<Rightarrow>
        if remaining = 0 then Inr (False, remaining, s)
        else
          let remaining = remaining - 1 in
          if 4096 dvd remaining then and_then (check s) (\<lambda>s. Inr (True, remaining, s))
          else Inr (True, remaining, s))"

definition slot :: "bytes \<Rightarrow> nat" where
  "slot bytes =
     unat (drop_bit 52 ((word_of_nat (le_nat (take 8 bytes)) :: 64 word) * 0x9e3779b97f4a7c15))"

function encode_size :: "bytes \<Rightarrow> nat \<Rightarrow> bytes" where
  "encode_size out value =
     (if 128 \<le> value
      then encode_size (out @ [(of_nat value AND 127) OR 128]) (drop_bit 7 value)
      else out @ [of_nat value])"
  by pat_completeness auto
termination
  by (relation "measure (\<lambda>(out, value). value)") (auto simp add: drop_bit_eq_div)

declare encode_size.simps [simp del]

definition encode_insert :: "bytes \<Rightarrow> bytes \<Rightarrow> bytes" where
  "encode_insert out bytes =
     foldl (\<lambda>out chunk. out @ of_nat (length chunk) # chunk) out (chunks 127 bytes)"

text \<open>The loops of \<^verbatim>\<open>copy\<close> that set a flag and push a byte for every non-zero operand byte.\<close>

fun encode_operand :: "byte \<Rightarrow> (nat \<times> byte) list \<Rightarrow> byte \<times> bytes \<Rightarrow> byte \<times> bytes" where
  "encode_operand flag [] instr = instr"
| "encode_operand flag ((i, b) # parts) (head, tail) =
     encode_operand flag parts
       (if b \<noteq> 0 then (head OR push_bit i flag, tail @ [b]) else (head, tail))"

definition encode_copy_one :: "32 word \<Rightarrow> nat \<Rightarrow> bytes" where
  "encode_copy_one offset count =
     (let encoded_size = (if count = 65536 then 0 else count) in
      case encode_operand 0x10
             (map (\<lambda>i. (i, of_nat (drop_bit (i * 8) encoded_size))) [0..<3])
             (encode_operand 1 (zip [0..<4] (le_bytes 4 (unat offset))) (0x80, [])) of
        (head, tail) \<Rightarrow> head # tail)"

function encode_copy :: "bytes \<Rightarrow> 32 word \<Rightarrow> nat \<Rightarrow> bytes" where
  "encode_copy out offset len =
     (if len = 0 then out
      else
        let count = min len 0xffffff;
            out = out @ encode_copy_one offset count;
            len = len - count
        in encode_copy out (if len \<noteq> 0 then offset + of_nat count else offset) len)"
  by pat_completeness auto
termination
  by (relation "measure (\<lambda>(out, offset, len). len)") auto

declare encode_copy.simps [simp del]

text \<open>
  The anchor table is an array of 4096 entries that start as \<^verbatim>\<open>usize::MAX\<close>; every index is
  a result of \<open>slot\<close>. The first loop visits the offsets below the given bound in steps of 16.
\<close>

function anchor_loop ::
  "('s \<Rightarrow> 'e + 's) \<Rightarrow> bytes \<Rightarrow> nat \<Rightarrow> (nat \<Rightarrow> nat) \<Rightarrow> nat \<times> 's \<Rightarrow>
     'e + (nat \<Rightarrow> nat) option \<times> nat \<times> 's" where
  "anchor_loop check base offset anchors st =
     (if length base - 7 \<le> offset then Inr (Some anchors, st)
      else
        and_then (charge_work check st) (\<lambda>(charged, st).
        if \<not> charged then Inr (None, st)
        else
          let k = slot (drop offset base) in
          anchor_loop check base (offset + 16)
            (if anchors k = usize_max then anchors(k := offset) else anchors) st))"
  by pat_completeness auto
termination
  by (relation "measure (\<lambda>(check, base, offset, anchors, st). length base - offset)") auto

declare anchor_loop.simps [simp del]

function match_loop ::
  "('s \<Rightarrow> 'e + 's) \<Rightarrow> bytes \<Rightarrow> bytes \<Rightarrow> nat \<Rightarrow> nat \<Rightarrow> nat \<Rightarrow> nat \<times> 's \<Rightarrow>
     'e + nat option \<times> nat \<times> 's" where
  "match_loop check base target offset pos len st =
     (if len < length base - offset \<and> len < length target - pos then
        and_then (charge_work check st) (\<lambda>(charged, st).
        if \<not> charged then Inr (None, st)
        else if base ! (offset + len) \<noteq> target ! (pos + len) then Inr (Some len, st)
        else match_loop check base target offset pos (len + 1) st)
      else Inr (Some len, st))"
  by pat_completeness auto
termination
  by (relation "measure (\<lambda>(check, base, target, offset, pos, len, st). length base - offset - len)")
     auto

declare match_loop.simps [simp del]

function encode_loop ::
  "('s \<Rightarrow> 'e + 's) \<Rightarrow> bytes \<Rightarrow> bytes \<Rightarrow> (nat \<Rightarrow> nat) \<Rightarrow> bytes \<Rightarrow> nat \<Rightarrow> nat \<Rightarrow> nat \<times> 's \<Rightarrow>
     'e + bytes option \<times> nat \<times> 's" where
  "encode_loop check base target anchors out pos literal st =
     (if 8 \<le> length target - pos then
        and_then (charge_work check st) (\<lambda>(charged, st).
        if \<not> charged then Inr (None, st)
        else
          let offset = anchors (slot (drop pos target)) in
          and_then
            (if offset \<noteq> usize_max then match_loop check base target offset pos 0 st
             else Inr (Some 0, st)) (\<lambda>(matched, st).
          case matched of
            None \<Rightarrow> Inr (None, st)
          | Some len \<Rightarrow>
              if 8 \<le> len then
                encode_loop check base target anchors
                  (encode_copy
                    (encode_insert out (take (pos - literal) (drop literal target)))
                    (of_nat offset) len)
                  (pos + len) (pos + len) st
              else encode_loop check base target anchors out (pos + 1) literal st))
      else Inr (Some (encode_insert out (drop literal target)), st))"
  by pat_completeness auto
termination
  by (relation "measure (\<lambda>(check, base, target, anchors, out, pos, literal, st).
       length target - pos)") auto

declare encode_loop.simps [simp del]

definition instructions_with ::
  "bytes \<Rightarrow> bytes \<Rightarrow> nat \<Rightarrow> ('s \<Rightarrow> 'e + 's) \<Rightarrow> 's \<Rightarrow> 'e + bytes option \<times> nat \<times> 's" where
  "instructions_with base target remaining check s =
     and_then (anchor_loop check base 0 (\<lambda>_. usize_max) (remaining, s)) (\<lambda>(anchors, st).
     case anchors of
       None \<Rightarrow> Inr (None, st)
     | Some anchors \<Rightarrow>
         encode_loop check base target anchors
           (encode_size (encode_size [] (length base)) (length target)) 0 0 st)"

section \<open>Sizes\<close>

lemma byte_test_bit: "(b :: byte) AND push_bit i 1 \<noteq> 0 \<longleftrightarrow> bit b i"
  by (simp add: push_bit_eq_mult and_exp_eq_0_iff_not_bit)

lemma byte_high_bit: "(b :: byte) AND 0x80 = 0 \<longleftrightarrow> \<not> bit b 7"
  using byte_test_bit [of b 7] by simp blast

lemma unat_and_127: "unat ((b :: byte) AND 0x7f) = unat b mod 128"
  using unat_and_mask [of b 7] by (simp add: mask_eq_exp_minus_1)

lemma byte_bit_iff: "bit (b :: byte) n \<longleftrightarrow> bit (unat b) n"
  by (simp add: bit_unsigned_iff)

lemma byte_below_128: "bit (b :: byte) 7 \<longleftrightarrow> 128 \<le> unat b"
proof (cases "unat b < 128")
  case True
  then show ?thesis by (simp add: byte_bit_iff bit_iff_odd)
next
  case False
  then have "unat b div 128 = 1" using unsigned_less [of b] by (intro div_nat_eqI) auto
  with False show ?thesis by (simp add: byte_bit_iff bit_iff_odd)
qed

lemma continuation_byte:
  "unat (((of_nat v AND 127) OR 128 :: byte) AND 0x7f) = v mod 128"
  "((of_nat v AND 127) OR 128 :: byte) AND 0x80 \<noteq> 0"
proof -
  have "((of_nat v AND 127) OR 128 :: byte) AND 0x7f = of_nat v AND 0x7f"
    by (simp add: bit.conj_disj_distrib2 and.assoc)
  then show "unat (((of_nat v AND 127) OR 128 :: byte) AND 0x7f) = v mod 128"
    by (simp add: unat_and_127 mod_mod_cancel)
  show "((of_nat v AND 127) OR 128 :: byte) AND 0x80 \<noteq> 0"
    by (simp add: byte_high_bit bit_or_iff bit_iff_odd)
qed

lemma encode_size_append: "encode_size out v = out @ encode_size [] v"
proof (induction v arbitrary: out rule: less_induct)
  case (less v)
  show ?case
  proof (cases "128 \<le> v")
    case True
    then have "drop_bit 7 v < v" by (simp add: drop_bit_eq_div)
    note IH = less.IH [OF this]
    show ?thesis
      using True IH [of "out @ [(of_nat v AND 127) OR 128]"] IH [of "[(of_nat v AND 127) OR 128]"]
      by (simp add: encode_size.simps [of out v] encode_size.simps [of "[]" v])
  next
    case False
    then show ?thesis by (simp add: encode_size.simps [of out v] encode_size.simps [of "[]" v])
  qed
qed

lemma encode_size_step:
  "128 \<le> v \<Longrightarrow> encode_size [] v = ((of_nat v AND 127) OR 128) # encode_size [] (v div 128)"
  using encode_size_append [of "[(of_nat v AND 127) OR 128]" "v div 128"]
  by (simp add: encode_size.simps [of "[]" v] drop_bit_eq_div)

lemma size_shift_bound:
  assumes "v \<le> usize_max div 2 ^ shift" and "128 \<le> v" and "shift < 64"
  shows "v div 128 \<le> usize_max div 2 ^ (shift + 7)" and "shift + 7 < 64"
proof -
  from div_le_mono [OF assms(1), of 128] show le: "v div 128 \<le> usize_max div 2 ^ (shift + 7)"
    by (simp add: div_mult2_eq power_add)
  have "0 < v div 128" using assms(2) by simp
  with le have "0 < usize_max div 2 ^ (shift + 7)" by linarith
  then have "2 ^ (shift + 7) \<le> usize_max" by (simp add: div_greater_zero_iff)
  also have "usize_max < 2 ^ 64" by (simp add: usize_max_def)
  finally show "shift + 7 < 64" by (rule power_less_imp_less_exp [rotated]) simp
qed

lemma size_accumulate:
  assumes "acc < (2 :: nat) ^ shift"
  shows "acc OR push_bit shift (v mod 128) = 2 ^ shift * (v mod 128) + acc"
    and "2 ^ shift * (v mod 128) + acc < 2 ^ (shift + 7)"
    and "2 ^ (shift + 7) * (v div 128) + (2 ^ shift * (v mod 128) + acc) = 2 ^ shift * v + acc"
proof -
  show "acc OR push_bit shift (v mod 128) = 2 ^ shift * (v mod 128) + acc"
    using assms by (rule or_push_bit_nat)
  have "v mod 128 \<le> 127" by simp
  then have "2 ^ shift * (v mod 128) \<le> 2 ^ shift * 127" by (rule mult_le_mono2)
  with assms have "2 ^ shift * (v mod 128) + acc < 2 ^ shift * 127 + 2 ^ shift" by linarith
  then show "2 ^ shift * (v mod 128) + acc < 2 ^ (shift + 7)"
    by (simp add: power_add)
  have "2 ^ (shift + 7) * (v div 128) + 2 ^ shift * (v mod 128)
      = 2 ^ shift * (128 * (v div 128) + v mod 128)"
    by (simp only: power_add distrib_left mult.assoc) simp
  then show "2 ^ (shift + 7) * (v div 128) + (2 ^ shift * (v mod 128) + acc) = 2 ^ shift * v + acc"
    by simp
qed

lemma delta_size_encode_size:
  assumes "v \<le> usize_max div 2 ^ shift" and "shift < 64" and "acc < 2 ^ shift"
  shows "delta_size (encode_size [] v @ rest) acc shift True = Inr (2 ^ shift * v + acc, rest)"
  using assms
proof (induction v arbitrary: acc shift rule: less_induct)
  case (less v)
  have part: "\<not> drop_bit shift usize_max < v mod 128"
    using less.prems(1) by (simp add: drop_bit_eq_div not_less)
  show ?case
  proof (cases "128 \<le> v")
    case False
    then have b: "unat (of_nat v AND 0x7f :: byte) = v" "(of_nat v :: byte) AND 0x80 = 0"
      by (simp_all add: unat_and_127 byte_high_bit byte_below_128)
    have e: "encode_size [] v = [of_nat v]" using False by (simp add: encode_size.simps)
    show ?thesis
      using part less.prems(2) False size_accumulate(1) [OF less.prems(3), of v]
      by (simp add: e delta_size.simps [of "of_nat v # rest"] delta_size.simps [of rest]
          delta_byte_def b Let_def)
  next
    case True
    have "delta_size (encode_size [] (v div 128) @ rest) (2 ^ shift * (v mod 128) + acc) (shift + 7) True
        = Inr (2 ^ (shift + 7) * (v div 128) + (2 ^ shift * (v mod 128) + acc), rest)"
      using size_shift_bound [OF less.prems(1) True less.prems(2)] size_accumulate(2) [OF less.prems(3)]
        True by (intro less.IH) auto
    then have "delta_size (encode_size [] (v div 128) @ rest) (acc OR push_bit shift (v mod 128))
        (shift + 7) True = Inr (2 ^ shift * v + acc, rest)"
      by (simp only: size_accumulate [OF less.prems(3)])
    with True part less.prems(2) show ?thesis
      by (simp add: encode_size_step delta_size.simps [of "((of_nat v AND 127) OR 128) # _"]
          delta_byte_def continuation_byte Let_def del: drop_bit_or)
  qed
qed

lemma delta_size_round_trip:
  "v \<le> usize_max \<Longrightarrow> delta_size (encode_size [] v @ rest) 0 0 True = Inr (v, rest)"
  using delta_size_encode_size [of v 0 0 rest] by simp

section \<open>Instructions\<close>

abbreviation present :: "(nat \<times> byte) list \<Rightarrow> bytes" where
  "present parts \<equiv> map snd (filter (\<lambda>p. snd p \<noteq> 0) parts)"

lemma encode_operand_snd [simp]:
  "snd (encode_operand flag parts instr) = snd instr @ present parts"
  by (induction flag parts instr rule: encode_operand.induct) auto

lemma bit_flag: "bit (push_bit i (2 ^ k) :: byte) n \<longleftrightarrow> n < 8 \<and> n = k + i"
  by (auto simp add: bit_push_bit_iff bit_exp_iff)

lemma encode_operand_bit:
  "bit (fst (encode_operand (2 ^ k) parts instr)) n \<longleftrightarrow>
     bit (fst instr) n \<or> n < 8 \<and> (\<exists>i b. (i, b) \<in> set parts \<and> b \<noteq> 0 \<and> n = k + i)"
proof (induction "2 ^ k :: byte" parts instr rule: encode_operand.induct)
  case (1 instr)
  then show ?case by simp
next
  case (2 i b parts head tail)
  then show ?case by (auto simp add: bit_or_iff bit_flag)
qed

lemma read_operand_present:
  assumes "\<And>i b. (i, b) \<in> set parts \<Longrightarrow> instr AND push_bit i flag \<noteq> 0 \<longleftrightarrow> b \<noteq> 0"
  shows "read_operand instr flag (map fst parts) (present parts @ rest) acc
    = Inr (foldl (\<lambda>acc (i, b). acc OR push_bit (i * 8) (unat b)) acc parts, rest)"
  using assms
proof (induction parts arbitrary: acc)
  case Nil
  then show ?case by simp
next
  case (Cons p parts)
  obtain i b where p: "p = (i, b)" by fastforce
  have "instr AND push_bit i flag \<noteq> 0 \<longleftrightarrow> b \<noteq> 0" using Cons.prems p by simp
  with Cons p show ?case by (cases "b = 0") (simp_all add: delta_byte_def)
qed

lemma operand_value:
  "acc < 256 ^ n \<Longrightarrow>
     foldl (\<lambda>acc (i, b). acc OR push_bit (i * 8) (unat b)) acc (zip [n..<n + length bs] bs)
       = 256 ^ n * le_nat bs + acc"
proof (induction bs arbitrary: n acc)
  case Nil
  then show ?case by simp
next
  case (Cons b bs)
  have p: "(2 :: nat) ^ (n * 8) = 256 ^ n" by (simp add: power_mult mult.commute [of n])
  have o: "acc OR push_bit (n * 8) (unat b) = 256 ^ n * unat b + acc"
    using or_push_bit_nat [of acc "n * 8" "unat b"] Cons.prems by (simp add: p)
  have "256 ^ n * unat b \<le> 256 ^ n * 255" using unat_byte_less [of b] by (intro mult_le_mono2) (simp del: unat_byte_less)
  with Cons.prems have "256 ^ n * unat b + acc < 256 ^ n * 255 + 256 ^ n" by linarith
  then have lt: "256 ^ n * unat b + acc < 256 ^ Suc n" by simp
  have "zip [n..<n + length (b # bs)] (b # bs) = (n, b) # zip [Suc n..<Suc n + length bs] bs"
    by (simp add: upt_conv_Cons del: upt_Suc)
  then show ?case using Cons.IH [OF lt] by (simp add: o algebra_simps)
qed

lemma size_parts:
  "map (\<lambda>i. (i, of_nat (drop_bit (i * 8) es))) [0..<3] = zip [0..<3] (le_bytes 3 es)"
proof -
  have u: "[0..<3] = [0, 1, 2]" by (simp add: upt_rec)
  have l: "le_bytes 3 es = [of_nat es, of_nat (es div 256), of_nat (es div 256 div 256)]"
    by (simp add: numeral_3_eq_3)
  show ?thesis unfolding u l by (simp add: drop_bit_eq_div div_mult2_eq [symmetric])
qed

lemma zip_upt_functional:
  "(i, b) \<in> set (zip [0..<n] bs) \<Longrightarrow> (i, b') \<in> set (zip [0..<n] bs) \<Longrightarrow> b = b'"
  by (auto simp add: in_set_zip)

lemma zip_upt_index: "(i, b) \<in> set (zip [0..<n] bs) \<Longrightarrow> i < n"
  using set_zip_leftD by fastforce

text \<open>
  The flag byte of a copy instruction: its high bit marks a copy, and the other bits say which
  operand bytes follow.
\<close>

lemma copy_flags:
  fixes parts_o parts_s :: "(nat \<times> byte) list" and os ss :: bytes
  defines "parts_o \<equiv> zip [0..<4] os" and "parts_s \<equiv> zip [0..<3] ss"
  defines "head \<equiv> fst (encode_operand 0x10 parts_s (encode_operand 1 parts_o (0x80, [])))"
  shows "bit head 7"
    and "(i, b) \<in> set parts_o \<Longrightarrow> head AND push_bit i 1 \<noteq> 0 \<longleftrightarrow> b \<noteq> 0"
    and "(i, b) \<in> set parts_s \<Longrightarrow> head AND push_bit i 0x10 \<noteq> 0 \<longleftrightarrow> b \<noteq> 0"
proof -
  have f: "(2 :: byte) ^ 0 = 1" "(2 :: byte) ^ 4 = 0x10" by simp_all
  have h: "bit (0x80 :: byte) n \<longleftrightarrow> n = 7" for n
    using bit_flag [of 0 7 n] by auto
  have bits: "bit head n \<longleftrightarrow> n = 7 \<or> n < 8 \<and> (\<exists>i b. (i, b) \<in> set parts_o \<and> b \<noteq> 0 \<and> n = i)
      \<or> n < 8 \<and> (\<exists>i b. (i, b) \<in> set parts_s \<and> b \<noteq> 0 \<and> n = 4 + i)" for n
    unfolding head_def encode_operand_bit [of 4, unfolded f] encode_operand_bit [of 0, unfolded f]
    by (simp only: fst_conv h add_0) blast
  show "bit head 7" by (simp add: bits)
  have o4: "j < 4" if "(j, c) \<in> set parts_o" for j c
    using that unfolding parts_o_def by (rule zip_upt_index)
  show "head AND push_bit i 1 \<noteq> 0 \<longleftrightarrow> b \<noteq> 0" if p: "(i, b) \<in> set parts_o"
  proof -
    have "bit head i \<longleftrightarrow> (\<exists>c. (i, c) \<in> set parts_o \<and> c \<noteq> 0)"
      using o4 [OF p] by (auto simp only: bits)
    also have "\<dots> \<longleftrightarrow> b \<noteq> 0"
      using p zip_upt_functional [of i b 4 os] unfolding parts_o_def by blast
    finally show ?thesis by (simp only: byte_test_bit)
  qed
  show "head AND push_bit i 0x10 \<noteq> 0 \<longleftrightarrow> b \<noteq> 0" if p: "(i, b) \<in> set parts_s"
  proof -
    have s: "push_bit i (0x10 :: byte) = push_bit (4 + i) 1"
      using push_bit_push_bit [of i 4 "1 :: byte"] by (simp add: add.commute)
    have i: "i < 3" using p unfolding parts_s_def by (rule zip_upt_index)
    have "bit head (4 + i) \<longleftrightarrow> (\<exists>c. (i, c) \<in> set parts_s \<and> c \<noteq> 0)"
      using i o4 [of "4 + i"] by (subst bits) auto
    also have "\<dots> \<longleftrightarrow> b \<noteq> 0"
      using p zip_upt_functional [of i b 3 ss] unfolding parts_s_def by blast
    finally show ?thesis by (simp only: s byte_test_bit)
  qed
qed

lemma operand_le_bytes:
  "foldl (\<lambda>acc (i, b). acc OR push_bit (i * 8) (unat b)) 0 (zip [0..<k] (le_bytes k v)) = v mod 256 ^ k"
  using operand_value [of 0 0 "le_bytes k v"] by simp

lemma delta_source_copy:
  assumes "0 < count" and "count \<le> 0xffffff"
    and "unat off + count \<le> length base" and "unat off + count \<le> usize_max"
  shows "\<exists>head tail. encode_copy_one off count = head # tail \<and>
    delta_source base head (tail @ rest) = Inr (take count (drop (unat off) base), rest)"
proof -
  define es where "es = (if count = 65536 then 0 else count)"
  let ?o = "zip [0..<4] (le_bytes 4 (unat off))" and ?s = "zip [0..<3] (le_bytes 3 es)"
  define instr where "instr = encode_operand 0x10 ?s (encode_operand 1 ?o (0x80, []))"
  have e: "encode_copy_one off count = fst instr # snd instr"
    unfolding encode_copy_one_def Let_def size_parts es_def [symmetric] instr_def
    by (simp add: split_beta)
  have t: "snd instr = present ?o @ present ?s" by (simp add: instr_def)
  note flags = copy_flags [where ss = "le_bytes 3 es" and os = "le_bytes 4 (unat off)", folded instr_def]
  have unat_off: "unat off < 2 ^ 32" using unsigned_less [of off] by simp
  have uo: "unat off mod 256 ^ 4 = unat off" by (rule mod_less) (rule unat_off [THEN order_less_le_trans], simp)
  have ue: "es mod 256 ^ 3 = es" using assms(2) by (simp add: es_def)
  have "map fst ?o = [0..<4]" "map fst ?s = [0..<3]" by simp_all
  then have r: "read_operand (fst instr) 1 [0..<4] (present ?o @ present ?s @ rest) 0
        = Inr (unat off, present ?s @ rest)"
      "read_operand (fst instr) 0x10 [0..<3] (present ?s @ rest) 0 = Inr (es, rest)"
    using read_operand_present [where parts = ?o and rest = "present ?s @ rest" and acc = 0, OF flags(2)]
      read_operand_present [where parts = ?s and rest = rest and acc = 0, OF flags(3)]
    by (simp_all only: operand_le_bytes uo ue)
  have len: "(if es = 0 then 65536 else es) = count"
    using assms(1) by (simp add: es_def)
  have "delta_source base (fst instr) (snd instr @ rest)
      = Inr (take count (drop (unat off) base), rest)"
    using flags(1) assms(3,4)
    by (simp only: delta_source_def byte_high_bit t append_assoc r and_then_simps prod.case Let_def
        len) (simp add: checked_add_def get_range_def)
  with e show ?thesis by blast
qed

lemma apply_loop_step:
  assumes "delta_source base instr (tail @ rest) = Inr (piece, rest)"
    and "length acc + length piece \<le> rs"
  shows "apply_loop base rs (instr # tail @ rest) acc = apply_loop base rs rest (acc @ piece)"
  using assms(2)
  by (simp add: apply_loop.simps [of base rs "instr # tail @ rest"] delta_byte_def assms(1)) linarith

lemma encode_copy_append: "encode_copy out off len = out @ encode_copy [] off len"
proof (induction len arbitrary: out off rule: less_induct)
  case (less len)
  show ?case
  proof (cases "len = 0")
    case True
    then show ?thesis by (simp add: encode_copy.simps)
  next
    case False
    then have "len - min len 0xffffff < len" by simp
    note IH = less.IH [OF this]
    show ?thesis
      using False IH [of "out @ encode_copy_one off (min len 0xffffff)"]
        IH [of "encode_copy_one off (min len 0xffffff)"]
      by (simp add: encode_copy.simps [of _ off len] Let_def)
  qed
qed

lemma apply_copy:
  assumes "unat off + len \<le> length base" and "length base \<le> 2 ^ 32"
    and "length acc + len \<le> rs"
  shows "apply_loop base rs (encode_copy [] off len @ rest) acc
    = apply_loop base rs rest (acc @ take len (drop (unat off) base))"
  using assms
proof (induction len arbitrary: off acc rule: less_induct)
  case (less len)
  show ?case
  proof (cases "len = 0")
    case True
    then show ?thesis by (simp add: encode_copy.simps)
  next
    case False
    define count where "count = min len 0xffffff"
    define off' where "off' = (if len - count \<noteq> 0 then off + of_nat count else off)"
    have c: "0 < count" "count \<le> 0xffffff" "count \<le> len" "len - count < len"
      using False by (auto simp add: count_def)
    have u: "unat off + count \<le> length base" "unat off + count \<le> usize_max"
      using c less.prems(1,2) by (auto simp add: usize_max_def)
    have "encode_copy [] off len = encode_copy (encode_copy_one off count) off' (len - count)"
      using False
      by (simp only: encode_copy.simps [of "[]" off len] Let_def count_def off'_def append_Nil if_False)
    then have e: "encode_copy [] off len = encode_copy_one off count @ encode_copy [] off' (len - count)"
      by (simp only: encode_copy_append [of "encode_copy_one off count"])
    obtain head tail where h: "encode_copy_one off count = head # tail"
        "delta_source base head (tail @ encode_copy [] off' (len - count) @ rest)
          = Inr (take count (drop (unat off) base), encode_copy [] off' (len - count) @ rest)"
      using delta_source_copy [OF c(1,2) u] by blast
    have o: "take (len - count) (drop (unat off') base) = take (len - count) (drop (unat off + count) base)"
    proof (cases "len - count = 0")
      case False
      then have "unat off + count < 2 ^ 32" using less.prems(1,2) c by linarith
      then have "unat (off + of_nat count) = unat off + count"
        by (simp add: unat_word_ariths unat_of_nat)
      with False show ?thesis by (simp add: off'_def)
    qed simp
    have p: "take len (drop (unat off) base)
        = take count (drop (unat off) base) @ take (len - count) (drop (unat off') base)"
      using take_add [of count "len - count" "drop (unat off) base"] c(3)
      by (simp add: o add.commute)
    have step: "apply_loop base rs (encode_copy [] off len @ rest) acc
        = apply_loop base rs (encode_copy [] off' (len - count) @ rest)
            (acc @ take count (drop (unat off) base))"
      using apply_loop_step [OF h(2), of acc rs] less.prems(3) c(3) u(1) by (simp add: e h(1))
    show ?thesis
    proof (cases "len - count = 0")
      case True
      then show ?thesis using step p by (simp add: encode_copy.simps)
    next
      case False
      then have "unat off' = unat off + count"
      proof -
        have "unat off + count < 2 ^ 32" using less.prems(1,2) c False by linarith
        with False show ?thesis by (simp add: off'_def unat_word_ariths unat_of_nat)
      qed
      then show ?thesis
        using less.IH [OF c(4), of off' "acc @ take count (drop (unat off) base)"] less.prems c u
        by (simp add: step p)
    qed
  qed
qed

lemma delta_source_insert:
  assumes "0 < length c" and "length c \<le> 127"
  shows "delta_source base (of_nat (length c)) (c @ rest) = Inr (c, rest)"
proof -
  have u: "unat (of_nat (length c) :: byte) = length c" using assms(2) by simp
  then have "\<not> bit (of_nat (length c) :: byte) 7" using assms(2) by (simp only: byte_below_128)
  moreover have "(of_nat (length c) :: byte) \<noteq> 0" using u assms(1) by (metis less_irrefl unat_0)
  ultimately show ?thesis
    unfolding delta_source_def byte_high_bit u by (simp add: split_at_checked_def)
qed

lemma encode_insert_append:
  "encode_insert out bs = out @ concat (map (\<lambda>c. of_nat (length c) # c) (chunks 127 bs))"
proof -
  have "foldl (\<lambda>out chunk. out @ of_nat (length chunk) # chunk) out cs
      = out @ concat (map (\<lambda>c. of_nat (length c) # c) cs)" for cs :: "bytes list"
    by (induction cs arbitrary: out) simp_all
  then show ?thesis by (simp add: encode_insert_def)
qed

lemma apply_chunks:
  assumes "\<forall>c \<in> set cs. 0 < length c \<and> length c \<le> 127"
    and "length acc + length (concat cs) \<le> rs"
  shows "apply_loop base rs (concat (map (\<lambda>c. of_nat (length c) # c) cs) @ rest) acc
    = apply_loop base rs rest (acc @ concat cs)"
  using assms
proof (induction cs arbitrary: acc)
  case (Cons c cs)
  have "delta_source base (of_nat (length c)) (c @ concat (map (\<lambda>c. of_nat (length c) # c) cs) @ rest)
      = Inr (c, concat (map (\<lambda>c. of_nat (length c) # c) cs) @ rest)"
    using Cons.prems(1) by (intro delta_source_insert) auto
  from apply_loop_step [OF this, of acc rs] Cons show ?case by simp
qed simp

lemma apply_insert:
  assumes "length acc + length bs \<le> rs"
  shows "apply_loop base rs (encode_insert [] bs @ rest) acc = apply_loop base rs rest (acc @ bs)"
  using apply_chunks [of "chunks 127 bs" acc rs base rest] assms chunks_lengths [of 127 _ bs]
  by (simp add: encode_insert_append concat_chunks)

section \<open>The encoder's loops\<close>

definition anchors_ok :: "bytes \<Rightarrow> (nat \<Rightarrow> nat) \<Rightarrow> bool" where
  "anchors_ok base anchors \<longleftrightarrow> (\<forall>k. anchors k = usize_max \<or> anchors k < length base)"

lemma slot_bound: "slot bs < 4096"
proof -
  let ?w = "(word_of_nat (le_nat (take 8 bs)) :: 64 word) * 0x9e3779b97f4a7c15"
  have "unat ?w < 2 ^ 64" using unsigned_less [of ?w] by simp
  then have "unat ?w div 2 ^ 52 < 4096" by (intro less_mult_imp_div_less) simp
  then show ?thesis unfolding slot_def unat_drop_bit_eq by (simp only: drop_bit_eq_div)
qed

lemma anchor_loop_ok:
  "anchor_loop check base offset anchors st = Inr (Some anchors', st') \<Longrightarrow>
     anchors_ok base anchors \<Longrightarrow> anchors_ok base anchors'"
proof (induction check base offset anchors st rule: anchor_loop.induct)
  case (1 check base offset anchors st)
  show ?case
  proof (cases "length base - 7 \<le> offset")
    case True
    with "1.prems" show ?thesis by (simp add: anchor_loop.simps [of check base offset])
  next
    case False
    let ?k = "slot (drop offset base)"
    let ?a = "if anchors ?k = usize_max then anchors(?k := offset) else anchors"
    from False "1.prems"(1) obtain st1 where
        c: "charge_work check st = Inr (True, st1)"
      and r: "anchor_loop check base (offset + 16) ?a st1 = Inr (Some anchors', st')"
      by (subst (asm) anchor_loop.simps) (auto simp add: and_then_Inr_iff Let_def split: if_splits)
    have "anchors_ok base ?a" using "1.prems"(2) False by (auto simp add: anchors_ok_def)
    with "1.IH" [OF False c, of True st1 ?k] r show ?thesis by simp
  qed
qed

lemma match_loop_ok:
  "match_loop check base target offset pos len st = Inr (Some len', st') \<Longrightarrow>
     offset + len \<le> length base \<Longrightarrow> pos + len \<le> length target \<Longrightarrow>
     take len (drop offset base) = take len (drop pos target) \<Longrightarrow>
     offset + len' \<le> length base \<and> pos + len' \<le> length target \<and>
     take len' (drop offset base) = take len' (drop pos target)"
proof (induction check base target offset pos len st rule: match_loop.induct)
  case (1 check base target offset pos len st)
  show ?case
  proof (cases "len < length base - offset \<and> len < length target - pos")
    case False
    with "1.prems" show ?thesis by (simp add: match_loop.simps [of check base target offset pos len])
  next
    case True
    from True "1.prems"(1) obtain st1 where c: "charge_work check st = Inr (True, st1)"
      and r: "if base ! (offset + len) \<noteq> target ! (pos + len) then len' = len
        else match_loop check base target offset pos (len + 1) st1 = Inr (Some len', st')"
      by (subst (asm) match_loop.simps) (auto simp add: and_then_Inr_iff split: if_splits)
    show ?thesis
    proof (cases "base ! (offset + len) = target ! (pos + len)")
      case False
      with r "1.prems" show ?thesis by simp
    next
      case eq: True
      have t: "take (len + 1) (drop offset base) = take (len + 1) (drop pos target)"
        using "1.prems" True eq by (simp add: take_Suc_conv_app_nth)
      show ?thesis
        by (rule "1.IH" [OF True c refl _ _ _ _ _ t]) (use eq r True in \<open>simp_all add: less_diff_conv\<close>)
    qed
  qed
qed

lemma apply_loop_Nil [simp]: "apply_loop base rs [] acc = Inr acc"
  by (simp add: apply_loop.simps)

lemma encode_loop_ok:
  assumes "length base \<le> 2 ^ 32" and "anchors_ok base anchors"
  shows "encode_loop check base target anchors out pos literal st = Inr (Some program, st') \<Longrightarrow>
     literal \<le> pos \<Longrightarrow> pos \<le> length target \<Longrightarrow>
     \<exists>suffix. program = out @ suffix \<and>
       (\<forall>rs acc. length acc + (length target - literal) \<le> rs \<longrightarrow>
          apply_loop base rs suffix acc = Inr (acc @ drop literal target))"
proof (induction "length target - pos" arbitrary: out pos literal st rule: less_induct)
  case less
  show ?case
  proof (cases "8 \<le> length target - pos")
    case False
    then have "program = out @ encode_insert [] (drop literal target)"
      using less.prems(1) by (simp add: encode_loop.simps [of check base] encode_insert_append)
    moreover have "apply_loop base rs (encode_insert [] (drop literal target)) acc
        = Inr (acc @ drop literal target)" if "length acc + (length target - literal) \<le> rs" for rs acc
      using apply_insert [of acc "drop literal target" rs base "[]"] that by simp
    ultimately show ?thesis by blast
  next
    case True
    define offset where "offset = anchors (slot (drop pos target))"
    from True less.prems(1) obtain st1 len st2 where
        m: "(if offset \<noteq> usize_max then match_loop check base target offset pos 0 st1
          else Inr (Some 0, st1)) = Inr (Some len, st2)"
      and r: "(if 8 \<le> len then encode_loop check base target anchors
          (encode_copy (encode_insert out (take (pos - literal) (drop literal target))) (of_nat offset) len)
          (pos + len) (pos + len) st2
        else encode_loop check base target anchors out (pos + 1) literal st2) = Inr (Some program, st')"
      unfolding encode_loop.simps [of check base target anchors out pos literal st] Let_def
        offset_def [symmetric]
      by (fastforce simp add: and_then_Inr_iff split: if_splits option.splits)
    show ?thesis
    proof (cases "8 \<le> len")
      case False
      with r less.hyps [of "pos + 1" out literal st2] less.prems True show ?thesis by simp
    next
      case long: True
      with m have m': "match_loop check base target offset pos 0 st1 = Inr (Some len, st2)"
        and "offset \<noteq> usize_max"
        by (auto split: if_splits)
      with assms(2) have lt: "offset < length base" by (auto simp add: anchors_ok_def offset_def)
      with assms(1) have off: "unat (of_nat offset :: 32 word) = offset" by (simp add: unat_of_nat)
      have ml: "offset + len \<le> length base" "pos + len \<le> length target"
          "take len (drop offset base) = take len (drop pos target)"
        using match_loop_ok [OF m'] lt less.prems(3) by simp_all
      let ?lit = "take (pos - literal) (drop literal target)"
      obtain suffix where sf: "program = encode_copy (encode_insert out ?lit) (of_nat offset) len @ suffix"
        and sa: "\<And>rs acc. length acc + (length target - (pos + len)) \<le> rs \<Longrightarrow>
          apply_loop base rs suffix acc = Inr (acc @ drop (pos + len) target)"
        using less.hyps [of "pos + len" _ "pos + len" st2] r ml long True by fastforce
      have d: "drop literal target = ?lit @ take len (drop pos target) @ drop (pos + len) target"
        using less.prems(2) append_take_drop_id [of "pos - literal" "drop literal target"]
          append_take_drop_id [of len "drop pos target"] by (simp add: add.commute)
      have "apply_loop base rs (encode_insert [] ?lit @ encode_copy [] (of_nat offset) len @ suffix) acc
          = Inr (acc @ drop literal target)" if "length acc + (length target - literal) \<le> rs" for rs acc
        using that less.prems(2,3) ml off
        by (subst apply_insert, simp, subst apply_copy [OF _ assms(1)], simp_all)
          (subst sa, simp, subst d, simp)
      moreover have "program = out @ encode_insert [] ?lit @ encode_copy [] (of_nat offset) len @ suffix"
        unfolding sf encode_copy_append [of "encode_insert out ?lit"]
        by (simp add: encode_insert_append)
      ultimately show ?thesis by blast
    qed
  qed
qed

section \<open>Work budget\<close>

lemma charge_work_some:
  assumes "\<forall>s. \<exists>s'. check s = Inr s'" and "0 < remaining"
  shows "\<exists>s'. charge_work check (remaining, s) = Inr (True, remaining - 1, s')"
  using assms(1) [rule_format, of s] assms(2) by (auto simp add: charge_work_def Let_def)

lemma anchor_loop_some:
  assumes "\<forall>s. \<exists>s'. check s = Inr s'"
  shows "length base - offset \<le> remaining \<Longrightarrow>
     \<exists>a r s'. anchor_loop check base offset anchors (remaining, s) = Inr (Some a, r, s') \<and>
       remaining \<le> r + (length base - offset)"
proof (induction "length base - offset" arbitrary: offset anchors remaining s rule: less_induct)
  case less
  show ?case
  proof (cases "length base - 7 \<le> offset")
    case True
    then show ?thesis by (simp add: anchor_loop.simps)
  next
    case False
    then have "0 < remaining" using less.prems by linarith
    from charge_work_some [OF assms this] obtain s1 where
        s1: "charge_work check (remaining, s) = Inr (True, remaining - 1, s1)"
      by blast
    let ?k = "slot (drop offset base)"
    let ?a = "if anchors ?k = usize_max then anchors(?k := offset) else anchors"
    have "length base - (offset + 16) < length base - offset"
      "length base - (offset + 16) \<le> remaining - 1"
      using False less.prems by auto
    from less.hyps [OF this, of ?a s1] obtain a r s' where
        "anchor_loop check base (offset + 16) ?a (remaining - 1, s1) = Inr (Some a, r, s')"
        "remaining - 1 \<le> r + (length base - (offset + 16))"
      by blast
    with False s1 less.prems show ?thesis
      by (auto simp add: anchor_loop.simps [of check base offset] Let_def)
  qed
qed

lemma match_loop_some:
  assumes "\<forall>s. \<exists>s'. check s = Inr s'"
  shows "length target - pos - len < remaining \<Longrightarrow>
     \<exists>l r s'. match_loop check base target offset pos len (remaining, s) = Inr (Some l, r, s') \<and>
       len \<le> l \<and> remaining \<le> r + (l - len) + 1"
proof (induction "length base - offset - len" arbitrary: len remaining s rule: less_induct)
  case less
  show ?case
  proof (cases "len < length base - offset \<and> len < length target - pos")
    case False
    then show ?thesis by (auto simp add: match_loop.simps [of check])
  next
    case True
    have "0 < remaining" using less.prems by linarith
    from charge_work_some [OF assms this] obtain s1 where
        s1: "charge_work check (remaining, s) = Inr (True, remaining - 1, s1)"
      by blast
    show ?thesis
    proof (cases "base ! (offset + len) = target ! (pos + len)")
      case False
      with True s1 show ?thesis by (auto simp add: match_loop.simps [of check])
    next
      case eq: True
      have "length base - offset - (len + 1) < length base - offset - len"
        "length target - pos - (len + 1) < remaining - 1"
        using True less.prems by auto
      from less.hyps [OF this, of s1] obtain l r s' where
          "match_loop check base target offset pos (len + 1) (remaining - 1, s1) = Inr (Some l, r, s')"
          "len + 1 \<le> l" "remaining - 1 \<le> r + (l - (len + 1)) + 1"
        by blast
      with True eq s1 show ?thesis
        by (intro exI [of _ l] exI [of _ r] exI [of _ s'])
           (simp add: match_loop.simps [of check base target offset pos len])
    qed
  qed
qed

lemma encode_loop_some:
  assumes "\<forall>s. \<exists>s'. check s = Inr s'"
  shows "9 * (length target - pos) \<le> remaining \<Longrightarrow>
     \<exists>program st. encode_loop check base target anchors out pos literal (remaining, s)
       = Inr (Some program, st)"
proof (induction "length target - pos" arbitrary: out pos literal remaining s rule: less_induct)
  case less
  show ?case
  proof (cases "8 \<le> length target - pos")
    case False
    then show ?thesis by (simp add: encode_loop.simps)
  next
    case True
    define offset where "offset = anchors (slot (drop pos target))"
    have "0 < remaining" using less.prems True by linarith
    from charge_work_some [OF assms this] obtain s1 where
        s1: "charge_work check (remaining, s) = Inr (True, remaining - 1, s1)"
      by blast
    obtain l r s2 where
        m: "(if offset \<noteq> usize_max then match_loop check base target offset pos 0 (remaining - 1, s1)
          else Inr (Some 0, remaining - 1, s1)) = Inr (Some l, r, s2)"
      and r: "remaining - 1 \<le> r + l + 1"
    proof (cases "offset = usize_max")
      case True
      then show thesis by (intro that [of 0 "remaining - 1" s1]) simp_all
    next
      case False
      have "length target - pos - 0 < remaining - 1" using less.prems True by linarith
      from match_loop_some [OF assms this, of base offset s1] False that show thesis by auto
    qed
    let ?o = "encode_copy (encode_insert out (take (pos - literal) (drop literal target))) (of_nat offset) l"
    have e: "encode_loop check base target anchors out pos literal (remaining, s) =
        (if 8 \<le> l then encode_loop check base target anchors ?o (pos + l) (pos + l) (r, s2)
         else encode_loop check base target anchors out (pos + 1) literal (r, s2))"
      unfolding encode_loop.simps [of check base target anchors out pos literal] Let_def
        offset_def [symmetric] s1 using True
      by (simp only: if_True if_False not_True_eq_False and_then_simps prod.case m option.case)
    show ?thesis
    proof (cases "8 \<le> l")
      case long: True
      then show ?thesis
        using less.hyps [of "pos + l" r ?o "pos + l" s2] r less.prems True by (simp add: e)
    next
      case False
      then show ?thesis
        using less.hyps [of "pos + 1" r out literal s2] r less.prems True by (simp add: e)
    qed
  qed
qed

section \<open>Properties\<close>

text \<open>
  C1: Encoding against a base and applying the result restores the target. Whatever the work
  budget and the caller's cancellation check do, a program that the encoder returns is accepted
  by the decoder whenever the target fits the limits, and the decoder charges exactly the
  target's size. Offsets are stored in 32 bits, so the base may have at most \<open>2 ^ 32\<close> bytes.
\<close>

theorem delta_round_trip:
  assumes "length base \<le> 2 ^ 32" and "length target \<le> usize_max"
    and "instructions_with base target work check s = Inr (Some program, st)"
    and "length target \<le> max_size" and "length target \<le> remaining"
  shows "delta_apply base program max_size remaining = Inr (target, remaining - length target)"
proof -
  let ?h = "encode_size (encode_size [] (length base)) (length target)"
  obtain anchors st1 where a: "anchor_loop check base 0 (\<lambda>_. usize_max) (work, s) = Inr (Some anchors, st1)"
    and e: "encode_loop check base target anchors ?h 0 0 st1 = Inr (Some program, st)"
    using assms(3) unfolding instructions_with_def
    by (auto simp add: and_then_Inr_iff split: option.splits)
  have "anchors_ok base anchors"
    using anchor_loop_ok [OF a] by (simp add: anchors_ok_def)
  from encode_loop_ok [OF assms(1) this e] obtain suffix where
      p: "program = ?h @ suffix"
    and l: "apply_loop base (length target) suffix [] = Inr target"
    by auto
  have h: "?h = encode_size [] (length base) @ encode_size [] (length target)"
    by (rule encode_size_append)
  have "length base \<le> usize_max" using assms(1) by (simp add: usize_max_def)
  with assms(2,4,5) l show ?thesis
    by (simp add: delta_apply_def p h delta_size_round_trip delta_charge_def checked_sub_def not_less)
qed

theorem delta_round_trip_witness:
  "delta_apply [1, 2, 3] [3, 2, 2, 7, 7] 10 5 = Inr ([7, 7], 5 - length [7 :: byte, 7])"
proof -
  have "instructions_with [1, 2, 3] [7, 7] 100 (\<lambda>s :: unit. (Inr s :: unit + unit)) ()
      = Inr (Some [3, 2, 2, 7, 7], 100, ())"
    by (simp add: instructions_with_def anchor_loop.simps encode_loop.simps encode_size.simps
        encode_insert_append chunks.simps)
  from delta_round_trip [OF _ _ this] show ?thesis by (simp add: usize_max_def)
qed

text \<open>
  C20: The encoder always finishes, and it finds a program when its work budget is at least the
  base's length plus nine units per target byte and the caller's check never fails.
\<close>

theorem delta_encoder_finds_program:
  assumes "\<forall>s. \<exists>s'. check s = Inr s'" and "length base + 9 * length target \<le> work"
  shows "\<exists>program st. instructions_with base target work check s = Inr (Some program, st)"
proof -
  obtain a r s' where a: "anchor_loop check base 0 (\<lambda>_. usize_max) (work, s) = Inr (Some a, r, s')"
    and "work \<le> r + length base"
    using anchor_loop_some [OF assms(1), of base 0 work "\<lambda>_. usize_max" s] assms(2) by auto
  with assms(2) encode_loop_some [OF assms(1), of target 0 r base a
      "encode_size (encode_size [] (length base)) (length target)" 0 s'] show ?thesis
    by (simp add: instructions_with_def)
qed

theorem delta_encoder_finds_program_witness:
  "\<exists>program st. instructions_with [1, 2, 3] [7, 7] 21 (\<lambda>s :: unit. (Inr s :: unit + unit)) ()
     = Inr (Some program, st)"
  by (rule delta_encoder_finds_program) auto

lemma read_operand_bytes:
  "read_operand instr flag bits program acc = Inr (v, rest) \<Longrightarrow> set rest \<subseteq> set program"
  by (induction instr flag bits program acc rule: read_operand.induct)
     (fastforce simp add: delta_byte_def and_then_Inr_iff split: if_splits list.splits)+

lemma delta_source_bytes:
  assumes "delta_source base instr program = Inr (data, rest)"
  shows "set data \<subseteq> set base \<union> set program" and "set rest \<subseteq> set program"
proof -
  consider (insert) "program = data @ rest"
    | (copy) offset p1 len stop where "read_operand instr 1 [0..<4] program 0 = Inr (offset, p1)"
        "read_operand instr 0x10 [0..<3] p1 0 = Inr (len, rest)" "get_range base offset stop = Some data"
    using assms unfolding delta_source_def
    by (auto simp add: and_then_Inr_iff Let_def split_at_checked_Some_iff
        split: if_splits option.splits)
  then have "set data \<subseteq> set base \<union> set program \<and> set rest \<subseteq> set program"
  proof cases
    case insert
    then show ?thesis by auto
  next
    case copy
    have "set data \<subseteq> set base"
      using copy(3) by (auto simp add: get_range_def split: if_splits dest!: in_set_takeD in_set_dropD)
    with read_operand_bytes [OF copy(1)] read_operand_bytes [OF copy(2)] show ?thesis by blast
  qed
  then show "set data \<subseteq> set base \<union> set program" and "set rest \<subseteq> set program" by auto
qed

lemma apply_loop_bytes:
  "apply_loop base rs program acc = Inr result \<Longrightarrow> set result \<subseteq> set acc \<union> set base \<union> set program"
proof (induction base rs program acc rule: apply_loop.induct)
  case (1 base rs program acc)
  show ?case
  proof (cases program)
    case Nil
    with "1.prems" show ?thesis by auto
  next
    case (Cons instr tail)
    with "1.prems" obtain data rest where d: "delta_source base instr tail = Inr (data, rest)"
      and le: "\<not> rs - length acc < length data"
      and r: "apply_loop base rs rest (acc @ data) = Inr result"
      by (subst (asm) apply_loop.simps)
         (auto simp add: delta_byte_def and_then_Inr_iff split: if_splits)
    have "set result \<subseteq> set (acc @ data) \<union> set base \<union> set rest"
      using "1.IH" [of "(instr, tail)" instr tail "(data, rest)" data rest] Cons d le r
      by (simp add: delta_byte_def)
    with delta_source_bytes [OF d] Cons show ?thesis by auto
  qed
qed

lemma delta_size_bytes:
  "delta_size program v sh more = Inr (n, rest) \<Longrightarrow> set rest \<subseteq> set program"
proof (induction program v sh more rule: delta_size.induct)
  case (1 program v sh more)
  show ?case
  proof (cases "more \<and> program \<noteq> []")
    case False
    with "1.prems" show ?thesis
      by (subst (asm) delta_size.simps) (auto simp add: delta_byte_def split: if_splits)
  next
    case True
    then obtain b tail where p: "program = b # tail" "more" by (cases program) auto
    with "1.prems" have c: "\<not> (64 \<le> sh \<or> drop_bit sh usize_max < unat (b AND 0x7f))"
      and r: "delta_size tail (v OR push_bit sh (unat (b AND 0x7f))) (sh + 7) (b AND 0x80 \<noteq> 0) = Inr (n, rest)"
      by (subst (asm) delta_size.simps, simp add: delta_byte_def Let_def split: if_splits)+
    have "set rest \<subseteq> set tail"
      by (rule "1.IH" [of "(b, tail)" b tail "unat (b AND 0x7f)"]) (use p c r in \<open>simp_all add: delta_byte_def\<close>)
    with p show ?thesis by auto
  qed
qed

text \<open>
  C24: A decode that succeeds stays within its limits, whatever the program is: the result has
  at most the allowed size, exactly its size is charged to the budget, and every byte of it
  comes from the base or from the program.
\<close>

theorem delta_apply_within_limits:
  assumes "delta_apply base program max_size remaining = Inr (result, remaining')"
  shows "length result \<le> max_size \<and> remaining = remaining' + length result \<and>
    set result \<subseteq> set base \<union> set program"
proof -
  from assms obtain p1 p2 where
      s1: "delta_size program 0 0 True = Inr (length base, p1)"
    and s2: "delta_size p1 0 0 True = Inr (length result, p2)"
    and "length result \<le> max_size" and "delta_charge remaining (length result) = Inr remaining'"
    and l: "apply_loop base (length result) p2 [] = Inr result"
    unfolding delta_apply_def by (auto simp add: and_then_Inr_iff not_less split: if_splits)
  moreover have "set result \<subseteq> set base \<union> set program"
    using apply_loop_bytes [OF l] delta_size_bytes [OF s1] delta_size_bytes [OF s2] by auto
  ultimately show ?thesis
    by (auto simp add: delta_charge_def ok_or_def checked_sub_def split: if_splits option.splits)
qed

theorem delta_apply_within_limits_witness:
  "length [2, 3, 9 :: byte] \<le> 8 \<and> (5 :: nat) = 2 + length [2, 3, 9 :: byte] \<and>
     set [2, 3, 9 :: byte] \<subseteq> set [1, 2, 3] \<union> set [3, 3, 0x91, 1, 2, 1, 9]"
proof -
  have "delta_apply [1, 2, 3] [3, 3, 0x91, 1, 2, 1, 9] 8 5 = Inr ([2, 3, 9], 2)"
    by (simp add: delta_apply_def delta_size.simps delta_byte_def usize_max_def delta_charge_def
        checked_sub_def apply_loop.simps delta_source_def upt_rec checked_add_def get_range_def
        split_at_checked_def)
  from delta_apply_within_limits [OF this] show ?thesis .
qed

end
