(* ===== verification/Record_Stream.thy ===== *)
theory Record_Stream
  imports Prelude
begin

text \<open>
  An interface shared by the readers of self-delimiting records. A reader takes one record from
  the front of its input and returns the rest; a loop repeats it until the input is empty.
  Once a writer's records are known to be read back one at a time, a whole stream is.
\<close>

locale record_stream =
  fixes enc :: "'a \<Rightarrow> bytes"
    and step :: "bytes \<Rightarrow> 'e + 'a \<times> bytes"
    and loop :: "bytes \<Rightarrow> 'e + 'a list"
    and valid :: "'a \<Rightarrow> bool"
  assumes step_enc: "valid x \<Longrightarrow> step (enc x @ rest) = Inr (x, rest)"
    and enc_nonempty: "valid x \<Longrightarrow> enc x \<noteq> []"
    and loop_Nil: "loop [] = Inr []"
    and loop_step: "bs \<noteq> [] \<Longrightarrow> step bs = Inr (x, rest) \<Longrightarrow>
      loop bs = and_then (loop rest) (\<lambda>xs. Inr (x # xs))"
begin

lemma loop_concat: "\<forall>x \<in> set xs. valid x \<Longrightarrow> loop (concat (map enc xs)) = Inr xs"
proof (induction xs)
  case Nil
  then show ?case by (simp add: loop_Nil)
next
  case (Cons x xs)
  then have "loop (enc x @ concat (map enc xs)) = and_then (loop (concat (map enc xs))) (\<lambda>xs. Inr (x # xs))"
    by (intro loop_step step_enc) (simp_all add: enc_nonempty)
  with Cons show ?case by simp
qed

text \<open>Streams of valid records are uniquely readable.\<close>

lemma concat_inject:
  "\<forall>x \<in> set xs. valid x \<Longrightarrow> \<forall>y \<in> set ys. valid y \<Longrightarrow>
     concat (map enc xs) = concat (map enc ys) \<Longrightarrow> xs = ys"
  by (metis loop_concat sum.inject(2))

end

end
