(* ===== verification/Tree_Object.thy ===== *)
theory Tree_Object
  imports Object_Id Record_Stream "HOL-Library.List_Lexorder" "HOL-Library.Multiset"
begin

text \<open>
  \<^verbatim>\<open>src/tree.rs\<close>: tree objects. A tree keeps the payload it was read from; entries are sorted
  in Git's order, which compares names followed by a terminator (a slash for subtrees and a zero
  byte otherwise). The digest functions are parameters, as for every object.
\<close>

section \<open>The model\<close>

datatype entry_mode = ModeBlob | ModeExecutable | ModeSymlink | ModeTree | ModeGitlink

datatype tree_error =
    TreeObjectFormat object_format_error
  | MissingModeDelimiter
  | UnsupportedMode
  | MissingNameDelimiter
  | TruncatedObjectId
  | InvalidName
  | DuplicateName
  | Unsorted

record tree_entry =
  entry_mode :: entry_mode
  entry_name :: bytes
  entry_id :: object_id

record tree =
  tree_format :: object_format
  tree_entries :: "tree_entry list"
  original :: bytes

definition octal :: "entry_mode \<Rightarrow> bytes" where
  "octal self =
     (case self of
        ModeBlob \<Rightarrow> ascii ''100644''
      | ModeExecutable \<Rightarrow> ascii ''100755''
      | ModeSymlink \<Rightarrow> ascii ''120000''
      | ModeTree \<Rightarrow> ascii ''040000''
      | ModeGitlink \<Rightarrow> ascii ''160000'')"

definition mode_object_kind :: "entry_mode \<Rightarrow> object_kind" where
  "mode_object_kind self =
     (case self of
        ModeBlob \<Rightarrow> Blob
      | ModeExecutable \<Rightarrow> Blob
      | ModeSymlink \<Rightarrow> Blob
      | ModeTree \<Rightarrow> Tree
      | ModeGitlink \<Rightarrow> Commit)"

definition mode_bytes :: "entry_mode \<Rightarrow> bytes" where
  "mode_bytes self =
     (case self of
        ModeBlob \<Rightarrow> ascii ''100644''
      | ModeExecutable \<Rightarrow> ascii ''100755''
      | ModeSymlink \<Rightarrow> ascii ''120000''
      | ModeTree \<Rightarrow> ascii ''40000''
      | ModeGitlink \<Rightarrow> ascii ''160000'')"

text \<open>The accumulator is 32 bits wide and wraps.\<close>

fun mode_digits :: "32 word \<Rightarrow> bytes \<Rightarrow> tree_error + 32 word" where
  "mode_digits mode [] = Inr mode"
| "mode_digits mode (b # bs) =
     (if \<not> (48 \<le> b \<and> b \<le> 55) then Inl UnsupportedMode
      else mode_digits (mode * 8 + ucast (b - 48)) bs)"

definition mode_parse :: "bytes \<Rightarrow> tree_error + entry_mode" where
  "mode_parse bytes =
     (if bytes = [] then Inl UnsupportedMode
      else
        and_then (mode_digits 0 bytes) (\<lambda>mode.
        Inr (let type = and mode 0xf000 in
             if type = 0x4000 then ModeTree
             else if type = 0x8000 \<and> and mode 0x40 \<noteq> 0 then ModeExecutable
             else if type = 0x8000 then ModeBlob
             else if type = 0xa000 then ModeSymlink
             else ModeGitlink)))"

definition terminator :: "entry_mode \<Rightarrow> byte" where
  "terminator self = (if self = ModeTree then 47 else 0)"

text \<open>\<^verbatim>\<open>git_cmp\<close> compares these keys.\<close>

definition git_key :: "tree_entry \<Rightarrow> bytes" where
  "git_key e = entry_name e @ [terminator (entry_mode e)]"

definition git_cmp_lt :: "tree_entry \<Rightarrow> tree_entry \<Rightarrow> bool" where
  "git_cmp_lt a b \<longleftrightarrow> git_key a < git_key b"

definition encode_entry :: "tree_entry \<Rightarrow> bytes" where
  "encode_entry e =
     mode_bytes (entry_mode e) @ 32 # entry_name e @ 0 # as_bytes (entry_id e)"

definition encode_entries :: "tree_entry list \<Rightarrow> bytes" where
  "encode_entries entries = concat (map encode_entry entries)"

definition name_invalid :: "bytes \<Rightarrow> bool" where
  "name_invalid name \<longleftrightarrow>
     name = [] \<or> 0 \<in> set name \<or> 47 \<in> set name \<or> name = [46] \<or> name = [46, 46]"

text \<open>The loop of \<^verbatim>\<open>validate_names\<close>, with the names seen so far.\<close>

fun validate_names_from :: "bytes list \<Rightarrow> tree_entry list \<Rightarrow> tree_error + unit" where
  "validate_names_from seen [] = Inr ()"
| "validate_names_from seen (e # es) =
     (if name_invalid (entry_name e) then Inl InvalidName
      else if entry_name e \<in> set seen then Inl DuplicateName
      else validate_names_from (entry_name e # seen) es)"

definition validate_names :: "tree_entry list \<Rightarrow> tree_error + unit" where
  "validate_names entries = validate_names_from [] entries"

fun require_formats :: "object_format \<Rightarrow> tree_entry list \<Rightarrow> tree_error + unit" where
  "require_formats format [] = Inr ()"
| "require_formats format (e # es) =
     and_then (map_err TreeObjectFormat (require_format (entry_id e) format)) (\<lambda>_.
     require_formats format es)"

definition from_ordered :: "object_format \<Rightarrow> tree_entry list \<Rightarrow> tree" where
  "from_ordered format entries =
     \<lparr>tree_format = format, tree_entries = entries, original = encode_entries entries\<rparr>"

definition tree_new :: "object_format \<Rightarrow> tree_entry list \<Rightarrow> tree_error + tree" where
  "tree_new format entries =
     and_then (require_formats format entries) (\<lambda>_.
     and_then (validate_names entries) (\<lambda>_.
     let entries = sort_key git_key entries in
     Inr \<lparr>tree_format = format, tree_entries = entries, original = encode_entries entries\<rparr>))"

text \<open>\<^verbatim>\<open>RawEntries\<close>: one entry from the front of the payload.\<close>

definition parse_one ::
  "object_format \<Rightarrow> bytes \<Rightarrow> tree_error + (entry_mode \<times> bytes \<times> object_id) \<times> bytes" where
  "parse_one format payload =
     and_then (ok_or MissingModeDelimiter (split_once payload 32)) (\<lambda>(mode, rest).
     and_then (mode_parse mode) (\<lambda>mode.
     and_then (ok_or MissingNameDelimiter (split_once rest 0)) (\<lambda>(name, rest).
     and_then (ok_or TruncatedObjectId (split_at_checked rest (digest_len format))) (\<lambda>(raw_id, rest).
     and_then (map_err (\<lambda>_. TruncatedObjectId) (from_bytes format raw_id)) (\<lambda>oid.
     Inr ((mode, name, oid), rest))))))"

lemma parse_one_length:
  "parse_one format payload = Inr (e, rest) \<Longrightarrow> length rest < length payload"
  by (auto simp add: parse_one_def and_then_Inr_iff split_at_checked_Some_iff split_once_Some_iff)

text \<open>The loop of \<^verbatim>\<open>Tree::parse\<close> over the iterator.\<close>

function parse_entries :: "object_format \<Rightarrow> bytes \<Rightarrow> tree_error + tree_entry list" where
  "parse_entries format payload =
     (if payload = [] then Inr []
      else
        and_then (parse_one format payload) (\<lambda>(entry, rest).
        and_then (parse_entries format rest) (\<lambda>entries.
        case entry of (mode, name, oid) \<Rightarrow>
          Inr (\<lparr>entry_mode = mode, entry_name = name, entry_id = oid\<rparr> # entries))))"
  by pat_completeness auto
termination
  by (relation "measure (\<lambda>(format, payload). length payload)") (auto dest: parse_one_length)

declare parse_entries.simps [simp del]

definition tree_parse :: "object_format \<Rightarrow> bytes \<Rightarrow> tree_error + tree" where
  "tree_parse format payload =
     and_then (parse_entries format payload) (\<lambda>entries.
     Inr \<lparr>tree_format = format, tree_entries = entries, original = payload\<rparr>)"

definition tree_validate :: "tree \<Rightarrow> tree_error + unit" where
  "tree_validate self =
     and_then (validate_names (tree_entries self)) (\<lambda>_.
     if \<not> sorted (map git_key (tree_entries self)) then Inl Unsorted else Inr ())"

definition tree_encode :: "tree \<Rightarrow> bytes" where
  "tree_encode self = original self"

definition tree_id ::
  "(bytes \<Rightarrow> bytes) \<Rightarrow> (bytes \<Rightarrow> bytes) \<Rightarrow> tree \<Rightarrow> object_id" where
  "tree_id sha1 sha256 self = hash_object sha1 sha256 (tree_format self) Tree (original self)"

section \<open>Modes and entries\<close>

lemma mode_parse_bytes [codec_simps]: "mode_parse (mode_bytes m) = Inr m"
  by (cases m) (simp_all add: mode_parse_def mode_bytes_def ascii_def)

lemma space_notin_mode_bytes [simp]: "32 \<notin> set (mode_bytes m)"
  by (cases m) (simp_all add: mode_bytes_def ascii_def)

lemma mode_bytes_nonempty [simp]: "mode_bytes m \<noteq> []"
  by (cases m) (simp_all add: mode_bytes_def ascii_def)

definition entry_ok :: "object_format \<Rightarrow> tree_entry \<Rightarrow> bool" where
  "entry_ok format e \<longleftrightarrow>
     oid_wf (entry_id e) \<and> oid_format (entry_id e) = format \<and> 0 \<notin> set (entry_name e)"

lemma length_as_bytes: "oid_wf oid \<Longrightarrow> length (as_bytes oid) = digest_len (oid_format oid)"
  by (simp add: oid_wf_def)

lemma parse_one_encode:
  assumes "entry_ok format e"
  shows "parse_one format (encode_entry e @ rest) = Inr ((entry_mode e, entry_name e, entry_id e), rest)"
proof -
  have "split_once (mode_bytes (entry_mode e) @ 32 # entry_name e @ 0 # as_bytes (entry_id e) @ rest) 32
      = Some (mode_bytes (entry_mode e), entry_name e @ 0 # as_bytes (entry_id e) @ rest)"
    by (simp add: split_once_append)
  moreover have "split_once (entry_name e @ 0 # as_bytes (entry_id e) @ rest) 0
      = Some (entry_name e, as_bytes (entry_id e) @ rest)"
    using assms by (simp add: split_once_append entry_ok_def)
  ultimately show ?thesis
    using assms from_bytes_as_bytes [of "entry_id e"]
    by (auto simp add: parse_one_def encode_entry_def mode_parse_bytes entry_ok_def length_as_bytes)
qed

text \<open>The entries of a payload as a stream of records.\<close>

definition parse_entry :: "object_format \<Rightarrow> bytes \<Rightarrow> tree_error + tree_entry \<times> bytes" where
  "parse_entry format payload =
     and_then (parse_one format payload) (\<lambda>((mode, name, oid), rest).
     Inr (\<lparr>entry_mode = mode, entry_name = name, entry_id = oid\<rparr>, rest))"

interpretation entries: record_stream encode_entry "parse_entry format" "parse_entries format"
  "entry_ok format" for format
proof
  fix e rest assume "entry_ok format e"
  then show "parse_entry format (encode_entry e @ rest) = Inr (e, rest)"
    by (simp add: parse_entry_def parse_one_encode)
next
  fix e show "encode_entry e \<noteq> []" by (simp add: encode_entry_def)
next
  show "parse_entries format [] = Inr []" by (simp add: parse_entries.simps)
next
  fix bs e rest assume "bs \<noteq> []" and "parse_entry format bs = Inr (e, rest)"
  then show "parse_entries format bs = and_then (parse_entries format rest) (\<lambda>xs. Inr (e # xs))"
    by (auto simp add: parse_entry_def and_then_Inr_iff parse_entries.simps [of format bs])
qed

section \<open>Names and order\<close>

lemma validate_names_from_iff:
  "validate_names_from seen es = Inr () \<longleftrightarrow>
     (\<forall>e \<in> set es. \<not> name_invalid (entry_name e)) \<and> distinct (map entry_name es) \<and>
     set (map entry_name es) \<inter> set seen = {}"
  by (induction seen es rule: validate_names_from.induct) auto

lemma validate_names_iff:
  "validate_names es = Inr () \<longleftrightarrow>
     (\<forall>e \<in> set es. \<not> name_invalid (entry_name e)) \<and> distinct (map entry_name es)"
  by (simp add: validate_names_def validate_names_from_iff)

lemma require_formats_iff:
  "require_formats format es = Inr () \<longleftrightarrow> (\<forall>e \<in> set es. oid_format (entry_id e) = format)"
  by (induction es) (auto simp add: and_then_Inr_iff require_format_def)

lemma tree_new_Inr_iff:
  "tree_new format es = Inr t \<longleftrightarrow>
     (\<forall>e \<in> set es. oid_format (entry_id e) = format \<and> \<not> name_invalid (entry_name e)) \<and>
     distinct (map entry_name es) \<and> t = from_ordered format (sort_key git_key es)"
  by (auto simp add: tree_new_def and_then_Inr_iff require_formats_iff validate_names_iff
      from_ordered_def Let_def)

lemma distinct_git_key:
  "distinct (map entry_name es) \<Longrightarrow> distinct (map git_key es)"
  by (induction es) (auto simp add: git_key_def)

lemma distinct_names_sort_key:
  "distinct (map entry_name (sort_key f es)) \<longleftrightarrow> distinct (map entry_name es)"
  by (metis distinct_map distinct_sort set_sort)

lemma sort_key_git_strict:
  "distinct (map entry_name es) \<Longrightarrow> sorted_wrt (<) (map git_key (sort_key git_key es))"
  using distinct_git_key [of "sort_key git_key es"]
  by (simp add: strict_sorted_iff distinct_names_sort_key)

section \<open>Properties\<close>

text \<open>
  C9: A tree that \<^verbatim>\<open>Tree::new\<close> builds is encoded so that \<^verbatim>\<open>Tree::parse\<close> reads back the
  same tree, and it passes \<^verbatim>\<open>Tree::validate\<close>: its names are valid and unique, and its entries,
  a permutation of the given ones, are strictly ascending in Git's order. Identifiers are
  assumed to have the digest length of their format, which their type guarantees.
\<close>

theorem tree_round_trip:
  assumes "tree_new format es = Inr t" and "\<forall>e \<in> set es. oid_wf (entry_id e)"
  shows "tree_parse format (tree_encode t) = Inr t \<and> tree_validate t = Inr () \<and>
    mset (tree_entries t) = mset es \<and> sorted_wrt git_cmp_lt (tree_entries t)"
proof -
  from assms(1) have new: "\<forall>e \<in> set es. oid_format (entry_id e) = format \<and> \<not> name_invalid (entry_name e)"
      "distinct (map entry_name es)" and t: "t = from_ordered format (sort_key git_key es)"
    by (simp_all add: tree_new_Inr_iff)
  have "\<forall>e \<in> set (sort_key git_key es). entry_ok format e"
    using new(1) assms(2) by (auto simp add: entry_ok_def name_invalid_def)
  from entries.loop_concat [OF this] have "tree_parse format (tree_encode t) = Inr t"
    by (simp add: tree_parse_def tree_encode_def t from_ordered_def encode_entries_def)
  moreover have "tree_validate t = Inr ()"
    using new by (auto simp add: tree_validate_def t from_ordered_def and_then_Inr_iff
        validate_names_iff distinct_names_sort_key)
  moreover have "sorted_wrt git_cmp_lt (tree_entries t)"
    using sort_key_git_strict [OF new(2)]
    by (simp add: t from_ordered_def sorted_wrt_map git_cmp_lt_def [abs_def])
  ultimately show ?thesis by (simp add: t from_ordered_def)
qed

theorem tree_round_trip_witness:
  "tree_parse Sha1 (tree_encode (from_ordered Sha1
     [\<lparr>entry_mode = ModeBlob, entry_name = [97, 46], entry_id = IdSha1 (replicate 20 1)\<rparr>,
      \<lparr>entry_mode = ModeTree, entry_name = [97], entry_id = IdSha1 (replicate 20 2)\<rparr>]))
   = Inr (from_ordered Sha1
     [\<lparr>entry_mode = ModeBlob, entry_name = [97, 46], entry_id = IdSha1 (replicate 20 1)\<rparr>,
      \<lparr>entry_mode = ModeTree, entry_name = [97], entry_id = IdSha1 (replicate 20 2)\<rparr>])"
proof -
  let ?a = "\<lparr>entry_mode = ModeTree, entry_name = [97], entry_id = IdSha1 (replicate 20 2)\<rparr>"
  let ?b = "\<lparr>entry_mode = ModeBlob, entry_name = [97, 46], entry_id = IdSha1 (replicate 20 1)\<rparr>"
  have "tree_new Sha1 [?a, ?b] = Inr (from_ordered Sha1 [?b, ?a])"
    by (simp add: tree_new_Inr_iff name_invalid_def git_key_def terminator_def)
  from tree_round_trip [OF this] show ?thesis by (simp add: oid_wf_def)
qed



end
