(* ===== verification/Ordered_Map.thy ===== *)
theory Ordered_Map
  imports Prelude "HOL-Library.List_Lexorder"
begin

text \<open>
  \<^verbatim>\<open>BTreeMap\<close> as the modelled code uses it: an association list with strictly ascending keys.
  Byte strings compare lexicographically, as Rust's slices do. The interface \<open>keyed_map\<close> states
  the laws the components rely on and is interpreted on the association lists.
\<close>

type_synonym ('k, 'v) omap = "('k \<times> 'v) list"

definition om_get :: "('k, 'v) omap \<Rightarrow> 'k \<Rightarrow> 'v option" where
  "om_get m k = map_of m k"

fun om_insert :: "'k :: linorder \<Rightarrow> 'v \<Rightarrow> ('k, 'v) omap \<Rightarrow> ('k, 'v) omap" where
  "om_insert k v [] = [(k, v)]"
| "om_insert k v ((k', v') # m) =
     (if k < k' then (k, v) # (k', v') # m
      else if k = k' then (k, v) # m
      else (k', v') # om_insert k v m)"

definition om_remove :: "'k \<Rightarrow> ('k, 'v) omap \<Rightarrow> ('k, 'v) omap" where
  "om_remove k m = filter (\<lambda>p. fst p \<noteq> k) m"

text \<open>\<^verbatim>\<open>range(k..)\<close>, in ascending order.\<close>

definition om_range_from :: "'k :: linorder \<Rightarrow> ('k, 'v) omap \<Rightarrow> ('k, 'v) omap" where
  "om_range_from k m = dropWhile (\<lambda>p. fst p < k) m"

definition om_keys :: "('k, 'v) omap \<Rightarrow> 'k list" where
  "om_keys m = map fst m"

definition om_ok :: "('k :: linorder, 'v) omap \<Rightarrow> bool" where
  "om_ok m \<longleftrightarrow> sorted_wrt (<) (map fst m)"

lemma om_ok_Nil [simp]: "om_ok []"
  by (simp add: om_ok_def)

lemma om_ok_Cons [simp]: "om_ok ((k, v) # m) \<longleftrightarrow> om_ok m \<and> (\<forall>p \<in> set m. k < fst p)"
  by (auto simp add: om_ok_def)

lemma om_ok_distinct: "om_ok m \<Longrightarrow> distinct (map fst m)"
  unfolding om_ok_def by (induction m) auto

lemma om_get_Some_iff: "om_ok m \<Longrightarrow> om_get m k = Some v \<longleftrightarrow> (k, v) \<in> set m"
  by (simp add: om_get_def om_ok_distinct)

lemma om_get_in_keys: "om_get m k \<noteq> None \<longleftrightarrow> k \<in> fst ` set m"
  by (simp add: om_get_def map_of_eq_None_iff)

lemma set_om_insert: "fst ` set (om_insert k v m) = insert k (fst ` set m)"
  by (induction k v m rule: om_insert.induct) auto

lemma om_insert_ok: "om_ok m \<Longrightarrow> om_ok (om_insert k v m)"
proof (induction k v m rule: om_insert.induct)
  case (2 k v k' v' m)
  have "\<forall>p \<in> set (om_insert k v m). k' < fst p" if "k' < k" "\<forall>p \<in> set m. k' < fst p"
    using set_om_insert [of k v m] that by (metis image_eqI insertE imageE)
  with 2 show ?case by (auto simp add: not_less_iff_gr_or_eq)
qed simp

lemma om_get_insert: "om_ok m \<Longrightarrow> om_get (om_insert k v m) k' = (if k' = k then Some v else om_get m k')"
proof (induction k v m rule: om_insert.induct)
  case (1 k v)
  then show ?case by (simp add: om_get_def)
next
  case (2 k v k1 v1 m)
  have "map_of m k = None" if "k < k1" "\<forall>p \<in> set m. k1 < fst p"
    using that by (force simp add: map_of_eq_None_iff)
  with 2 show ?case by (auto simp add: om_get_def)
qed

lemma om_remove_ok: "om_ok m \<Longrightarrow> om_ok (om_remove k m)"
  unfolding om_remove_def by (induction m) auto

lemma om_get_remove: "om_get (om_remove k m) k' = (if k' = k then None else om_get m k')"
  unfolding om_get_def om_remove_def by (induction m) auto

lemma om_get_Nil [simp]: "om_get [] k = None"
  by (simp add: om_get_def)

lemma om_range_from_ok:
  "om_ok m \<Longrightarrow> om_range_from k m = filter (\<lambda>p. k \<le> fst p) m"
proof (induction m)
  case (Cons p m)
  obtain k1 v1 where p: "p = (k1, v1)" by fastforce
  have "filter (\<lambda>p. k \<le> fst p) m = m" if "\<not> k1 < k" "\<forall>p \<in> set m. k1 < fst p"
    using that by (auto simp add: filter_id_conv intro: order.trans less_imp_le simp: not_less)
  with Cons p show ?case by (auto simp add: om_range_from_def not_less)
qed (simp add: om_range_from_def)

text \<open>Two maps with the same bindings are the same list.\<close>

lemma om_ext:
  assumes "om_ok a" "om_ok b" and same: "\<And>k. om_get a k = om_get b k"
  shows "a = b"
proof (rule map_sorted_distinct_set_unique [of fst])
  show eq: "set a = set b" using assms om_get_Some_iff by (metis subrelI subset_antisym)
  show "inj_on fst (set a \<union> set b)" unfolding eq using om_ok_distinct [OF assms(2)]
    by (simp add: distinct_map)
qed (use assms in \<open>simp_all add: om_ok_distinct, simp_all add: om_ok_def strict_sorted_iff\<close>)

lemma om_insert_last: "\<forall>p \<in> set m. fst p < k \<Longrightarrow> om_insert k v m = m @ [(k, v)]"
  by (induction k v m rule: om_insert.induct) auto

lemma om_insert_replace: "om_ok (m @ [(k, w)]) \<Longrightarrow> om_insert k v (m @ [(k, w)]) = m @ [(k, v)]"
  by (induction k v m rule: om_insert.induct) auto

lemma om_remove_insert: "om_ok m \<Longrightarrow> om_remove k (om_insert k v m) = om_remove k m"
  by (rule om_ext) (auto simp add: om_insert_ok om_remove_ok om_get_insert om_get_remove)

lemma om_remove_insert_other:
  "om_ok m \<Longrightarrow> k \<noteq> k' \<Longrightarrow> om_remove k (om_insert k' v m) = om_insert k' v (om_remove k m)"
  by (rule om_ext) (auto simp add: om_insert_ok om_remove_ok om_get_insert om_get_remove)

text \<open>The lists with a common prefix are contiguous in the lexicographic order.\<close>

lemma between_prefix:
  fixes p a r :: "'a :: linorder list"
  assumes "p \<le> a" and "a \<le> p @ r"
  shows "starts_with a p"
  using assms
proof (induction p arbitrary: a)
  case Nil
  then show ?case by (simp add: starts_with_def)
next
  case (Cons x p)
  then obtain y a' where a: "a = y # a'" by (cases a) auto
  with Cons.prems have "y = x" by auto
  with Cons a show ?case by (auto simp add: starts_with_def)
qed

lemma prefix_le [simp]: "(p :: 'a :: linorder list) \<le> p @ r"
  by (induction p) auto

section \<open>The interface\<close>

locale keyed_map =
  fixes get :: "'m \<Rightarrow> 'k \<Rightarrow> 'v option"
    and insert_at :: "'k \<Rightarrow> 'v \<Rightarrow> 'm \<Rightarrow> 'm"
    and remove_at :: "'k \<Rightarrow> 'm \<Rightarrow> 'm"
    and ok :: "'m \<Rightarrow> bool"
  assumes insert_ok: "ok m \<Longrightarrow> ok (insert_at k v m)"
    and remove_ok: "ok m \<Longrightarrow> ok (remove_at k m)"
    and get_insert: "ok m \<Longrightarrow> get (insert_at k v m) k' = (if k' = k then Some v else get m k')"
    and get_remove: "ok m \<Longrightarrow> get (remove_at k m) k' = (if k' = k then None else get m k')"
begin

text \<open>Removing a list of keys, one after another.\<close>

lemma fold_remove:
  "ok m \<Longrightarrow> ok (fold remove_at ks m) \<and>
     get (fold remove_at ks m) k = (if k \<in> set ks then None else get m k)"
  by (induction ks arbitrary: m) (auto simp add: remove_ok get_remove)

text \<open>Inserting a list of bindings: the last binding of a key wins.\<close>

lemma fold_insert:
  "ok m \<Longrightarrow> ok (fold (\<lambda>(k, v). insert_at k v) kvs m) \<and>
     get (fold (\<lambda>(k, v). insert_at k v) kvs m) k =
       (case map_of (rev kvs) k of Some v \<Rightarrow> Some v | None \<Rightarrow> get m k)"
  by (induction kvs arbitrary: m)
     (auto simp add: insert_ok get_insert map_add_Some_iff map_add_def split: option.splits)

end

interpretation om: keyed_map om_get om_insert om_remove om_ok
  by unfold_locales
     (simp_all add: om_insert_ok om_remove_ok om_get_insert om_get_remove)

end
