(* ===== verification/Tree_Editor.thy ===== *)
theory Tree_Editor
  imports Tree_Object Ordered_Map
begin

text \<open>
  \<^verbatim>\<open>src/tree/editor.rs\<close>: building a tree from paths. The editor holds an ordered map from paths
  to values; \<open>tree_write\<close> writes the directories from the bottom up. Storing one tree is a
  parameter that threads the state of the object store, so that its errors and its results
  are whatever the store does.
\<close>

section \<open>The model\<close>

record tree_value =
  value_mode :: entry_mode
  value_id :: object_id

datatype 'e tree_write_error =
    WriteTree tree_error
  | Storage 'e
  | StoredSubtree bytes

record tree_editor =
  editor_format :: object_format
  editor_entries :: "(bytes, tree_value) omap"

definition editor_new :: "object_format \<Rightarrow> tree_editor" where
  "editor_new format = \<lparr>editor_format = format, editor_entries = []\<rparr>"

definition split_path :: "bytes \<Rightarrow> bytes \<times> bytes" where
  "split_path path =
     (case rposition (\<lambda>b. b = 47) path of
        Some index \<Rightarrow>
          (take index path,
           case strip_prefix (drop index path) [47] of Some name \<Rightarrow> name | None \<Rightarrow> [])
      | None \<Rightarrow> ([], path))"

fun validate_components :: "bytes list \<Rightarrow> 'e tree_write_error + unit" where
  "validate_components [] = Inr ()"
| "validate_components (name # names) =
     (if name = [] \<or> 0 \<in> set name \<or> name = [46] \<or> name = [46, 46]
      then Inl (WriteTree InvalidName)
      else validate_components names)"

definition validate_path :: "bytes \<Rightarrow> 'e tree_write_error + unit" where
  "validate_path path = validate_components (split_on 47 path)"

lemma split_path_slash:
  assumes "47 \<notin> set name"
  shows "split_path (parent @ 47 # name) = (parent, name)"
proof -
  have "rposition (\<lambda>b. b = 47) (parent @ 47 # name) = Some (length parent)"
    using assms by (intro rposition_append_last) auto
  then show ?thesis by (simp add: split_path_def strip_prefix_def starts_with_def)
qed

lemma split_path_no_slash:
  assumes "47 \<notin> set path"
  shows "split_path path = ([], path)"
proof -
  have "rposition (\<lambda>b. b = 47) path = None" using assms by (auto simp add: rposition_None_iff)
  then show ?thesis by (simp add: split_path_def)
qed

lemma split_path_cases:
  obtains (top) "47 \<notin> set path" "split_path path = ([], path)"
  | (nested) parent name where "path = parent @ 47 # name" "47 \<notin> set name"
      "split_path path = (parent, name)"
proof (cases "47 \<in> set path")
  case True
  then obtain parent name where "path = parent @ 47 # name" "47 \<notin> set name"
    by (metis split_list_last)
  then show thesis using nested split_path_slash by blast
next
  case False
  then show thesis using top split_path_no_slash by blast
qed

lemma split_path_shorter: "path \<noteq> [] \<Longrightarrow> length (fst (split_path path)) < length path"
  by (cases path rule: split_path_cases) auto

function check_ancestors_from ::
  "(bytes, tree_value) omap \<Rightarrow> bytes \<Rightarrow> 'e tree_write_error + unit" where
  "check_ancestors_from entries ancestor =
     (if ancestor = [] then Inr ()
      else if (case om_get entries ancestor of Some v \<Rightarrow> value_mode v = ModeTree | None \<Rightarrow> False)
      then Inl (StoredSubtree ancestor)
      else check_ancestors_from entries (fst (split_path ancestor)))"
  by pat_completeness auto
termination
  by (relation "measure (\<lambda>(entries, ancestor). length ancestor)") (auto simp add: split_path_shorter)

declare check_ancestors_from.simps [simp del]

definition check_ancestors :: "tree_editor \<Rightarrow> bytes \<Rightarrow> 'e tree_write_error + unit" where
  "check_ancestors self path = check_ancestors_from (editor_entries self) (fst (split_path path))"

definition remove_subtree :: "tree_editor \<Rightarrow> bytes \<Rightarrow> tree_editor" where
  "remove_subtree self path =
     (let entries = om_remove path (editor_entries self);
          prefix = path @ [47];
          descendants = map fst (takeWhile (\<lambda>p. starts_with (fst p) prefix) (om_range_from prefix entries))
      in self\<lparr>editor_entries := fold om_remove descendants entries\<rparr>)"

function remove_ancestors :: "(bytes, tree_value) omap \<Rightarrow> bytes \<Rightarrow> (bytes, tree_value) omap" where
  "remove_ancestors entries ancestor =
     (if ancestor = [] then entries
      else remove_ancestors (om_remove ancestor entries) (fst (split_path ancestor)))"
  by pat_completeness auto
termination
  by (relation "measure (\<lambda>(entries, ancestor). length ancestor)") (auto simp add: split_path_shorter)

declare remove_ancestors.simps [simp del]

definition set_entry ::
  "tree_editor \<Rightarrow> bytes \<Rightarrow> tree_value \<Rightarrow> 'e tree_write_error + tree_editor" where
  "set_entry self path value =
     and_then (validate_path path) (\<lambda>_.
     and_then (map_err (WriteTree \<circ> TreeObjectFormat) (require_format (value_id value) (editor_format self))) (\<lambda>_.
     and_then (check_ancestors self path) (\<lambda>_.
     let self = remove_subtree self path;
         entries = remove_ancestors (editor_entries self) (fst (split_path path))
     in Inr (self\<lparr>editor_entries := om_insert path value entries\<rparr>))))"

definition editor_set ::
  "tree_editor \<Rightarrow> bytes \<Rightarrow> object_id \<Rightarrow> 'e tree_write_error + tree_editor" where
  "editor_set self path blob = set_entry self path \<lparr>value_mode = ModeBlob, value_id = blob\<rparr>"

definition editor_remove :: "tree_editor \<Rightarrow> bytes \<Rightarrow> 'e tree_write_error + tree_editor" where
  "editor_remove self path =
     and_then (validate_path path) (\<lambda>_.
     and_then (check_ancestors self path) (\<lambda>_.
     Inr (remove_subtree self path)))"

text \<open>\<^verbatim>\<open>entry(path).or_default()\<close>, and pushing an entry on it.\<close>

type_synonym directories = "(bytes, tree_entry list) omap"

definition dir_touch :: "bytes \<Rightarrow> directories \<Rightarrow> directories" where
  "dir_touch path dirs = (if om_get dirs path = None then om_insert path [] dirs else dirs)"

definition dir_push :: "bytes \<Rightarrow> tree_entry \<Rightarrow> directories \<Rightarrow> directories" where
  "dir_push path entry dirs =
     om_insert path ((case om_get dirs path of Some es \<Rightarrow> es | None \<Rightarrow> []) @ [entry]) dirs"

function touch_ancestors :: "bytes \<Rightarrow> directories \<Rightarrow> directories" where
  "touch_ancestors ancestor dirs =
     (if ancestor = [] then dirs
      else touch_ancestors (fst (split_path ancestor)) (dir_touch (fst (split_path ancestor)) dirs))"
  by pat_completeness auto
termination
  by (relation "measure (\<lambda>(ancestor, dirs). length ancestor)") (auto simp add: split_path_shorter)

declare touch_ancestors.simps [simp del]

definition collect_directories :: "(bytes, tree_value) omap \<Rightarrow> directories" where
  "collect_directories entries =
     foldl (\<lambda>dirs (path, value).
       let (parent, name) = split_path path in
       touch_ancestors parent
         (dir_push parent
           \<lparr>entry_mode = value_mode value, entry_name = name, entry_id = value_id value\<rparr> dirs))
       (om_insert [] [] []) entries"

text \<open>
  The bottom-up loop takes the greatest path first. It runs as long as another directory than
  the root is left; \<open>None\<close> stands for a run that does not end.
\<close>

partial_function (option) write_directories ::
  "object_format \<Rightarrow> ('s \<Rightarrow> tree \<Rightarrow> 'e + object_id \<times> 's) \<Rightarrow> directories \<Rightarrow> 's \<Rightarrow>
     ('e tree_write_error + directories \<times> 's) option" where
  "write_directories format write_tree dirs s =
     (if length dirs \<le> 1 then Some (Inr (dirs, s))
      else
        (case last dirs of (path, entries) \<Rightarrow>
           (case map_err WriteTree (tree_new format entries) of
              Inl e \<Rightarrow> Some (Inl e)
            | Inr tree \<Rightarrow>
                (case map_err Storage (write_tree s tree) of
                   Inl e \<Rightarrow> Some (Inl e)
                 | Inr (oid, s) \<Rightarrow>
                     (case split_path path of (parent, name) \<Rightarrow>
                        write_directories format write_tree
                          (dir_push parent \<lparr>entry_mode = ModeTree, entry_name = name, entry_id = oid\<rparr>
                            (butlast dirs)) s)))))"

definition editor_write ::
  "('s \<Rightarrow> tree \<Rightarrow> 'e + object_id \<times> 's) \<Rightarrow> tree_editor \<Rightarrow> 's \<Rightarrow>
     ('e tree_write_error + object_id \<times> 's) option" where
  "editor_write write_tree self s =
     map_option (\<lambda>result.
       and_then result (\<lambda>(dirs, s).
       and_then (map_err WriteTree (tree_new (editor_format self)
         (case om_get dirs [] of Some es \<Rightarrow> es | None \<Rightarrow> []))) (\<lambda>tree.
       map_err Storage (write_tree s tree))))
       (write_directories (editor_format self) write_tree
         (collect_directories (editor_entries self)) s)"

section \<open>Ancestors and descendants\<close>

definition below :: "bytes \<Rightarrow> bytes \<Rightarrow> bool" where
  "below path ancestor \<longleftrightarrow> starts_with path (ancestor @ [47])"

lemma below_iff: "below path ancestor \<longleftrightarrow> (\<exists>rest. path = ancestor @ 47 # rest)"
  by (auto simp add: below_def starts_with_iff)

lemma below_trans: "below a b \<Longrightarrow> below b c \<Longrightarrow> below a c"
  by (auto simp add: below_iff)

text \<open>The paths that the parent loops visit are the non-empty ancestors of a path.\<close>

lemma below_parent:
  assumes "split_path path = (parent, name)" and "a \<noteq> []"
  shows "below path a \<longleftrightarrow> a = parent \<or> below parent a"
proof (cases path rule: split_path_cases)
  case top
  with assms show ?thesis by (auto simp add: below_iff)
next
  case (nested parent' name')
  with assms(1) have p: "path = parent @ 47 # name" "47 \<notin> set name" by auto
  show ?thesis
  proof
    assume "below path a"
    then obtain rest where r: "parent @ 47 # name = a @ 47 # rest" by (auto simp add: below_iff p)
    then show "a = parent \<or> below parent a"
    proof (cases "length a < length parent")
      case True
      with r have "\<exists>us. parent = a @ us \<and> us @ 47 # name = 47 # rest"
        by (auto simp add: append_eq_append_conv2)
      then show ?thesis using True by (auto simp add: below_iff append_eq_Cons_conv)
    next
      case False
      with r have "\<exists>us. a = parent @ us \<and> 47 # name = us @ 47 # rest"
        by (auto simp add: append_eq_append_conv2)
      with p(2) show ?thesis by (auto simp add: Cons_eq_append_conv)
    qed
  next
    assume "a = parent \<or> below parent a"
    then show "below path a" by (auto simp add: below_iff p)
  qed
qed

lemma below_fst_parent: "a \<noteq> [] \<Longrightarrow> below path a \<longleftrightarrow> a = fst (split_path path) \<or> below (fst (split_path path)) a"
  using below_parent [of path "fst (split_path path)" "snd (split_path path)" a] by simp

lemma check_ancestors_from_Inr:
  "(check_ancestors_from entries ancestor :: 'e tree_write_error + unit) = Inr () \<longleftrightarrow>
     (\<forall>a v. a \<noteq> [] \<and> (a = ancestor \<or> below ancestor a) \<and> om_get entries a = Some v \<longrightarrow> value_mode v \<noteq> ModeTree)"
proof (induction entries ancestor rule: check_ancestors_from.induct)
  case (1 entries ancestor)
  show ?case
  proof (cases "ancestor = []")
    case True
    then show ?thesis by (auto simp add: check_ancestors_from.simps below_iff)
  next
    case ne: False
    show ?thesis
    proof (cases "\<exists>v. om_get entries ancestor = Some v \<and> value_mode v = ModeTree")
      case True
      with ne show ?thesis by (auto simp add: check_ancestors_from.simps [of entries ancestor])
    next
      case False
      then have c: "\<not> (case om_get entries ancestor of Some v \<Rightarrow> value_mode v = ModeTree | None \<Rightarrow> False)"
        by (auto split: option.splits)
      have "(check_ancestors_from entries ancestor :: 'e tree_write_error + unit) = check_ancestors_from entries (fst (split_path ancestor))"
        using ne c by (simp add: check_ancestors_from.simps [of entries ancestor])
      also have "(\<dots> = Inr ()) = (\<forall>a v. a \<noteq> [] \<and> below ancestor a \<and> om_get entries a = Some v \<longrightarrow> value_mode v \<noteq> ModeTree)"
        unfolding "1.IH" [OF ne c] by (simp add: below_fst_parent [of _ ancestor] cong: conj_cong)
      finally show ?thesis using False by blast
    qed
  qed
qed

lemma remove_ancestors_get:
  "om_ok entries \<Longrightarrow> om_ok (remove_ancestors entries ancestor) \<and>
     om_get (remove_ancestors entries ancestor) k =
       (if k \<noteq> [] \<and> (k = ancestor \<or> below ancestor k) then None else om_get entries k)"
proof (induction entries ancestor rule: remove_ancestors.induct)
  case (1 entries ancestor)
  show ?case
  proof (cases "ancestor = []")
    case True
    with "1.prems" show ?thesis by (auto simp add: remove_ancestors.simps below_iff)
  next
    case False
    with "1.IH" [OF False] "1.prems" show ?thesis
      using below_fst_parent [of k ancestor]
      by (auto simp add: remove_ancestors.simps [of entries ancestor] om_remove_ok om_get_remove)
  qed
qed

lemma takeWhile_eq_filter_sorted:
  "sorted_wrt (\<lambda>a b. P b \<longrightarrow> P a) xs \<Longrightarrow> takeWhile P xs = filter P xs"
  by (induction xs) (auto simp add: filter_empty_conv [symmetric] filter_False)

lemma descendants_filter:
  assumes "om_ok m"
  shows "takeWhile (\<lambda>p. starts_with (fst p) pre) (om_range_from pre m)
    = filter (\<lambda>p. starts_with (fst p) pre) m"
proof -
  let ?m = "filter (\<lambda>p. pre \<le> fst p) m"
  have "sorted_wrt (\<lambda>a b. fst a < fst b) m" using assms by (simp add: om_ok_def sorted_wrt_map)
  then have "sorted_wrt (\<lambda>a b. fst a < fst b) ?m" by (rule sorted_wrt_filter)
  then have "sorted_wrt (\<lambda>a b. starts_with (fst b) pre \<longrightarrow> starts_with (fst a) pre) ?m"
  proof (rule sorted_wrt_mono_rel [rotated])
    fix a b assume ab: "a \<in> set ?m" "b \<in> set ?m" "fst a < fst b"
    show "starts_with (fst b) pre \<longrightarrow> starts_with (fst a) pre"
    proof
      assume "starts_with (fst b) pre"
      then obtain ys where "fst b = pre @ ys" by (auto simp add: starts_with_iff)
      with ab show "starts_with (fst a) pre" by (intro between_prefix [of _ _ ys]) auto
    qed
  qed
  then have "takeWhile (\<lambda>p. starts_with (fst p) pre) ?m = filter (\<lambda>p. starts_with (fst p) pre) ?m"
    by (rule takeWhile_eq_filter_sorted)
  also have "\<dots> = filter (\<lambda>p. starts_with (fst p) pre) m"
    by (auto simp add: starts_with_iff intro!: filter_cong)
  finally show ?thesis by (simp add: om_range_from_ok [OF assms])
qed

lemma remove_subtree_get:
  assumes "om_ok (editor_entries self)"
  shows "om_ok (editor_entries (remove_subtree self path)) \<and>
    om_get (editor_entries (remove_subtree self path)) k =
      (if k = path \<or> below k path then None else om_get (editor_entries self) k)"
proof -
  let ?e = "om_remove path (editor_entries self)"
  let ?ks = "map fst (filter (\<lambda>p. starts_with (fst p) (path @ [47])) ?e)"
  have ok: "om_ok ?e" using assms by (rule om_remove_ok)
  have r: "editor_entries (remove_subtree self path) = fold om_remove ?ks ?e"
    by (simp add: remove_subtree_def Let_def descendants_filter [OF ok])
  have "k \<in> set ?ks \<longleftrightarrow> below k path \<and> om_get ?e k \<noteq> None"
    by (auto simp add: below_def om_get_Some_iff [OF ok] image_iff)
  with om.fold_remove [OF ok, of ?ks k] om_get_remove [of path "editor_entries self" k] show ?thesis
    unfolding r by auto
qed

section \<open>The invariant\<close>

definition path_ok :: "bytes \<Rightarrow> bool" where
  "path_ok path \<longleftrightarrow> (\<forall>name \<in> set (split_on 47 path). \<not> name_invalid name)"

lemma validate_components_Inr:
  "validate_components names = Inr () \<longleftrightarrow>
     (\<forall>name \<in> set names. \<not> (name = [] \<or> 0 \<in> set name \<or> name = [46] \<or> name = [46, 46]))"
  by (induction names) auto

lemma validate_path_Inr: "validate_path path = Inr () \<longleftrightarrow> path_ok path"
  using split_on_pieces [of _ 47 path]
  by (auto simp add: validate_path_def validate_components_Inr path_ok_def name_invalid_def)

text \<open>
  No path of an editor is above another one, every path has valid components, and the
  identifiers have the editor's format.
\<close>

definition editor_ok :: "tree_editor \<Rightarrow> bool" where
  "editor_ok self \<longleftrightarrow>
     om_ok (editor_entries self) \<and>
     (\<forall>path v. om_get (editor_entries self) path = Some v \<longrightarrow>
        path_ok path \<and> oid_format (value_id v) = editor_format self \<and>
        (\<forall>path' v'. om_get (editor_entries self) path' = Some v' \<longrightarrow> \<not> below path' path))"

lemma below_irrefl [simp]: "\<not> below p p"
  by (simp add: below_iff)

lemma path_ok_nonempty: "path_ok path \<Longrightarrow> path \<noteq> []"
  by (cases path) (simp_all add: path_ok_def name_invalid_def)

lemma set_entry_Inr:
  assumes "set_entry self path value = Inr self'" and "om_ok (editor_entries self)"
  shows "path_ok path" and "oid_format (value_id value) = editor_format self"
    and "editor_format self' = editor_format self" and "om_ok (editor_entries self')"
    and "om_get (editor_entries self') k =
      (if k = path then Some value
       else if below k path \<or> k \<noteq> [] \<and> below path k then None
       else om_get (editor_entries self) k)"
proof -
  let ?s = "remove_subtree self path"
  let ?e = "remove_ancestors (editor_entries ?s) (fst (split_path path))"
  from assms(1) have v: "path_ok path" "oid_format (value_id value) = editor_format self"
      and s: "self' = ?s\<lparr>editor_entries := om_insert path value ?e\<rparr>"
    by (auto simp add: set_entry_def and_then_Inr_iff validate_path_Inr require_format_def Let_def
        split: if_splits)
  note rs = remove_subtree_get [OF assms(2), of path]
  have ra: "om_ok ?e" and rg: "om_get ?e k = (if k \<noteq> [] \<and> below path k then None else om_get (editor_entries ?s) k)" for k
    using remove_ancestors_get [of "editor_entries ?s" "fst (split_path path)" k] rs
      below_fst_parent [of k path] by (auto split: if_splits)
  show "path_ok path" "oid_format (value_id value) = editor_format self" by (fact v)+
  show "editor_format self' = editor_format self" by (simp add: s remove_subtree_def Let_def)
  show "om_ok (editor_entries self')" by (simp add: s om_insert_ok ra)
  show "om_get (editor_entries self') k =
      (if k = path then Some value
       else if below k path \<or> k \<noteq> [] \<and> below path k then None
       else om_get (editor_entries self) k)"
    using rs [THEN conjunct2] by (simp add: s om_get_insert ra rg)
qed

section \<open>Properties\<close>

text \<open>
  C11: The editor's contract: setting a path on a well-formed editor keeps it well formed (no
  recorded path lies below another one, all components are valid, all identifiers have the
  store's format). The path then has the given value; what lay below it or above it is gone, and
  every other path keeps its value.
\<close>

theorem set_entry_correct:
  assumes "editor_ok self" and "set_entry self path value = Inr self'"
  shows "editor_ok self' \<and> om_get (editor_entries self') path = Some value \<and>
    (\<forall>k. k \<noteq> path \<longrightarrow> om_get (editor_entries self') k =
       (if below k path \<or> below path k then None else om_get (editor_entries self) k))"
proof -
  have ok: "om_ok (editor_entries self)" using assms(1) by (simp add: editor_ok_def)
  note s = set_entry_Inr [OF assms(2) ok]
  have ne: "om_get (editor_entries self) [] = None"
    using assms(1) path_ok_nonempty by (cases "om_get (editor_entries self) []") (auto simp add: editor_ok_def)
  have g: "om_get (editor_entries self') k =
      (if k = path then Some value
       else if below k path \<or> below path k then None else om_get (editor_entries self) k)" for k
    using s(5) [of k] ne by (cases "k = []") auto
  have "editor_ok self'"
    unfolding editor_ok_def
  proof (intro conjI allI impI)
    show "om_ok (editor_entries self')" by (fact s(4))
    fix p v assume p: "om_get (editor_entries self') p = Some v"
    show "path_ok p" and "oid_format (value_id v) = editor_format self'"
      using p s(1,2,3) assms(1) unfolding g editor_ok_def by (auto split: if_splits)
    fix p' v' assume "om_get (editor_entries self') p' = Some v'"
    then show "\<not> below p' p"
      using p assms(1) unfolding g editor_ok_def by (auto split: if_splits)
  qed
  then show ?thesis by (simp add: g)
qed

theorem set_entry_correct_witness:
  "\<exists>self'. set_entry (editor_new Sha1) [97, 47, 98]
      \<lparr>value_mode = ModeBlob, value_id = IdSha1 []\<rparr> = (Inr self' :: unit tree_write_error + tree_editor) \<and>
    om_get (editor_entries self') [97, 47, 98] = Some \<lparr>value_mode = ModeBlob, value_id = IdSha1 []\<rparr>"
proof -
  let ?v = "\<lparr>value_mode = ModeBlob, value_id = IdSha1 []\<rparr>"
  have "set_entry (editor_new Sha1) [97, 47, 98] ?v
      = (Inr \<lparr>editor_format = Sha1, editor_entries = [([97, 47, 98], ?v)]\<rparr> :: unit tree_write_error + tree_editor)"
    by code_simp
  moreover have "editor_ok (editor_new Sha1)" by (simp add: editor_ok_def editor_new_def)
  ultimately show ?thesis using set_entry_correct by blast
qed

text \<open>
  C26: Removing a path on a well-formed editor keeps it well formed and removes exactly the path
  and what lies below it. It fails only for an invalid path or when a stored subtree lies above it.
\<close>

theorem editor_remove_correct:
  assumes "editor_ok self"
  shows "(case (editor_remove self path :: 'e tree_write_error + tree_editor) of
      Inr self' \<Rightarrow> editor_ok self' \<and>
        (\<forall>k. om_get (editor_entries self') k =
           (if k = path \<or> below k path then None else om_get (editor_entries self) k))
    | Inl e \<Rightarrow> \<not> path_ok path \<or>
        (\<exists>a v. below path a \<and> om_get (editor_entries self) a = Some v \<and> value_mode v = ModeTree))"
proof (cases "editor_remove self path :: 'e tree_write_error + tree_editor")
  case (Inl e)
  have "path_ok path \<Longrightarrow> (check_ancestors self path :: 'e tree_write_error + unit) \<noteq> Inr ()"
    using Inl by (auto simp add: editor_remove_def validate_path_Inr [symmetric, where ?'a = 'e])
  moreover have "\<exists>a v. below path a \<and> om_get (editor_entries self) a = Some v \<and> value_mode v = ModeTree"
    if "(check_ancestors self path :: 'e tree_write_error + unit) \<noteq> Inr ()"
    using that below_fst_parent [of _ path]
    unfolding check_ancestors_def check_ancestors_from_Inr by metis
  ultimately show ?thesis using Inl by auto
next
  case (Inr self')
  have ok: "om_ok (editor_entries self)" using assms by (simp add: editor_ok_def)
  from Inr have s: "self' = remove_subtree self path"
    by (auto simp add: editor_remove_def and_then_Inr_iff)
  note g = remove_subtree_get [OF ok, of path]
  have f: "editor_format self' = editor_format self" by (simp add: s remove_subtree_def Let_def)
  have "editor_ok self'"
    using assms g unfolding editor_ok_def f by (auto simp add: s split: if_splits)
  with Inr g show ?thesis by (simp add: s)
qed

theorem editor_remove_correct_witness:
  "(case (editor_remove \<lparr>editor_format = Sha1, editor_entries =
        [([97, 47, 98], \<lparr>value_mode = ModeBlob, value_id = IdSha1 []\<rparr>)]\<rparr> [97]
        :: unit tree_write_error + tree_editor) of
      Inr self' \<Rightarrow> om_get (editor_entries self') [97, 47, 98] = None
    | Inl e \<Rightarrow> False)"
proof -
  let ?s = "\<lparr>editor_format = Sha1, editor_entries =
        [([97, 47, 98], \<lparr>value_mode = ModeBlob, value_id = IdSha1 []\<rparr>)]\<rparr>"
  have "editor_ok ?s"
    by (auto simp add: editor_ok_def om_get_def path_ok_def name_invalid_def below_iff split: if_splits)
  from editor_remove_correct [OF this, of "[97]", where ?'e = unit]
  have "case (editor_remove ?s [97] :: unit tree_write_error + tree_editor) of
      Inr self' \<Rightarrow> om_get (editor_entries self') [97, 47, 98] = None | Inl e \<Rightarrow> True"
    by (auto simp add: below_iff split: sum.splits)
  moreover have "\<exists>x. (editor_remove ?s [97] :: unit tree_write_error + tree_editor) = Inr x"
    by (simp add: editor_remove_def validate_path_def check_ancestors_def split_path_no_slash
        check_ancestors_from.simps)
  ultimately show ?thesis by auto
qed

lemma om_insert_key_lengths:
  "sum_list (map (length \<circ> fst) (om_insert k v m)) \<le> length k + sum_list (map (length \<circ> fst) m)"
  by (induction k v m rule: om_insert.induct) auto

lemma last_key_nonempty:
  assumes "om_ok dirs" and "1 < length dirs"
  shows "fst (last dirs) \<noteq> []"
proof -
  obtain ds d where dirs: "dirs = ds @ [d]" using assms(2) by (cases dirs rule: rev_cases) auto
  with assms(2) have ne: "ds \<noteq> []" by auto
  then have "hd ds \<in> set ds" by (rule hd_in_set)
  moreover have "\<forall>x \<in> set ds. fst x < fst d"
    using assms(1) by (auto simp add: om_ok_def dirs sorted_wrt_append)
  ultimately have "fst (hd ds) < fst d" by blast
  then show ?thesis by (auto simp add: dirs)
qed

lemma dir_push_ok: "om_ok dirs \<Longrightarrow> om_ok (dir_push path e dirs)"
  by (simp add: dir_push_def om_insert_ok)

lemma touch_ancestors_ok: "om_ok dirs \<Longrightarrow> om_ok (touch_ancestors a dirs)"
proof (induction a dirs rule: touch_ancestors.induct)
  case (1 a dirs)
  then show ?case
    by (auto simp add: touch_ancestors.simps [of a dirs] dir_touch_def om_insert_ok)
qed

lemma collect_directories_ok: "om_ok (collect_directories entries)"
proof -
  have "om_ok dirs \<Longrightarrow> om_ok (foldl (\<lambda>dirs (path, value).
       let (parent, name) = split_path path in
       touch_ancestors parent
         (dir_push parent
           \<lparr>entry_mode = value_mode value, entry_name = name, entry_id = value_id value\<rparr> dirs))
       dirs entries)" for dirs
    by (induction entries arbitrary: dirs)
       (auto simp add: split_beta Let_def touch_ancestors_ok dir_push_ok)
  then show ?thesis by (simp add: collect_directories_def)
qed

lemma write_directories_returns:
  "om_ok dirs \<Longrightarrow> \<exists>r. write_directories format write_tree dirs s = Some r"
proof (induction "sum_list (map (length \<circ> fst) dirs)" arbitrary: dirs s rule: less_induct)
  case less
  show ?case
  proof (cases "length dirs \<le> 1")
    case True
    then show ?thesis by (simp add: write_directories.simps)
  next
    case False
    obtain path es where l: "last dirs = (path, es)" by fastforce
    obtain parent name where sp: "split_path path = (parent, name)" by fastforce
    have "path \<noteq> []" using last_key_nonempty [OF less.prems] False l by simp
    with split_path_shorter [of path] sp have sh: "length parent < length path" by simp
    have b: "dirs = butlast dirs @ [(path, es)]"
      using False l append_butlast_last_id [of dirs] by fastforce
    have ok: "om_ok (butlast dirs)"
      using less.prems by (subst (asm) b) (simp add: om_ok_def sorted_wrt_append)
    have "sum_list (map (length \<circ> fst) dirs) = sum_list (map (length \<circ> fst) (butlast dirs)) + length path"
      by (subst b) simp
    then have sum: "sum_list (map (length \<circ> fst) (dir_push parent e (butlast dirs)))
        < sum_list (map (length \<circ> fst) dirs)" for e
      unfolding dir_push_def using sh by (intro le_less_trans [OF om_insert_key_lengths]) simp
    note IH = less.hyps [OF sum dir_push_ok [OF ok]]
    show ?thesis
      using False l sp IH
      by (subst write_directories.simps) (auto split: sum.splits)
  qed
qed

text \<open>
  C25: Writing a tree always returns: whatever the object store does with each tree, the loop
  that writes the directories from the bottom up ends after finitely many steps.
\<close>

theorem editor_write_terminates:
  "\<exists>result. editor_write write_tree self s = Some result"
  using write_directories_returns [OF collect_directories_ok]
  by (fastforce simp add: editor_write_def)

end
