(* ===== verification/Identity.thy ===== *)
theory Identity
  imports Object_Id
begin

text \<open>
  Identities and their dates: \<^verbatim>\<open>src/commit/identity.rs\<close> and the \<open>Signature\<close> of
  \<^verbatim>\<open>src/commit.rs\<close>. Machine integers are \<open>int\<close> with the bounds of \<^verbatim>\<open>i64\<close>, \<^verbatim>\<open>i32\<close> and
  \<^verbatim>\<open>i16\<close> written out where the code checks them; division truncates.
\<close>

section \<open>The model\<close>

datatype commit_error =
    CommitObjectFormat object_format_error
  | MissingSeparator
  | RequiredHeader
  | InvalidObjectId
  | InvalidSignature
  | InvalidDate
  | InvalidHeader

record identity_ref =
  id_name :: bytes
  id_email :: bytes
  date_bytes :: bytes

record identity_date =
  date_seconds :: int
  date_offset :: int

record signature =
  sig_name :: bytes
  sig_email :: bytes
  seconds :: int
  offset_minutes :: int

abbreviation (input) i64_min :: int where "i64_min \<equiv> - (2 ^ 63)"
abbreviation (input) i64_max :: int where "i64_max \<equiv> 2 ^ 63 - 1"
abbreviation (input) i32_min :: int where "i32_min \<equiv> - (2 ^ 31)"
abbreviation (input) i32_max :: int where "i32_max \<equiv> 2 ^ 31 - 1"
abbreviation (input) i16_min :: int where "i16_min \<equiv> - (2 ^ 15)"
abbreviation (input) i16_max :: int where "i16_max \<equiv> 2 ^ 15 - 1"

text \<open>Rust's \<^verbatim>\<open>/\<close> and \<^verbatim>\<open>%\<close> round towards zero.\<close>

definition tdiv :: "int \<Rightarrow> int \<Rightarrow> int" where
  "tdiv a b = (if a < 0 then - ((- a) div b) else a div b)"

definition tmod :: "int \<Rightarrow> int \<Rightarrow> int" where
  "tmod a b = a - tdiv a b * b"

definition checked_i32 :: "int \<Rightarrow> int option" where
  "checked_i32 v = (if i32_min \<le> v \<and> v \<le> i32_max then Some v else None)"

definition to_i16 :: "int \<Rightarrow> int option" where
  "to_i16 v = (if i16_min \<le> v \<and> v \<le> i16_max then Some v else None)"

definition is_sign :: "bytes \<Rightarrow> bool" where
  "is_sign bs \<longleftrightarrow> bs \<noteq> [] \<and> (hd bs = 43 \<or> hd bs = 45)"

definition signed_decimal :: "bytes \<Rightarrow> (bytes \<times> bytes) option" where
  "signed_decimal bytes =
     (let sign = (if is_sign bytes then 1 else 0);
          digits = length (takeWhile is_ascii_digit (drop sign bytes))
      in if 0 < digits then split_at_checked bytes (sign + digits) else None)"

definition identity_parse :: "bytes \<Rightarrow> commit_error + identity_ref" where
  "identity_parse bytes =
     and_then (ok_or InvalidSignature (split_once bytes 60)) (\<lambda>(name, rest).
     and_then (ok_or InvalidSignature (split_once rest 62)) (\<lambda>(email, date).
     Inr \<lparr>id_name = trim_ascii_end name, id_email = email, date_bytes = date\<rparr>))"

definition date_parts :: "identity_ref \<Rightarrow> commit_error + identity_date \<times> int" where
  "date_parts self =
     (let bytes = trim_ascii_start (date_bytes self) in
      and_then (ok_or InvalidDate (signed_decimal bytes)) (\<lambda>(secs, zone).
      and_then (ok_or InvalidDate (parse_int i64_min i64_max secs)) (\<lambda>secs.
      let zone = trim_ascii_start zone in
      if \<not> is_sign zone then Inl InvalidDate
      else
        and_then (ok_or InvalidDate (signed_decimal zone)) (\<lambda>(hhmm, _).
        and_then (ok_or InvalidDate (parse_int i32_min i32_max hhmm)) (\<lambda>hhmm.
        and_then (ok_or InvalidDate
          (Option.bind (checked_i32 (tdiv hhmm 100 * 60)) (\<lambda>v.
           Option.bind (checked_i32 (v + tmod hhmm 100)) to_i16))) (\<lambda>minutes.
        Inr (\<lparr>date_seconds = secs, date_offset = minutes\<rparr>, hhmm)))))))"

definition identity_ref_date :: "identity_ref \<Rightarrow> commit_error + identity_date" where
  "identity_ref_date self = and_then (date_parts self) (\<lambda>(date, _). Inr date)"

definition identity_signature :: "identity_ref \<Rightarrow> commit_error + signature" where
  "identity_signature self =
     and_then (identity_ref_date self) (\<lambda>date.
     Inr \<lparr>sig_name = id_name self, sig_email = id_email self,
          seconds = date_seconds date, offset_minutes = date_offset date\<rparr>)"

definition signature_parse :: "bytes \<Rightarrow> commit_error + signature" where
  "signature_parse bytes = and_then (identity_parse bytes) identity_signature"

definition component_invalid :: "bytes \<Rightarrow> bool" where
  "component_invalid component \<longleftrightarrow>
     component = [] \<or>
     list_ex (\<lambda>b. b = 0 \<or> b = 13 \<or> b = 10 \<or> b = 60 \<or> b = 62) component \<or>
     is_ascii_whitespace (hd component) \<or> is_ascii_whitespace (last component)"

definition signature_validate :: "signature \<Rightarrow> commit_error + unit" where
  "signature_validate self =
     (if component_invalid (sig_name self) \<or> component_invalid (sig_email self)
      then Inl InvalidSignature
      else if \<not> (- 1439 \<le> offset_minutes self \<and> offset_minutes self \<le> 1439) then Inl InvalidDate
      else Inr ())"

text \<open>\<^verbatim>\<open>{:02}\<close> of a non-negative number.\<close>

definition pad2 :: "nat \<Rightarrow> bytes" where
  "pad2 n = (if n < 10 then 48 # decimal n else decimal n)"

definition signature_encode :: "signature \<Rightarrow> bytes \<Rightarrow> bytes \<Rightarrow> bytes" where
  "signature_encode self key out =
     (let offset = nat \<bar>offset_minutes self\<bar>;
          sign = (if offset_minutes self < 0 then 45 else 43)
      in out @ key @ [32] @ sig_name self @ [32, 60] @ sig_email self @
         [62, 32] @ show_int (seconds self) @ [32, sign] @
         pad2 (offset div 60) @ pad2 (offset mod 60) @ [10])"

section \<open>Numbers\<close>

lemma pad2_digits: "n < 100 \<Longrightarrow> list_all is_ascii_digit (pad2 n) \<and> length (pad2 n) = 2"
  by (auto simp add: pad2_def ascii_class_defs decimal.simps [of n] decimal.simps [of "n div 10"]
      word_le_nat_alt unat_digit)

lemma pad2_value: "n < 100 \<Longrightarrow> digits_value v (pad2 n) = 100 * v + n"
proof -
  assume n: "n < 100"
  show ?thesis
  proof (cases "n < 10")
    case True
    then show ?thesis by (simp add: pad2_def decimal.simps [of n] unat_digit)
  next
    case False
    with n have "n div 10 < 10" by simp
    with False show ?thesis
      by (simp add: pad2_def decimal.simps [of n] decimal.simps [of "n div 10"] unat_digit
          algebra_simps)
  qed
qed

lemma takeWhile_digits:
  assumes "list_all is_ascii_digit ds" and "rest = [] \<or> \<not> is_ascii_digit (hd rest)"
  shows "takeWhile is_ascii_digit (ds @ rest) = ds"
  using assms by (induction ds) (cases rest; auto)+

lemma signed_decimal_digits:
  assumes "list_all is_ascii_digit ds" and "ds \<noteq> []" and "rest = [] \<or> \<not> is_ascii_digit (hd rest)"
    and "sign = [] \<or> sign = [43] \<or> sign = [45]"
  shows "signed_decimal (sign @ ds @ rest) = Some (sign @ ds, rest)"
proof -
  have tw: "takeWhile is_ascii_digit (ds @ rest) = ds"
    using assms(1,3) by (rule takeWhile_digits)
  have hd: "\<not> is_sign (ds @ rest)"
    using assms(1,2) digit_not_sign by (cases ds) (auto simp add: is_sign_def)
  show ?thesis
    using assms(4)
  proof (elim disjE)
    assume "sign = []"
    with hd tw assms(2) show ?thesis by (simp add: signed_decimal_def split_at_checked_def)
  next
    assume "sign = [43]"
    with tw assms(2) show ?thesis
      by (simp add: signed_decimal_def split_at_checked_def is_sign_def)
  next
    assume "sign = [45]"
    with tw assms(2) show ?thesis
      by (simp add: signed_decimal_def split_at_checked_def is_sign_def)
  qed
qed

lemma show_int_split: "show_int v = (if v < 0 then [45] else []) @ decimal (nat \<bar>v\<bar>)"
  by (simp add: show_int_def)

lemma signed_decimal_show_int:
  "rest = [] \<or> \<not> is_ascii_digit (hd rest) \<Longrightarrow> signed_decimal (show_int v @ rest) = Some (show_int v, rest)"
  using signed_decimal_digits [of "decimal (nat \<bar>v\<bar>)" rest "if v < 0 then [45] else []"]
  by (simp add: show_int_split)

lemma digit_not_ws: "is_ascii_digit b \<Longrightarrow> \<not> is_ascii_whitespace b"
  by (auto simp add: is_ascii_digit_def in_range_def is_ascii_whitespace_def)

lemma hd_show_int_not_ws: "\<not> is_ascii_whitespace (hd (show_int v @ rest))"
proof (cases "v < 0")
  case True
  then show ?thesis by (simp add: show_int_def is_ascii_whitespace_def)
next
  case False
  then show ?thesis using digit_not_ws [OF hd_decimal_digit] by (simp add: show_int_def)
qed

section \<open>Zones\<close>

text \<open>The four digits of a zone, hours then minutes, and back.\<close>

definition zone_text :: "int \<Rightarrow> bytes" where
  "zone_text offset =
     (if offset < 0 then 45 else 43) # pad2 (nat \<bar>offset\<bar> div 60) @ pad2 (nat \<bar>offset\<bar> mod 60)"

lemma parse_int_signed:
  assumes "list_all is_ascii_digit ds" and "ds \<noteq> []" and "digits_value 0 ds = v"
    and "lo \<le> - int v" and "int v \<le> hi"
  shows "parse_int lo hi ((if neg then 45 else 43) # ds) = Some ((if neg then - 1 else 1) * int v)"
  using assms by (cases neg) (simp_all add: parse_int_def Let_def)

lemma zone_value:
  assumes "\<bar>offset\<bar> \<le> 1439"
  shows "parse_int i32_min i32_max (zone_text offset) =
    Some ((if offset < 0 then - 1 else 1) * int (100 * (nat \<bar>offset\<bar> div 60) + nat \<bar>offset\<bar> mod 60))"
proof -
  have h: "nat \<bar>offset\<bar> div 60 < 100" "nat \<bar>offset\<bar> mod 60 < 100"
    using assms by (auto intro: less_trans [OF mod_less_divisor])
  let ?ds = "pad2 (nat \<bar>offset\<bar> div 60) @ pad2 (nat \<bar>offset\<bar> mod 60)"
  let ?v = "100 * (nat \<bar>offset\<bar> div 60) + nat \<bar>offset\<bar> mod 60"
  have d: "list_all is_ascii_digit ?ds"
    using pad2_digits [OF h(1)] pad2_digits [OF h(2)] by simp
  have v: "digits_value 0 ?ds = ?v"
    by (simp add: digits_value_append pad2_value h)
  have n: "?ds \<noteq> []" using pad2_digits [OF h(1)] by auto
  have b: "int ?v \<le> 10000" using h by linarith
  have r: "i32_min \<le> - 10000" "10000 \<le> i32_max" by simp_all
  show ?thesis
    unfolding zone_text_def
  proof (rule parse_int_signed [OF d n v])
    show "i32_min \<le> - int ?v" using b r(1) by (rule_tac order_trans [OF r(1)]) linarith
    show "int ?v \<le> i32_max" using b r(2) by (rule order_trans)
  qed
qed

lemma signed_decimal_zone:
  assumes "\<bar>offset\<bar> \<le> 1439"
  shows "signed_decimal (zone_text offset) = Some (zone_text offset, [])"
proof -
  have h: "nat \<bar>offset\<bar> div 60 < 100" "nat \<bar>offset\<bar> mod 60 < 100"
    using assms by (auto intro: less_trans [OF mod_less_divisor])
  have d: "list_all is_ascii_digit (pad2 (nat \<bar>offset\<bar> div 60) @ pad2 (nat \<bar>offset\<bar> mod 60))"
    using pad2_digits [OF h(1)] pad2_digits [OF h(2)] by simp
  have "pad2 (nat \<bar>offset\<bar> div 60) @ pad2 (nat \<bar>offset\<bar> mod 60) \<noteq> []" using pad2_digits [OF h(1)] by auto
  from signed_decimal_digits [OF d this, of "[]" "[if offset < 0 then 45 else 43]"] show ?thesis
    by (simp add: zone_text_def)
qed

lemma zone_minutes:
  assumes "\<bar>offset\<bar> \<le> 1439"
  defines "v \<equiv> (if offset < 0 then - 1 else 1) * int (100 * (nat \<bar>offset\<bar> div 60) + nat \<bar>offset\<bar> mod 60)"
  shows "Option.bind (checked_i32 (tdiv v 100 * 60)) (\<lambda>h. Option.bind (checked_i32 (h + tmod v 100)) to_i16)
    = Some offset"
proof -
  define h m where "h = nat \<bar>offset\<bar> div 60" and "m = nat \<bar>offset\<bar> mod 60"
  have hm: "nat \<bar>offset\<bar> = 60 * h + m" "m < 60" "h < 24" using assms(1) by (auto simp add: h_def m_def)
  have q: "int (100 * h + m) div 100 = int h" using hm(2) by simp
  show ?thesis
  proof (cases "offset < 0")
    case True
    have v: "v = - int (100 * h + m)" using True by (simp add: v_def h_def m_def)
    have o: "offset = - int (60 * h + m)" using True hm(1) by linarith
    have t: "tdiv v 100 = - int h"
    proof (cases "100 * h + m = 0")
      case False
      then have "v < 0" unfolding v by linarith
      then show ?thesis using q by (simp add: tdiv_def v)
    qed (simp add: tdiv_def v)
    then have "tmod v 100 = - int m" by (simp add: tmod_def v)
    with t hm show ?thesis by (simp add: checked_i32_def to_i16_def o)
  next
    case False
    have v: "v = int (100 * h + m)" using False by (simp add: v_def h_def m_def)
    have o: "offset = int (60 * h + m)" using False hm(1) by linarith
    have t: "tdiv v 100 = int h" using q by (simp add: tdiv_def v)
    then have "tmod v 100 = int m" by (simp add: tmod_def v)
    with t hm show ?thesis by (simp add: checked_i32_def to_i16_def o)
  qed
qed

section \<open>Signatures\<close>

definition signature_text :: "signature \<Rightarrow> bytes" where
  "signature_text self =
     sig_name self @ [32, 60] @ sig_email self @ [62, 32] @ show_int (seconds self) @ 32 #
     zone_text (offset_minutes self)"

lemma signature_encode_text:
  "signature_encode self key out = out @ key @ 32 # signature_text self @ [10]"
  by (simp add: signature_encode_def signature_text_def zone_text_def Let_def)

definition signature_ok :: "signature \<Rightarrow> bool" where
  "signature_ok self \<longleftrightarrow> signature_validate self = Inr () \<and> i64_min \<le> seconds self \<and> seconds self \<le> i64_max"

lemma signature_validate_Inr:
  "signature_validate self = Inr () \<longleftrightarrow>
     \<not> component_invalid (sig_name self) \<and> \<not> component_invalid (sig_email self) \<and>
     \<bar>offset_minutes self\<bar> \<le> 1439"
  by (auto simp add: signature_validate_def)

lemma date_parts_text:
  assumes "\<bar>offset\<bar> \<le> 1439" and "i64_min \<le> secs" and "secs \<le> i64_max"
    and "date_bytes r = 32 # show_int secs @ 32 # zone_text offset"
  shows "identity_ref_date r = Inr \<lparr>date_seconds = secs, date_offset = offset\<rparr>"
proof -
  have 1: "trim_ascii_start (date_bytes r) = show_int secs @ 32 # zone_text offset"
    using hd_show_int_not_ws [of secs "32 # zone_text offset"]
    by (simp add: assms(4) trim_ascii_start_Cons_ws trim_ascii_start_no_ws is_ascii_whitespace_def)
  have 2: "signed_decimal (show_int secs @ 32 # zone_text offset) = Some (show_int secs, 32 # zone_text offset)"
    by (rule signed_decimal_show_int) (simp add: ascii_class_defs)
  have 3: "trim_ascii_start (32 # zone_text offset) = zone_text offset"
    by (simp add: trim_ascii_start_def is_ascii_whitespace_def zone_text_def)
  have 4: "is_sign (zone_text offset)" by (simp add: is_sign_def zone_text_def)
  show ?thesis
    unfolding identity_ref_date_def date_parts_def Let_def 1
    by (simp only: 2 3 4 signed_decimal_zone [OF assms(1)] zone_value [OF assms(1)] ok_or_simps
        and_then_simps prod.case zone_minutes [OF assms(1)] parse_int_show_int [OF assms(2,3)]
        not_True_eq_False if_False)
qed

lemma signature_parse_text:
  assumes "signature_ok self"
  shows "signature_parse (signature_text self) = Inr self"
proof -
  have v: "\<not> component_invalid (sig_name self)" "\<not> component_invalid (sig_email self)"
    "\<bar>offset_minutes self\<bar> \<le> 1439" "i64_min \<le> seconds self" "seconds self \<le> i64_max"
    using assms by (simp_all add: signature_ok_def signature_validate_Inr)
  let ?date = "32 # show_int (seconds self) @ 32 # zone_text (offset_minutes self)"
  have n: "60 \<notin> set (sig_name self @ [32])" and e: "62 \<notin> set (sig_email self)"
    using v(1,2) by (auto simp add: component_invalid_def list_ex_iff)
  have 1: "split_once (signature_text self) 60 = Some (sig_name self @ [32], sig_email self @ 62 # ?date)"
    using split_once_append [OF n] by (simp add: signature_text_def)
  have 2: "split_once (sig_email self @ 62 # ?date) 62 = Some (sig_email self, ?date)"
    using e by (rule split_once_append)
  have 3: "trim_ascii_end (sig_name self @ [32]) = sig_name self"
    using v(1) by (simp add: trim_ascii_end_snoc_ws trim_ascii_end_no_ws is_ascii_whitespace_def
        component_invalid_def)
  have "identity_parse (signature_text self)
      = Inr \<lparr>id_name = sig_name self, id_email = sig_email self, date_bytes = ?date\<rparr>"
    by (simp add: identity_parse_def 1 2 3)
  then show ?thesis
    by (simp add: signature_parse_def identity_signature_def date_parts_text [OF v(3-5)])
qed

text \<open>
  C34: A signature that passes validation is read back from its encoding unchanged, for every
  64-bit time, negative ones included, and every zone within a day.
\<close>

theorem signature_round_trip:
  assumes "signature_validate self = Inr ()" and "i64_min \<le> seconds self" and "seconds self \<le> i64_max"
  shows "\<exists>text. signature_encode self key out = out @ key @ 32 # text @ [10] \<and>
    signature_parse text = Inr self"
  using signature_encode_text signature_parse_text assms by (auto simp add: signature_ok_def)

theorem signature_round_trip_witness:
  "\<exists>text. signature_encode \<lparr>sig_name = [65], sig_email = [66], seconds = - 5, offset_minutes = - 90\<rparr>
      [97] [] = [] @ [97] @ 32 # text @ [10] \<and>
    signature_parse text = Inr \<lparr>sig_name = [65], sig_email = [66], seconds = - 5, offset_minutes = - 90\<rparr>"
  by (rule signature_round_trip)
     (simp_all add: signature_validate_Inr component_invalid_def is_ascii_whitespace_def)

end
