(* ===== verification/Lines.thy ===== *)
theory Lines
  imports Prelude
begin

text \<open>
  Text made of lines, shared by the readers of commits, tags, packed refs and configuration: the
  two ways Rust splits it, and the text a list of lines makes.
\<close>

definition line_block :: "bytes list \<Rightarrow> bytes" where
  "line_block lines = concat (map (\<lambda>l. l @ [10]) lines)"

fun join_lines :: "bytes list \<Rightarrow> bytes" where
  "join_lines [] = []"
| "join_lines [l] = l"
| "join_lines (l # ls) = l @ 10 # join_lines ls"

definition plain_line :: "bytes \<Rightarrow> bool" where
  "plain_line l \<longleftrightarrow> 10 \<notin> set l"

lemma line_block_simps [simp]:
  "line_block [] = []"
  "line_block (l # ls) = l @ 10 # line_block ls"
  "line_block (xs @ ys) = line_block xs @ line_block ys"
  by (simp_all add: line_block_def)

lemma line_block_join: "ls \<noteq> [] \<Longrightarrow> line_block ls = join_lines ls @ [10]"
  by (induction ls rule: join_lines.induct) auto

lemma join_lines_Cons: "ls \<noteq> [] \<Longrightarrow> join_lines (l # ls) = l @ 10 # join_lines ls"
  by (cases ls) auto

lemma join_lines_value: "join_lines (l # ls) = l @ concat (map ((#) 10) ls)"
  by (induction ls arbitrary: l) auto

lemma join_split_on: "join_lines (split_on 10 xs) = xs"
proof (induction xs)
  case (Cons x xs)
  obtain l ls where s: "split_on 10 xs = l # ls" by (cases "split_on 10 xs") auto
  with Cons show ?case by (cases ls) auto
qed simp

lemma split_on_join:
  "ls \<noteq> [] \<Longrightarrow> \<forall>l \<in> set ls. plain_line l \<Longrightarrow> split_on 10 (join_lines ls) = ls"
  by (induction ls rule: join_lines.induct)
     (simp_all add: split_on_no_sep split_on_append_sep plain_line_def)

lemma split_inclusive_block:
  "\<forall>l \<in> set ls. plain_line l \<Longrightarrow>
     split_inclusive 10 (line_block ls @ rest) = map (\<lambda>l. l @ [10]) ls @ split_inclusive 10 rest"
  by (induction ls) (simp_all add: plain_line_def split_inclusive_append_sep)

lemma plain_line_split_on: "l \<in> set (split_on 10 xs) \<Longrightarrow> plain_line l"
  by (simp add: plain_line_def split_on_pieces)

end
