(* ===== verification/Commit_Object.thy ===== *)
theory Commit_Object
  imports Identity Lines
begin

text \<open>
  \<^verbatim>\<open>src/commit.rs\<close>: commit objects. A commit keeps the payload it was read from and the offset
  at which its headers end; the graph edges are read by a fixed-width scan when the payload has
  the usual shape and line by line otherwise.
\<close>

section \<open>The model\<close>

record commit =
  commit_tree :: object_id
  commit_parents :: "object_id list"
  commit_payload :: bytes
  commit_header_end :: nat

record commit_header =
  header_name :: bytes
  header_value :: bytes

record commit_fields =
  fields_tree :: object_id
  fields_parents :: "object_id list"
  fields_author :: signature
  fields_committer :: signature
  extra_headers :: "commit_header list"
  fields_message :: bytes

definition standard_name :: "bytes \<Rightarrow> bool" where
  "standard_name name \<longleftrightarrow>
     name = ascii ''tree'' \<or> name = ascii ''parent'' \<or> name = ascii ''author'' \<or>
     name = ascii ''committer''"

definition validate_header_name :: "bytes \<Rightarrow> commit_error + unit" where
  "validate_header_name name =
     (if name = [] \<or> \<not> list_all (\<lambda>b. 33 \<le> b \<and> b \<le> 126) name \<or> standard_name name
      then Inl InvalidHeader else Inr ())"

fun validate_parents :: "object_format \<Rightarrow> object_id list \<Rightarrow> commit_error + unit" where
  "validate_parents format [] = Inr ()"
| "validate_parents format (parent # parents) =
     and_then (map_err CommitObjectFormat (require_format parent format)) (\<lambda>_.
     validate_parents format parents)"

fun validate_headers :: "commit_header list \<Rightarrow> commit_error + unit" where
  "validate_headers [] = Inr ()"
| "validate_headers (header # headers) =
     and_then (validate_header_name (header_name header)) (\<lambda>_.
     if 0 \<in> set (header_value header) \<or> 13 \<in> set (header_value header) then Inl InvalidHeader
     else validate_headers headers)"

definition fields_validate :: "commit_fields \<Rightarrow> commit_error + unit" where
  "fields_validate self =
     and_then (validate_parents (oid_format (fields_tree self)) (fields_parents self)) (\<lambda>_.
     and_then (signature_validate (fields_author self)) (\<lambda>_.
     and_then (signature_validate (fields_committer self)) (\<lambda>_.
     validate_headers (extra_headers self))))"

text \<open>The value of an extra header: continuation lines start with a space.\<close>

definition fold_value :: "bytes \<Rightarrow> bytes" where
  "fold_value value =
     concat (map (\<lambda>(index, line). (if index \<noteq> 0 then [10, 32] else []) @ line)
       (enumerate 0 (split_on 10 value)))"

definition encode_header :: "commit_header \<Rightarrow> bytes" where
  "encode_header header = header_name header @ 32 # fold_value (header_value header) @ [10]"

definition encode_fields :: "commit_fields \<Rightarrow> bytes" where
  "encode_fields fs =
     (let payload = ascii ''tree '' @ oid_to_string (fields_tree fs) @ [10];
          payload = payload @ concat (map (\<lambda>parent. ascii ''parent '' @ oid_to_string parent @ [10])
            (fields_parents fs));
          payload = signature_encode (fields_author fs) (ascii ''author'') payload;
          payload = signature_encode (fields_committer fs) (ascii ''committer'') payload
      in payload @ concat (map encode_header (extra_headers fs)) @ 10 # fields_message fs)"

function header_end_from :: "bytes \<Rightarrow> nat \<Rightarrow> nat" where
  "header_end_from payload start =
     (case get_from payload start of
        None \<Rightarrow> length payload
      | Some rest \<Rightarrow>
          (case position (\<lambda>b. b = 10) rest of
             None \<Rightarrow> length payload
           | Some newline \<Rightarrow>
               if get_at payload (start + newline + 1) = Some 10 then start + newline
               else header_end_from payload (start + newline + 1)))"
  by pat_completeness auto
termination
  by (relation "measure (\<lambda>(payload, start). length payload - start)")
     (auto simp add: get_from_def position_Some_iff split: if_splits)

declare header_end_from.simps [simp del]

definition header_end :: "bytes \<Rightarrow> nat" where
  "header_end payload = header_end_from payload 0"

definition commit_new :: "commit_fields \<Rightarrow> commit_error + commit" where
  "commit_new fs =
     and_then (fields_validate fs) (\<lambda>_.
     let payload = encode_fields fs in
     Inr \<lparr>commit_tree = fields_tree fs, commit_parents = fields_parents fs,
          commit_payload = payload, commit_header_end = header_end payload\<rparr>)"

definition parse_id :: "object_format \<Rightarrow> bytes \<Rightarrow> commit_error + object_id" where
  "parse_id format value =
     (if length value \<noteq> digest_len format * 2 then Inl InvalidObjectId
      else map_err (\<lambda>_. InvalidObjectId) (from_str value))"

definition required_line :: "bytes option \<Rightarrow> bytes \<Rightarrow> commit_error + bytes" where
  "required_line line prefix =
     ok_or RequiredHeader (Option.bind line (\<lambda>line. strip_prefix line prefix))"

text \<open>The closure \<^verbatim>\<open>record\<close> of \<^verbatim>\<open>fixed_width_graph\<close>.\<close>

definition graph_record :: "object_format \<Rightarrow> bytes \<Rightarrow> bytes \<Rightarrow> object_id option" where
  "graph_record format rest prefix =
     (let width = digest_len format * 2 in
      Option.bind (strip_prefix rest prefix) (\<lambda>oid.
      if get_at oid width \<noteq> Some 10 then None
      else Option.bind (get_to oid width) (\<lambda>digits. ok (parse_id format digits))))"

function graph_parents :: "object_format \<Rightarrow> bytes \<Rightarrow> (object_id list \<times> bytes) option" where
  "graph_parents format rest =
     (let width = digest_len format * 2 in
      if width + 8 \<le> length rest \<and> starts_with rest (ascii ''parent '') then
        Option.bind (graph_record format rest (ascii ''parent '')) (\<lambda>parent.
        Option.bind (get_from rest (7 + width + 1)) (\<lambda>rest.
        Option.bind (graph_parents format rest) (\<lambda>(parents, rest).
        Some (parent # parents, rest))))
      else Some ([], rest))"
  by pat_completeness auto
termination
  by (relation "measure (\<lambda>(format, rest). length rest)")
     (auto simp add: get_from_def split: if_splits)

declare graph_parents.simps [simp del]

definition fixed_width_graph ::
  "object_format \<Rightarrow> bytes \<Rightarrow> (object_id \<times> object_id list) option" where
  "fixed_width_graph format payload =
     (let width = digest_len format * 2 in
      Option.bind (graph_record format payload (ascii ''tree '')) (\<lambda>tree.
      Option.bind (get_from payload (5 + width + 1)) (\<lambda>rest.
      Option.bind (graph_parents format rest) (\<lambda>(parents, rest).
      if rest \<noteq> [] then Some (tree, parents) else None))))"

fun parent_lines ::
  "object_format \<Rightarrow> nat \<Rightarrow> bytes list \<Rightarrow> commit_error + object_id list \<times> bytes list" where
  "parent_lines format remaining [] = Inr ([], [])"
| "parent_lines format remaining (line # lines) =
     (if digest_len format * 2 + 8 \<le> remaining \<and> starts_with line (ascii ''parent '') then
        and_then (required_line (strip_suffix line [10]) (ascii ''parent '')) (\<lambda>digits.
        and_then (parse_id format digits) (\<lambda>parent.
        and_then (parent_lines format (remaining - length line) lines) (\<lambda>(parents, lines).
        Inr (parent # parents, lines))))
      else Inr ([], line # lines))"

text \<open>The part of \<^verbatim>\<open>parse_graph\<close> after the fixed-width scan has given up.\<close>

definition parse_graph_lines ::
  "object_format \<Rightarrow> bytes \<Rightarrow> commit_error + object_id \<times> object_id list" where
  "parse_graph_lines format payload =
     (case split_inclusive 10 payload of
        [] \<Rightarrow> Inl RequiredHeader
      | first # lines \<Rightarrow>
          and_then (required_line (strip_suffix first [10]) (ascii ''tree '')) (\<lambda>digits.
          and_then (parse_id format digits) (\<lambda>tree.
          and_then (parent_lines format (length payload - length first) lines) (\<lambda>(parents, lines).
          if lines = [] then Inl RequiredHeader else Inr (tree, parents)))))"

definition parse_graph ::
  "object_format \<Rightarrow> bytes \<Rightarrow> commit_error + object_id \<times> object_id list" where
  "parse_graph format payload =
     (case fixed_width_graph format payload of
        Some graph \<Rightarrow> Inr graph
      | None \<Rightarrow> parse_graph_lines format payload)"

definition commit_parse :: "object_format \<Rightarrow> bytes \<Rightarrow> commit_error + commit" where
  "commit_parse format payload =
     and_then (parse_graph format payload) (\<lambda>(tree, parents).
     Inr \<lparr>commit_tree = tree, commit_parents = parents, commit_payload = payload,
          commit_header_end = header_end payload\<rparr>)"

definition header_bytes :: "commit \<Rightarrow> bytes" where
  "header_bytes self =
     (case get_to (commit_payload self) (commit_header_end self) of Some bs \<Rightarrow> bs | None \<Rightarrow> [])"

definition commit_message :: "commit \<Rightarrow> bytes" where
  "commit_message self =
     (case get_from (commit_payload self) (commit_header_end self + 2) of Some bs \<Rightarrow> bs | None \<Rightarrow> [])"

definition commit_person :: "commit \<Rightarrow> bytes \<Rightarrow> commit_error + identity_ref option" where
  "commit_person self prefix =
     (case List.map_filter (\<lambda>line. strip_prefix line prefix) (split_on 10 (header_bytes self)) of
        [] \<Rightarrow> Inr None
      | found \<Rightarrow> and_then (identity_parse (last found)) (\<lambda>identity. Inr (Some identity)))"

definition commit_author :: "commit \<Rightarrow> commit_error + identity_ref option" where
  "commit_author self = commit_person self (ascii ''author '')"

definition commit_committer :: "commit \<Rightarrow> commit_error + identity_ref option" where
  "commit_committer self = commit_person self (ascii ''committer '')"

text \<open>One line of the loop in \<^verbatim>\<open>to_fields\<close>; the flag says whether a continuation counts.\<close>

definition field_line ::
  "bytes \<Rightarrow> commit_header list \<times> bool \<Rightarrow> commit_error + commit_header list \<times> bool" where
  "field_line line st =
     (case st of (headers, continue_extra) \<Rightarrow>
        if line = [] then Inr (headers, continue_extra)
        else
          (case strip_prefix line [32] of
             Some value \<Rightarrow>
               if headers \<noteq> [] \<and> continue_extra
               then Inr (butlast headers @ [(last headers)\<lparr>header_value :=
                      header_value (last headers) @ 10 # value\<rparr>], continue_extra)
               else Inr (headers, continue_extra)
           | None \<Rightarrow>
               and_then (ok_or InvalidHeader (split_once line 32)) (\<lambda>(name, value).
               if standard_name name then Inr (headers, False)
               else Inr (headers @ [\<lparr>header_name = name, header_value = value\<rparr>], True))))"

fun field_lines ::
  "bytes list \<Rightarrow> commit_header list \<times> bool \<Rightarrow> commit_error + commit_header list \<times> bool" where
  "field_lines [] st = Inr st"
| "field_lines (line # lines) st = and_then (field_line line st) (field_lines lines)"

definition to_fields :: "commit \<Rightarrow> commit_error + commit_fields" where
  "to_fields self =
     and_then (commit_author self) (\<lambda>author.
     and_then (ok_or RequiredHeader author) (\<lambda>author.
     and_then (identity_signature author) (\<lambda>author.
     and_then (commit_committer self) (\<lambda>committer.
     and_then (ok_or RequiredHeader committer) (\<lambda>committer.
     and_then (identity_signature committer) (\<lambda>committer.
     and_then (field_lines (split_on 10 (header_bytes self)) ([], False)) (\<lambda>(headers, _).
     Inr \<lparr>fields_tree = commit_tree self, fields_parents = commit_parents self,
          fields_author = author, fields_committer = committer,
          extra_headers = headers, fields_message = commit_message self\<rparr>)))))))"

definition commit_validate :: "commit \<Rightarrow> commit_error + unit" where
  "commit_validate self = and_then (to_fields self) fields_validate"

text \<open>The loop of \<^verbatim>\<open>subject\<close> over the lines after the leading blank ones.\<close>

fun subject_lines :: "bytes list \<Rightarrow> bytes \<Rightarrow> bytes" where
  "subject_lines [] subject = subject"
| "subject_lines (line # lines) subject =
     (if line = [] then subject
      else subject_lines lines ((if subject \<noteq> [] then subject @ [32] else subject) @ line))"

definition commit_subject :: "commit \<Rightarrow> bytes" where
  "commit_subject self =
     subject_lines
       (dropWhile (\<lambda>line. line = []) (map trim_ascii_end (split_on 10 (commit_message self)))) []"

definition commit_encode :: "commit \<Rightarrow> bytes" where
  "commit_encode self = commit_payload self"

definition commit_id :: "(bytes \<Rightarrow> bytes) \<Rightarrow> (bytes \<Rightarrow> bytes) \<Rightarrow> commit \<Rightarrow> object_id" where
  "commit_id sha1 sha256 self =
     hash_object sha1 sha256 (oid_format (commit_tree self)) Commit (commit_payload self)"

section \<open>The fixed-width scan\<close>

lemma from_str_hexdigits: "from_str v = Inr oid \<Longrightarrow> list_all is_ascii_hexdigit v"
  using hex_pairs_Inr by (auto simp add: from_str_def and_then_Inr_iff split: if_splits)

lemma hexdigit_not_newline: "list_all is_ascii_hexdigit v \<Longrightarrow> 10 \<notin> set v"
  by (auto simp add: list_all_iff ascii_class_defs)

lemma parse_id_Inr:
  assumes "parse_id format v = Inr oid"
  shows "length v = digest_len format * 2" and "10 \<notin> set v" and "from_str v = Inr oid"
  using assms from_str_hexdigits hexdigit_not_newline
  by (auto simp add: parse_id_def split: if_splits)

lemma parse_id_to_string:
  "oid_wf oid \<Longrightarrow> oid_format oid = format \<Longrightarrow> parse_id format (oid_to_string oid) = Inr oid"
  by (auto simp add: parse_id_def length_oid_to_string from_str_to_string)

lemma graph_record_Some:
  assumes "graph_record format rest prefix = Some oid"
  obtains ds r where "rest = prefix @ ds @ 10 # r" and "length ds = digest_len format * 2"
    and "10 \<notin> set ds" and "parse_id format ds = Inr oid"
proof -
  from assms obtain line ds where l: "rest = prefix @ line"
    and nl: "get_at line (digest_len format * 2) = Some 10"
    and d: "get_to line (digest_len format * 2) = Some ds" and i: "parse_id format ds = Inr oid"
    by (auto simp add: graph_record_def Let_def bind_eq_Some_conv strip_prefix_Some_iff
        split: if_splits)
  have "line = ds @ 10 # drop (Suc (digest_len format * 2)) line"
    using nl d id_take_nth_drop [of "digest_len format * 2" line]
    by (auto simp add: get_at_def get_to_def split: if_splits)
  with l i that parse_id_Inr [OF i] show thesis by metis
qed

lemma first_line_prefix:
  assumes "split_inclusive d xs = line # lines" and "starts_with line p"
  shows "starts_with xs p"
proof -
  have "xs = line @ concat lines" using concat_split_inclusive [of d xs] assms(1) by simp
  with assms(2) show ?thesis by (auto simp add: starts_with_iff)
qed

lemma record_line:
  assumes "parse_id format ds = Inr oid" and "10 \<notin> set prefix"
  shows "split_inclusive 10 (prefix @ ds @ 10 # r) = (prefix @ ds @ [10]) # split_inclusive 10 r"
    and "required_line (strip_suffix (prefix @ ds @ [10]) [10]) prefix = Inr ds"
proof -
  have "10 \<notin> set (prefix @ ds)" using assms parse_id_Inr(2) by auto
  from split_inclusive_append_sep [OF this, of r]
  show "split_inclusive 10 (prefix @ ds @ 10 # r) = (prefix @ ds @ [10]) # split_inclusive 10 r"
    by simp
  have "strip_suffix (prefix @ ds @ [10]) [10] = Some (prefix @ ds)"
    by (simp add: strip_suffix_Some_iff)
  then show "required_line (strip_suffix (prefix @ ds @ [10]) [10]) prefix = Inr ds"
    by (simp add: required_line_def strip_prefix_def)
qed

lemma newline_notin_names [simp]: "10 \<notin> set (ascii ''tree '')" "10 \<notin> set (ascii ''parent '')"
  by (simp_all add: ascii_def)

lemma length_names [simp]: "length (ascii ''tree '') = 5" "length (ascii ''parent '') = 7"
  by (simp_all add: ascii_def)

lemma graph_parents_lines:
  "graph_parents format rest = Some (parents, rest') \<Longrightarrow>
     parent_lines format (length rest) (split_inclusive 10 rest) = Inr (parents, split_inclusive 10 rest')"
proof (induction format rest arbitrary: parents rule: graph_parents.induct)
  case (1 format rest)
  let ?w = "digest_len format * 2"
  show ?case
  proof (cases "?w + 8 \<le> length rest \<and> starts_with rest (ascii ''parent '')")
    case True
    with "1.prems" obtain parent r ps where
        rec: "graph_record format rest (ascii ''parent '') = Some parent"
      and r: "get_from rest (7 + ?w + 1) = Some r" and g: "graph_parents format r = Some (ps, rest')"
      and p: "parents = parent # ps"
      by (subst (asm) graph_parents.simps) (auto simp add: Let_def bind_eq_Some_conv)
    from rec obtain ds r' where d: "rest = ascii ''parent '' @ ds @ 10 # r'"
      "length ds = ?w" "10 \<notin> set ds" "parse_id format ds = Inr parent"
      by (rule graph_record_Some)
    have r': "r = r'" using r d(1,2) by (simp add: get_from_def)
    have "parent_lines format (length r) (split_inclusive 10 r) = Inr (ps, split_inclusive 10 rest')"
      using "1.IH" [OF refl True rec r g] .
    with d p r' show ?thesis by (simp add: record_line [OF d(4)])
  next
    case False
    then have e: "parents = []" "rest' = rest"
      using "1.prems" by (subst (asm) graph_parents.simps, simp add: Let_def)+
    show ?thesis
    proof (cases "split_inclusive 10 rest")
      case Nil
      with e show ?thesis by simp
    next
      case (Cons line lines)
      with False first_line_prefix [OF Cons] e show ?thesis by auto
    qed
  qed
qed

lemma parse_graph_fast:
  assumes "fixed_width_graph format payload = Some g"
  shows "parse_graph_lines format payload = Inr g"
proof -
  let ?w = "digest_len format * 2"
  from assms obtain tree r parents rest where
      rec: "graph_record format payload (ascii ''tree '') = Some tree"
    and r: "get_from payload (5 + ?w + 1) = Some r"
    and gp: "graph_parents format r = Some (parents, rest)" and ne: "rest \<noteq> []" and g: "g = (tree, parents)"
    by (auto simp add: fixed_width_graph_def Let_def bind_eq_Some_conv split: if_splits)
  from rec obtain ds r' where d: "payload = ascii ''tree '' @ ds @ 10 # r'"
    "length ds = ?w" "10 \<notin> set ds" "parse_id format ds = Inr tree"
    by (rule graph_record_Some)
  have r': "r = r'" using r d(1,2) by (simp add: get_from_def)
  show ?thesis
    using graph_parents_lines [OF gp] ne
    by (simp add: parse_graph_lines_def d(1,4) record_line [OF d(4)] r' g)
qed

text \<open>
  C33: The fixed-width scan of a commit's edges is only a shortcut: whenever it answers, the
  line-by-line reader gives the same tree and parents, so the result of reading the graph does
  not depend on it.
\<close>

theorem parse_graph_eq_lines: "parse_graph format payload = parse_graph_lines format payload"
  using parse_graph_fast by (auto simp add: parse_graph_def split: option.splits)

section \<open>The header block\<close>

lemma header_end_from_block:
  assumes "ls \<noteq> []" and "\<forall>l \<in> set ls. plain_line l \<and> l \<noteq> []"
  shows "header_end_from (pre @ join_lines ls @ 10 # 10 # msg) (length pre) = length pre + length (join_lines ls)"
  using assms
proof (induction ls arbitrary: pre)
  case (Cons l ls)
  have l: "10 \<notin> set l" using Cons.prems by (simp add: plain_line_def)
  let ?rest = "if ls = [] then 10 # msg else join_lines ls @ 10 # 10 # msg"
  have e: "pre @ join_lines (l # ls) @ 10 # 10 # msg = pre @ l @ 10 # ?rest"
    by (simp add: join_lines_Cons)
  have pos: "position (\<lambda>b. b = 10) (l @ 10 # ?rest) = Some (length l)"
    using l by (intro position_append_first) auto
  have step: "header_end_from (pre @ l @ 10 # ?rest) (length pre) =
      (if ?rest \<noteq> [] \<and> hd ?rest = 10 then length pre + length l
       else header_end_from (pre @ l @ 10 # ?rest) (length pre + length l + 1))"
    by (subst header_end_from.simps) (simp add: get_from_def get_at_def pos nth_append hd_conv_nth)
  show ?case
  proof (cases "ls = []")
    case True
    with step e show ?thesis by simp
  next
    case False
    then obtain l2 ls2 where ls: "ls = l2 # ls2" by (cases ls) auto
    have ne: "l2 \<noteq> []" "10 \<notin> set l2" using Cons.prems ls by (auto simp add: plain_line_def)
    have hd: "hd (join_lines ls @ 10 # 10 # msg) \<noteq> 10"
      using ne by (cases ls2; cases l2) (auto simp add: ls)
    have "header_end_from ((pre @ l @ [10]) @ join_lines ls @ 10 # 10 # msg) (length (pre @ l @ [10]))
        = length (pre @ l @ [10]) + length (join_lines ls)"
      using Cons.prems False by (intro Cons.IH) auto
    with False hd step e show ?thesis by (simp add: join_lines_Cons)
  qed
qed simp

lemma header_end_block:
  assumes "ls \<noteq> []" and "\<forall>l \<in> set ls. plain_line l \<and> l \<noteq> []"
  shows "header_end (line_block ls @ 10 # msg) = length (join_lines ls)"
  using header_end_from_block [OF assms, of "[]" msg] assms(1)
  by (simp add: header_end_def line_block_join)

definition header_lines :: "commit_header \<Rightarrow> bytes list" where
  "header_lines h =
     (case split_on 10 (header_value h) of
        l # ls \<Rightarrow> (header_name h @ 32 # l) # map ((#) 32) ls
      | [] \<Rightarrow> [])"

lemma encode_header_lines: "encode_header h = line_block (header_lines h)"
proof -
  obtain l ls where s: "split_on 10 (header_value h) = l # ls"
    by (cases "split_on 10 (header_value h)") auto
  have "0 < k \<Longrightarrow> concat (map (\<lambda>(index, line). (if index \<noteq> 0 then [10, 32] else []) @ line) (enumerate k ls)) @ [10]
      = 10 # line_block (map ((#) 32) ls)" for k :: nat and ls :: "bytes list"
    by (induction ls arbitrary: k) auto
  from this [of 1 ls] show ?thesis
    by (simp add: encode_header_def fold_value_def header_lines_def s)
qed

definition fields_lines :: "commit_fields \<Rightarrow> bytes list" where
  "fields_lines fs =
     (ascii ''tree '' @ oid_to_string (fields_tree fs)) #
     map (\<lambda>p. ascii ''parent '' @ oid_to_string p) (fields_parents fs) @
     [ascii ''author '' @ signature_text (fields_author fs),
      ascii ''committer '' @ signature_text (fields_committer fs)] @
     concat (map header_lines (extra_headers fs))"

lemma line_block_concat: "line_block (concat lss) = concat (map line_block lss)"
  by (induction lss) simp_all

lemma encode_fields_lines: "encode_fields fs = line_block (fields_lines fs) @ 10 # fields_message fs"
proof -
  have "concat (map (\<lambda>p. ascii ''parent '' @ oid_to_string p @ [10]) ps)
      = line_block (map (\<lambda>p. ascii ''parent '' @ oid_to_string p) ps)" for ps
    by (induction ps) simp_all
  moreover have "ascii ''author '' = ascii ''author'' @ [32]" "ascii ''committer '' = ascii ''committer'' @ [32]"
    by (simp_all add: ascii_def)
  moreover have "encode_header = (\<lambda>h. line_block (header_lines h))"
    by (rule ext) (rule encode_header_lines)
  ultimately show ?thesis
    by (simp add: encode_fields_def fields_lines_def signature_encode_text
        line_block_concat comp_def Let_def)
qed

section \<open>Well-formed fields\<close>

definition header_ok :: "commit_header \<Rightarrow> bool" where
  "header_ok h \<longleftrightarrow>
     header_name h \<noteq> [] \<and> 32 \<notin> set (header_name h) \<and> 10 \<notin> set (header_name h) \<and>
     \<not> standard_name (header_name h)"

lemma validate_headers_Inr:
  "validate_headers hs = Inr () \<Longrightarrow> \<forall>h \<in> set hs. header_ok h"
  by (induction hs)
     (auto simp add: and_then_Inr_iff validate_header_name_def header_ok_def list_all_iff split: if_splits)

lemma validate_parents_Inr:
  "validate_parents format ps = Inr () \<longleftrightarrow> (\<forall>p \<in> set ps. oid_format p = format)"
  by (induction ps) (auto simp add: and_then_Inr_iff require_format_def)

text \<open>
  What the types of the fields guarantee: identifiers of the digest length, and times in 64 bits.
\<close>

definition fields_typed :: "commit_fields \<Rightarrow> bool" where
  "fields_typed fs \<longleftrightarrow>
     oid_wf (fields_tree fs) \<and> (\<forall>p \<in> set (fields_parents fs). oid_wf p) \<and>
     (\<forall>s \<in> {fields_author fs, fields_committer fs}. i64_min \<le> seconds s \<and> seconds s \<le> i64_max)"

lemma plain_append [simp]: "plain_line (xs @ ys) \<longleftrightarrow> plain_line xs \<and> plain_line ys"
  by (simp add: plain_line_def)

lemma plain_Cons [simp]: "plain_line (x # xs) \<longleftrightarrow> x \<noteq> 10 \<and> plain_line xs"
  by (auto simp add: plain_line_def)

lemma plain_Nil [simp]: "plain_line []"
  by (simp add: plain_line_def)

lemma plain_digits: "list_all is_ascii_digit ds \<Longrightarrow> plain_line ds"
  by (auto simp add: plain_line_def list_all_iff ascii_class_defs)

lemma plain_show_int [simp]: "plain_line (show_int v)"
  by (simp add: show_int_def plain_digits)

lemma plain_zone_text: "\<bar>offset\<bar> \<le> 1439 \<Longrightarrow> plain_line (zone_text offset)"
proof -
  assume "\<bar>offset\<bar> \<le> 1439"
  then have "nat \<bar>offset\<bar> div 60 < 100" "nat \<bar>offset\<bar> mod 60 < 100"
    by (auto intro: less_trans [OF mod_less_divisor])
  then show ?thesis using pad2_digits plain_digits by (simp add: zone_text_def)
qed

lemma plain_component: "\<not> component_invalid c \<Longrightarrow> plain_line c"
  by (auto simp add: component_invalid_def plain_line_def list_ex_iff)

lemma plain_signature_text: "signature_ok s \<Longrightarrow> plain_line (signature_text s)"
  by (simp add: signature_ok_def signature_validate_Inr signature_text_def plain_component plain_zone_text)

lemma plain_hex: "plain_line (oid_to_string oid)"
proof -
  have "list_all is_ascii_hexdigit (oid_to_string oid)"
    by (simp add: oid_to_string_def list_all_hex2)
  then show ?thesis by (simp add: plain_line_def hexdigit_not_newline)
qed

definition fields_ok :: "commit_fields \<Rightarrow> bool" where
  "fields_ok fs \<longleftrightarrow>
     oid_wf (fields_tree fs) \<and>
     (\<forall>p \<in> set (fields_parents fs). oid_wf p \<and> oid_format p = oid_format (fields_tree fs)) \<and>
     signature_ok (fields_author fs) \<and> signature_ok (fields_committer fs) \<and>
     (\<forall>h \<in> set (extra_headers fs). header_ok h)"

lemma fields_okI: "fields_validate fs = Inr () \<Longrightarrow> fields_typed fs \<Longrightarrow> fields_ok fs"
  using validate_headers_Inr
  by (auto simp add: fields_validate_def and_then_Inr_iff validate_parents_Inr fields_typed_def
      fields_ok_def signature_ok_def)

lemma header_lines_ok:
  assumes "header_ok h" and "l \<in> set (header_lines h)"
  shows "plain_line l" and "l \<noteq> []"
proof -
  obtain v vs where s: "split_on 10 (header_value h) = v # vs"
    by (cases "split_on 10 (header_value h)") auto
  have "plain_line x" if "x \<in> set (v # vs)" for x
    using that plain_line_split_on [of x "header_value h"] by (simp add: s)
  moreover have "plain_line (header_name h)" using assms(1) by (simp add: header_ok_def plain_line_def)
  ultimately show "plain_line l" and "l \<noteq> []" using assms(2) by (auto simp add: header_lines_def s)
qed

lemma fields_lines_ok:
  assumes "fields_ok fs"
  shows "\<forall>l \<in> set (fields_lines fs). plain_line l \<and> l \<noteq> []"
proof -
  have n: "plain_line (ascii ''tree '')" "plain_line (ascii ''parent '')" "plain_line (ascii ''author '')"
    "plain_line (ascii ''committer '')" "ascii ''tree '' \<noteq> []" "ascii ''parent '' \<noteq> []"
    "ascii ''author '' \<noteq> []" "ascii ''committer '' \<noteq> []"
    by (simp_all add: ascii_def plain_line_def)
  have h: "\<forall>l \<in> set (concat (map header_lines (extra_headers fs))). plain_line l \<and> l \<noteq> []"
  proof
    fix l assume "l \<in> set (concat (map header_lines (extra_headers fs)))"
    then obtain h where "h \<in> set (extra_headers fs)" and l: "l \<in> set (header_lines h)" by auto
    then have "header_ok h" using assms by (simp add: fields_ok_def)
    from header_lines_ok [OF this l] show "plain_line l \<and> l \<noteq> []" by simp
  qed
  show ?thesis
    unfolding fields_lines_def list.set set_append ball_simps ball_Un
    using assms h by (simp add: fields_ok_def n plain_hex plain_signature_text)
qed

section \<open>Reading the block\<close>

lemma parent_lines_block:
  assumes "\<forall>p \<in> set ps. oid_wf p \<and> oid_format p = format" and "\<not> starts_with l (ascii ''parent '')"
  shows "parent_lines format (length (concat (map (\<lambda>p. ascii ''parent '' @ oid_to_string p @ [10]) ps @ l # ls)))
      (map (\<lambda>p. ascii ''parent '' @ oid_to_string p @ [10]) ps @ l # ls) = Inr (ps, l # ls)"
  using assms(1)
proof (induction ps)
  case Nil
  with assms(2) show ?case by simp
next
  case (Cons p ps)
  have p: "parse_id format (oid_to_string p) = Inr p" "length (oid_to_string p) = digest_len format * 2"
    using Cons.prems parse_id_to_string [of p format] by (auto simp add: length_oid_to_string)
  have r: "required_line (strip_suffix (ascii ''parent '' @ oid_to_string p @ [10]) [10]) (ascii ''parent '')
      = Inr (oid_to_string p)"
    by (rule record_line(2) [OF p(1)]) simp
  show ?case using Cons p r by simp
qed

lemma author_not_parent [simp]: "\<not> starts_with (ascii ''author '' @ t) (ascii ''parent '')"
  by (simp add: ascii_def)

lemma parse_graph_encode:
  assumes "fields_ok fs"
  shows "parse_graph (oid_format (fields_tree fs)) (encode_fields fs) = Inr (fields_tree fs, fields_parents fs)"
proof -
  let ?f = "oid_format (fields_tree fs)"
  let ?first = "ascii ''tree '' @ oid_to_string (fields_tree fs) @ [10]"
  let ?ps = "map (\<lambda>p. ascii ''parent '' @ oid_to_string p @ [10]) (fields_parents fs)"
  let ?a = "ascii ''author '' @ signature_text (fields_author fs) @ [10]"
  let ?rest = "map (\<lambda>l. l @ [10]) ((ascii ''committer '' @ signature_text (fields_committer fs)) #
    concat (map header_lines (extra_headers fs))) @ split_inclusive 10 (10 # fields_message fs)"
  have lines: "split_inclusive 10 (encode_fields fs) = ?first # ?ps @ ?a # ?rest"
    using fields_lines_ok [OF assms] unfolding encode_fields_lines
    by (subst split_inclusive_block) (auto simp add: fields_lines_def comp_def)
  have len: "length (encode_fields fs) - length ?first = length (concat (?ps @ ?a # ?rest))"
    using concat_split_inclusive [of 10 "encode_fields fs", unfolded lines, symmetric] by simp
  have t: "parse_id ?f (oid_to_string (fields_tree fs)) = Inr (fields_tree fs)"
    using assms by (intro parse_id_to_string) (auto simp add: fields_ok_def)
  have "parent_lines ?f (length (concat (?ps @ ?a # ?rest))) (?ps @ ?a # ?rest)
      = Inr (fields_parents fs, ?a # ?rest)"
    using assms by (intro parent_lines_block) (auto simp add: fields_ok_def)
  with record_line(2) [OF t, of "ascii ''tree ''"] t have "parse_graph_lines ?f (encode_fields fs)
      = Inr (fields_tree fs, fields_parents fs)"
    unfolding parse_graph_lines_def lines list.case len by simp
  then show ?thesis
    unfolding parse_graph_def using parse_graph_fast [of ?f "encode_fields fs"]
    by (auto split: option.splits)
qed

lemma strip_prefix_named:
  fixes name key :: bytes
  assumes "32 \<notin> set name" and "32 \<notin> set key"
  shows "strip_prefix (name @ 32 # v) (key @ [32]) = (if name = key then Some v else None)"
proof -
  have "name = key \<and> v = ys" if "name @ 32 # v = key @ 32 # ys" for ys
    using arg_cong [OF that, of "\<lambda>x. split_once x 32"]
    unfolding split_once_append [OF assms(1)] split_once_append [OF assms(2)] by simp
  then show ?thesis by (auto simp add: strip_prefix_Some_iff strip_prefix_def starts_with_iff)
qed

lemma strip_prefix_space: "(key :: bytes) \<noteq> [] \<Longrightarrow> 32 \<notin> set key \<Longrightarrow> strip_prefix (32 # v) (key @ [32]) = None"
  by (cases key) (auto simp add: strip_prefix_def)

lemma map_filter_none: "(\<And>x. x \<in> set xs \<Longrightarrow> f x = None) \<Longrightarrow> List.map_filter f xs = []"
  by (induction xs) (simp_all add: map_filter_simps)

lemma map_filter_append: "List.map_filter f (xs @ ys) = List.map_filter f xs @ List.map_filter f ys"
  by (simp add: map_filter_def)

lemma header_lines_no_person:
  assumes "header_ok h" and "standard_name key" and "l \<in> set (header_lines h)"
  shows "strip_prefix l (key @ [32]) = None"
proof -
  obtain v vs where s: "split_on 10 (header_value h) = v # vs"
    by (cases "split_on 10 (header_value h)") auto
  have key: "32 \<notin> set key" "key \<noteq> []" using assms(2) by (auto simp add: standard_name_def ascii_def)
  have "header_name h \<noteq> key" "32 \<notin> set (header_name h)" using assms(1,2) by (auto simp add: header_ok_def)
  with key assms(3) show ?thesis
    by (auto simp add: header_lines_def s strip_prefix_named strip_prefix_space)
qed

lemma standard_keys:
  "ascii ''tree '' = ascii ''tree'' @ [32]" "ascii ''parent '' = ascii ''parent'' @ [32]"
  "ascii ''author '' = ascii ''author'' @ [32]" "ascii ''committer '' = ascii ''committer'' @ [32]"
  by (simp_all add: ascii_def)

lemma standard_names [simp]:
  "standard_name (ascii ''tree'')" "standard_name (ascii ''parent'')"
  "standard_name (ascii ''author'')" "standard_name (ascii ''committer'')"
  by (simp_all add: standard_name_def)

lemma standard_name_no_space: "standard_name key \<Longrightarrow> 32 \<notin> set key \<and> key \<noteq> []"
  by (auto simp add: standard_name_def ascii_def)

lemma names_differ:
  "ascii ''tree'' \<noteq> ascii ''author''" "ascii ''parent'' \<noteq> ascii ''author''"
  "ascii ''committer'' \<noteq> ascii ''author''" "ascii ''tree'' \<noteq> ascii ''committer''"
  "ascii ''parent'' \<noteq> ascii ''committer''" "ascii ''author'' \<noteq> ascii ''committer''"
  by (simp_all add: ascii_def)

lemma standard_strip:
  assumes "standard_name a" and "standard_name b"
  shows "strip_prefix ((a @ [32]) @ v) (b @ [32]) = (if a = b then Some v else None)"
  using strip_prefix_named [of a b v] assms standard_name_no_space by simp

lemma person_lines:
  assumes "fields_ok fs"
  shows "List.map_filter (\<lambda>l. strip_prefix l (ascii ''author '')) (fields_lines fs)
      = [signature_text (fields_author fs)]"
    and "List.map_filter (\<lambda>l. strip_prefix l (ascii ''committer '')) (fields_lines fs)
      = [signature_text (fields_committer fs)]"
proof -
  have e: "List.map_filter (\<lambda>l. strip_prefix l (key @ [32])) (concat (map header_lines (extra_headers fs))) = []"
    if "standard_name key" for key
    using assms that header_lines_no_person by (intro map_filter_none) (auto simp add: fields_ok_def)
  have p: "List.map_filter (\<lambda>l. strip_prefix l (key @ [32]))
      (map (\<lambda>p. (ascii ''parent'' @ [32]) @ oid_to_string p) ps) = []"
    if "standard_name key" "ascii ''parent'' \<noteq> key" for key ps
    using that by (intro map_filter_none) (auto simp add: standard_strip simp del: append_assoc)
  show "List.map_filter (\<lambda>l. strip_prefix l (ascii ''author '')) (fields_lines fs)
      = [signature_text (fields_author fs)]"
    unfolding fields_lines_def standard_keys
    by (simp add: map_filter_simps map_filter_append e p standard_strip names_differ del: append_assoc)
  show "List.map_filter (\<lambda>l. strip_prefix l (ascii ''committer '')) (fields_lines fs)
      = [signature_text (fields_committer fs)]"
    unfolding fields_lines_def standard_keys
    by (simp add: map_filter_simps map_filter_append e p standard_strip names_differ del: append_assoc)
qed

lemma field_lines_append:
  "field_lines (xs @ ys) st = and_then (field_lines xs st) (field_lines ys)"
  by (induction xs arbitrary: st) (auto simp add: and_then_assoc intro!: and_then_cong)

lemma field_line_standard:
  assumes "standard_name name"
  shows "field_line ((name @ [32]) @ v) st = Inr (fst st, False)"
proof -
  have n: "32 \<notin> set name" "name \<noteq> []" using standard_name_no_space [OF assms] by auto
  have "strip_prefix ((name @ [32]) @ v) [32] = None"
    using n by (cases name) (auto simp add: strip_prefix_def)
  with assms n show ?thesis
    by (cases st) (simp add: field_line_def split_once_append)
qed

lemma field_lines_continue:
  "field_lines (map ((#) 32) vs) (hs @ [h], True) =
     Inr (hs @ [h\<lparr>header_value := header_value h @ concat (map ((#) 10) vs)\<rparr>], True)"
  by (induction vs arbitrary: h) (simp_all add: field_line_def strip_prefix_def)

lemma field_lines_header:
  assumes "header_ok h"
  shows "field_lines (header_lines h) (hs, c) = Inr (hs @ [h], True)"
proof -
  obtain v vs where s: "split_on 10 (header_value h) = v # vs"
    by (cases "split_on 10 (header_value h)") auto
  have val: "header_value h = v @ concat (map ((#) 10) vs)"
    using join_split_on [of "header_value h"] join_lines_value [of v vs] by (simp add: s)
  have n: "32 \<notin> set (header_name h)" "header_name h \<noteq> []" "\<not> standard_name (header_name h)"
    using assms by (auto simp add: header_ok_def)
  have "strip_prefix (header_name h @ 32 # v) [32] = None"
    using n by (cases "header_name h") (auto simp add: strip_prefix_def)
  then have "field_line (header_name h @ 32 # v) (hs, c)
      = Inr (hs @ [\<lparr>header_name = header_name h, header_value = v\<rparr>], True)"
    using n by (simp add: field_line_def split_once_append)
  then show ?thesis
    by (simp add: header_lines_def s field_lines_continue flip: val)
qed

lemma field_lines_headers:
  "\<forall>h \<in> set hs. header_ok h \<Longrightarrow>
     \<exists>c'. field_lines (concat (map header_lines hs)) (gs, c) = Inr (gs @ hs, c')"
proof (induction hs arbitrary: gs c)
  case (Cons h hs)
  then obtain c' where "field_lines (concat (map header_lines hs)) (gs @ [h], True) = Inr (gs @ h # hs, c')"
    using Cons.IH [of "gs @ [h]" True] by auto
  with Cons.prems show ?case by (simp add: field_lines_append field_lines_header)
qed simp

lemma field_lines_fields:
  assumes "fields_ok fs"
  shows "\<exists>c. field_lines (fields_lines fs) ([], False) = Inr (extra_headers fs, c)"
proof -
  have p: "field_lines (map (\<lambda>p. (ascii ''parent'' @ [32]) @ oid_to_string p) ps) ([], False) = Inr ([], False)" for ps
    by (induction ps) (simp_all add: field_line_standard del: append_assoc)
  show ?thesis
    using field_lines_headers [of "extra_headers fs" "[]" False] assms
    unfolding fields_lines_def standard_keys fields_ok_def
    by (simp add: field_line_standard field_lines_append p del: append_assoc)
qed

lemma commit_block_parts:
  assumes "fields_ok fs" and "commit_payload c = encode_fields fs"
    and "commit_header_end c = header_end (encode_fields fs)"
  shows "split_on 10 (header_bytes c) = fields_lines fs" and "commit_message c = fields_message fs"
proof -
  have ne: "fields_lines fs \<noteq> []" by (simp add: fields_lines_def)
  note ok = fields_lines_ok [OF assms(1)]
  have e: "commit_header_end c = length (join_lines (fields_lines fs))"
    using header_end_block [OF ne ok] assms(3) by (simp add: encode_fields_lines)
  have p: "commit_payload c = join_lines (fields_lines fs) @ 10 # 10 # fields_message fs"
    using assms(2) ne by (simp add: encode_fields_lines line_block_join)
  have "header_bytes c = join_lines (fields_lines fs)"
    by (simp add: header_bytes_def e p get_to_def)
  with ok ne show "split_on 10 (header_bytes c) = fields_lines fs"
    by (simp add: split_on_join)
  show "commit_message c = fields_message fs"
    by (simp add: commit_message_def e p get_from_def)
qed

lemma to_fields_block:
  assumes "fields_ok fs" and "commit_payload c = encode_fields fs"
    and "commit_header_end c = header_end (encode_fields fs)"
    and "commit_tree c = fields_tree fs" and "commit_parents c = fields_parents fs"
  shows "to_fields c = Inr fs"
proof -
  note parts = commit_block_parts [OF assms(1-3)]
  have s: "and_then (identity_parse (signature_text s)) (\<lambda>i. and_then (ok_or RequiredHeader (Some i)) identity_signature) = Inr s"
    if "signature_ok s" for s
    using signature_parse_text [OF that] by (simp add: signature_parse_def)
  obtain a where a: "identity_parse (signature_text (fields_author fs)) = Inr a"
      "identity_signature a = Inr (fields_author fs)"
    using s [of "fields_author fs"] assms(1) by (auto simp add: fields_ok_def and_then_Inr_iff)
  obtain b where b: "identity_parse (signature_text (fields_committer fs)) = Inr b"
      "identity_signature b = Inr (fields_committer fs)"
    using s [of "fields_committer fs"] assms(1) by (auto simp add: fields_ok_def and_then_Inr_iff)
  have "commit_author c = Inr (Some a)" "commit_committer c = Inr (Some b)"
    by (simp_all add: commit_author_def commit_committer_def commit_person_def parts
        person_lines [OF assms(1)] a b)
  moreover obtain k where "field_lines (fields_lines fs) ([], False) = Inr (extra_headers fs, k)"
    using field_lines_fields [OF assms(1)] by blast
  ultimately show ?thesis
    by (simp add: to_fields_def parts a b assms(4,5))
qed

text \<open>
  C14: A commit made from fields is stored so that everything can be read back: parsing its
  encoding in the tree's format gives the same commit, and that commit's fields are the given
  ones, with multi-line header values, parents in order and the message byte for byte. The
  premise on types states what Rust's types guarantee.
\<close>

theorem commit_round_trip:
  assumes "commit_new fs = Inr c" and "fields_typed fs"
  shows "commit_parse (oid_format (fields_tree fs)) (commit_encode c) = Inr c \<and>
    to_fields c = Inr fs \<and> commit_validate c = Inr ()"
proof -
  from assms(1) have v: "fields_validate fs = Inr ()"
    and c: "c = \<lparr>commit_tree = fields_tree fs, commit_parents = fields_parents fs,
      commit_payload = encode_fields fs, commit_header_end = header_end (encode_fields fs)\<rparr>"
    by (auto simp add: commit_new_def and_then_Inr_iff Let_def)
  note ok = fields_okI [OF v assms(2)]
  have "to_fields c = Inr fs" by (rule to_fields_block [OF ok]) (simp_all add: c)
  moreover have "commit_parse (oid_format (fields_tree fs)) (commit_encode c) = Inr c"
    by (simp add: commit_parse_def commit_encode_def c parse_graph_encode [OF ok])
  ultimately show ?thesis by (simp add: commit_validate_def v)
qed

definition sample_fields :: commit_fields where
  "sample_fields =
     \<lparr>fields_tree = IdSha1 (replicate 20 0), fields_parents = [],
      fields_author = \<lparr>sig_name = [65], sig_email = [66], seconds = 1, offset_minutes = 60\<rparr>,
      fields_committer = \<lparr>sig_name = [67], sig_email = [68], seconds = - 2, offset_minutes = 0\<rparr>,
      extra_headers = [\<lparr>header_name = [120], header_value = [97, 10, 98]\<rparr>], fields_message = [109]\<rparr>"

theorem commit_round_trip_witness:
  "\<exists>c. commit_new sample_fields = Inr c \<and> to_fields c = Inr sample_fields"
proof -
  have "fields_validate sample_fields = Inr ()"
    by (simp add: sample_fields_def fields_validate_def signature_validate_def component_invalid_def
        is_ascii_whitespace_def validate_header_name_def standard_name_def ascii_def)
  then obtain c where c: "commit_new sample_fields = Inr c"
    by (simp add: commit_new_def Let_def)
  have "fields_typed sample_fields"
    by (simp add: fields_typed_def sample_fields_def oid_wf_def)
  with commit_round_trip [OF c] c show ?thesis by blast
qed

end
