(* ===== verification/Commit_Payload.thy ===== *)
theory Commit_Payload
  imports Commit_Object
begin

text \<open>
  \<^verbatim>\<open>src/commit/payload.rs\<close> (a commit's header spans), \<^verbatim>\<open>build_signed\<close> of
  \<^verbatim>\<open>src/commit/builder.rs\<close> and the extraction of the signed bytes in \<^verbatim>\<open>src/signing.rs\<close>.
  Spans are pairs of offsets into the payload. The signing program is a parameter.
\<close>

section \<open>The model\<close>

record payload_view =
  view_bytes :: bytes
  view_headers :: "(nat \<times> nat) list"
  message_start :: nat

text \<open>A header as the view returns it; \<open>value_end\<close> is where its value ends in the payload.\<close>

record header_ref =
  has_value_separator :: bool
  ref_name :: bytes
  ref_value :: bytes
  value_end :: nat

definition extend_last :: "nat \<Rightarrow> (nat \<times> nat) list \<Rightarrow> (nat \<times> nat) list" where
  "extend_last stop headers = butlast headers @ [(fst (last headers), stop)]"

fun parse_lines ::
  "bytes \<Rightarrow> bytes list \<Rightarrow> nat \<Rightarrow> (nat \<times> nat) list \<Rightarrow> commit_error + payload_view" where
  "parse_lines bytes [] start headers = Inl MissingSeparator"
| "parse_lines bytes (line # lines) start headers =
     (if \<not> ends_with line [10] then Inl MissingSeparator
      else
        let stop = start + length line in
        if line = [10] then
          Inr \<lparr>view_bytes = bytes, view_headers = headers, message_start = stop\<rparr>
        else if starts_with line [32] then
          (if headers = [] then Inl InvalidHeader
           else parse_lines bytes lines stop (extend_last stop headers))
        else
          and_then (ok_or InvalidHeader (split_once line 32)) (\<lambda>(name, _).
          if name = [] \<or> \<not> list_all (\<lambda>b. 33 \<le> b \<and> b \<le> 126) name then Inl InvalidHeader
          else parse_lines bytes lines stop (headers @ [(start, stop)])))"

definition payload_parse :: "bytes \<Rightarrow> commit_error + payload_view" where
  "payload_parse bytes = parse_lines bytes (split_inclusive 10 bytes) 0 []"

fun scan_lines :: "bytes \<Rightarrow> bytes list \<Rightarrow> nat \<Rightarrow> (nat \<times> nat) list \<Rightarrow> payload_view" where
  "scan_lines bytes [] start headers =
     \<lparr>view_bytes = bytes, view_headers = headers, message_start = length bytes\<rparr>"
| "scan_lines bytes (line # lines) start headers =
     (let stop = start + length line in
      if line = [10] then \<lparr>view_bytes = bytes, view_headers = headers, message_start = stop\<rparr>
      else if starts_with line [32] \<and> headers \<noteq> []
      then scan_lines bytes lines stop (extend_last stop headers)
      else scan_lines bytes lines stop (headers @ [(start, stop)]))"

definition payload_from_bytes :: "bytes \<Rightarrow> payload_view" where
  "payload_from_bytes bytes = scan_lines bytes (split_inclusive 10 bytes) 0 []"

definition slice_of :: "bytes \<Rightarrow> nat \<Rightarrow> nat \<Rightarrow> bytes" where
  "slice_of bytes a b = take (b - a) (drop a bytes)"

definition view_header :: "payload_view \<Rightarrow> nat \<times> nat \<Rightarrow> header_ref" where
  "view_header self span =
     (let raw = slice_of (view_bytes self) (fst span) (snd span);
          line = (case strip_suffix raw [10] of Some line \<Rightarrow> line | None \<Rightarrow> raw);
          first = hd (split_on 10 line)
      in case position (\<lambda>b. b = 32) first of
           Some space \<Rightarrow>
             \<lparr>has_value_separator = True, ref_name = take space line,
              ref_value = drop (space + 1) line, value_end = fst span + length line\<rparr>
         | None \<Rightarrow>
             \<lparr>has_value_separator = False, ref_name = first, ref_value = [], value_end = 0\<rparr>)"

definition headers_of :: "payload_view \<Rightarrow> header_ref list" where
  "headers_of self = map (view_header self) (view_headers self)"

definition view_message :: "payload_view \<Rightarrow> bytes" where
  "view_message self =
     (case get_from (view_bytes self) (message_start self) of Some bs \<Rightarrow> bs | None \<Rightarrow> [])"

fun cut_spans :: "bytes \<Rightarrow> (nat \<times> nat) list \<Rightarrow> nat \<Rightarrow> bytes" where
  "cut_spans bytes [] start = drop start bytes"
| "cut_spans bytes (span # spans) start =
     slice_of bytes start (fst span) @ cut_spans bytes spans (snd span)"

definition without_headers :: "payload_view \<Rightarrow> nat list \<Rightarrow> bytes option" where
  "without_headers self indices =
     (let indices = remdups (sort indices) in
      if indices \<noteq> [] \<and> length (view_headers self) \<le> last indices then None
      else Some (cut_spans (view_bytes self) (map ((!) (view_headers self)) indices) 0))"

definition unfolded_value :: "header_ref \<Rightarrow> bytes" where
  "unfolded_value self =
     concat (map (\<lambda>(index, line).
         if index = 0 then line
         else 10 # (case strip_prefix line [32] of Some rest \<Rightarrow> rest | None \<Rightarrow> line))
       (enumerate 0 (split_on 10 (ref_value self))))"

definition commit_header_ref :: "commit \<Rightarrow> bytes \<Rightarrow> header_ref option" where
  "commit_header_ref self name =
     find (\<lambda>header. ref_name header = name) (headers_of (payload_from_bytes (commit_payload self)))"

text \<open>\<^verbatim>\<open>build_signed\<close>.\<close>

datatype 'e sign_error = SignCommit commit_error | Signer 'e | ExistingSignature

definition signature_header :: "bytes \<Rightarrow> bool" where
  "signature_header name \<longleftrightarrow> name = ascii ''gpgsig'' \<or> name = ascii ''gpgsig-sha256''"

definition native_header :: "object_format \<Rightarrow> bytes" where
  "native_header format =
     (case format of Sha1 \<Rightarrow> ascii ''gpgsig'' | Sha256 \<Rightarrow> ascii ''gpgsig-sha256'')"

definition build_signed ::
  "commit_fields \<Rightarrow> (bytes \<Rightarrow> 'e + bytes) \<Rightarrow> 'e sign_error + commit" where
  "build_signed fs sign =
     (if list_ex (\<lambda>header. signature_header (header_name header)) (extra_headers fs)
      then Inl ExistingSignature
      else
        and_then (map_err SignCommit (commit_new fs)) (\<lambda>unsigned.
        and_then (map_err Signer (sign (commit_payload unsigned))) (\<lambda>signature.
        let name = native_header (oid_format (fields_tree fs));
            value = (case strip_suffix signature [10] of Some sig \<Rightarrow> sig | None \<Rightarrow> signature)
        in map_err SignCommit (commit_new (fs\<lparr>extra_headers :=
             extra_headers fs @ [\<lparr>header_name = name, header_value = value\<rparr>]\<rparr>)))))"

text \<open>\<^verbatim>\<open>Commit::signed_payload\<close>.\<close>

record signed_payload =
  sp_payload :: bytes
  sp_signature :: bytes
  signed_at :: "int option"

definition is_terminated :: "bytes \<Rightarrow> header_ref \<Rightarrow> bool" where
  "is_terminated bytes header \<longleftrightarrow> get_at bytes (value_end header) = Some 10"

fun collect_signature ::
  "bytes \<Rightarrow> bytes \<Rightarrow> nat \<Rightarrow> header_ref list \<Rightarrow> bytes \<times> bool \<times> nat list \<Rightarrow> bytes \<times> bool \<times> nat list" where
  "collect_signature bytes native index [] st = st"
| "collect_signature bytes native index (header # headers) (signature, found, removed) =
     collect_signature bytes native (index + 1) headers
       (if \<not> has_value_separator header then (signature, found, removed)
        else
          ((if ref_name header = native
            then signature @ unfolded_value header @ (if is_terminated bytes header then [10] else [])
            else signature),
           (found \<or> ref_name header = native),
           (if signature_header (ref_name header) then removed @ [index] else removed)))"

definition commit_signed_payload :: "commit \<Rightarrow> signed_payload option" where
  "commit_signed_payload self =
     (let bytes = commit_payload self;
          view = payload_from_bytes bytes;
          native = native_header (oid_format (commit_tree self))
      in case collect_signature bytes native 0 (headers_of view) ([], False, []) of
           (signature, found, removed) \<Rightarrow>
             if \<not> found then None
             else
               Option.bind (without_headers view removed) (\<lambda>payload.
               Some \<lparr>sp_payload = payload, sp_signature = signature,
                     signed_at =
                       Option.bind (Option.bind (ok (commit_committer self)) (\<lambda>x. x)) (\<lambda>identity.
                       map_option date_seconds (ok (identity_ref_date identity)))\<rparr>))"

section \<open>A block of headers\<close>

text \<open>All headers of a commit, the standard ones included, and the name condition they share.\<close>

definition all_headers :: "commit_fields \<Rightarrow> commit_header list" where
  "all_headers fs =
     \<lparr>header_name = ascii ''tree'', header_value = oid_to_string (fields_tree fs)\<rparr> #
     map (\<lambda>p. \<lparr>header_name = ascii ''parent'', header_value = oid_to_string p\<rparr>) (fields_parents fs) @
     [\<lparr>header_name = ascii ''author'', header_value = signature_text (fields_author fs)\<rparr>,
      \<lparr>header_name = ascii ''committer'', header_value = signature_text (fields_committer fs)\<rparr>] @
     extra_headers fs"

definition name_ok :: "commit_header \<Rightarrow> bool" where
  "name_ok h \<longleftrightarrow> header_name h \<noteq> [] \<and> 32 \<notin> set (header_name h) \<and> 10 \<notin> set (header_name h)"

definition header_block :: "commit_header list \<Rightarrow> bytes" where
  "header_block hs = concat (map encode_header hs)"

lemma header_lines_plain: "plain_line v \<Longrightarrow> header_lines \<lparr>header_name = n, header_value = v\<rparr> = [n @ 32 # v]"
  by (simp add: header_lines_def split_on_no_sep plain_line_def)

lemma fields_lines_all:
  assumes "fields_ok fs"
  shows "fields_lines fs = concat (map header_lines (all_headers fs))"
proof -
  have "concat (map (header_lines \<circ> (\<lambda>p. \<lparr>header_name = ascii ''parent'', header_value = oid_to_string p\<rparr>)) ps)
      = map (\<lambda>p. ascii ''parent '' @ oid_to_string p) ps" for ps
    by (induction ps) (simp_all add: header_lines_plain plain_hex standard_keys)
  with assms show ?thesis
    by (simp add: fields_lines_def all_headers_def header_lines_plain plain_hex plain_signature_text
        fields_ok_def standard_keys)
qed

lemma encode_fields_block:
  "fields_ok fs \<Longrightarrow> encode_fields fs = header_block (all_headers fs) @ 10 # fields_message fs"
proof -
  have "encode_header = (\<lambda>h. line_block (header_lines h))"
    by (rule ext) (rule encode_header_lines)
  then show "fields_ok fs \<Longrightarrow> ?thesis"
    by (simp add: encode_fields_lines fields_lines_all line_block_concat header_block_def comp_def)
qed

lemma all_headers_ok: "fields_ok fs \<Longrightarrow> \<forall>h \<in> set (all_headers fs). name_ok h"
  by (auto simp add: all_headers_def name_ok_def fields_ok_def header_ok_def ascii_def)

fun header_spans :: "nat \<Rightarrow> commit_header list \<Rightarrow> (nat \<times> nat) list" where
  "header_spans start [] = []"
| "header_spans start (h # hs) =
     (start, start + length (encode_header h)) # header_spans (start + length (encode_header h)) hs"

lemma length_header_block [simp]:
  "length (header_block []) = 0"
  "length (header_block (h # hs)) = length (encode_header h) + length (header_block hs)"
  by (simp_all add: header_block_def)

lemma scan_continuation:
  "scan_lines bytes (map (\<lambda>l. l @ [10]) (map ((#) 32) vs) @ lines) stop (acc @ [(start, stop)])
     = scan_lines bytes lines (stop + length (line_block (map ((#) 32) vs)))
         (acc @ [(start, stop + length (line_block (map ((#) 32) vs)))])"
proof (induction vs arbitrary: stop)
  case (Cons v vs)
  then show ?case
    using Cons.IH [of "stop + length v + 2"] by (simp add: extend_last_def Let_def algebra_simps)
qed simp

lemma scan_header:
  assumes "name_ok h"
  shows "scan_lines bytes (map (\<lambda>l. l @ [10]) (header_lines h) @ lines) start acc
    = scan_lines bytes lines (start + length (encode_header h))
        (acc @ [(start, start + length (encode_header h))])"
proof -
  obtain v vs where s: "split_on 10 (header_value h) = v # vs"
    by (cases "split_on 10 (header_value h)") auto
  obtain c n where n: "header_name h = c # n" "c \<noteq> 32"
    using assms by (cases "header_name h") (auto simp add: name_ok_def)
  have e: "encode_header h = (header_name h @ 32 # v) @ 10 # line_block (map ((#) 32) vs)"
    by (simp add: encode_header_lines header_lines_def s)
  show ?thesis
    using scan_continuation [of bytes vs lines "start + length (header_name h @ 32 # v) + 1" acc start] n
    by (simp add: header_lines_def s e Let_def algebra_simps)
qed

lemma scan_headers:
  "\<forall>h \<in> set hs. name_ok h \<Longrightarrow>
     scan_lines bytes (map (\<lambda>l. l @ [10]) (concat (map header_lines hs)) @ [10] # lines) start acc
       = \<lparr>view_bytes = bytes, view_headers = acc @ header_spans start hs,
          message_start = start + length (header_block hs) + 1\<rparr>"
proof (induction hs arbitrary: start acc)
  case Nil
  then show ?case by (simp add: Let_def)
next
  case (Cons h hs)
  have "scan_lines bytes (map (\<lambda>l. l @ [10]) (concat (map header_lines (h # hs))) @ [10] # lines) start acc
      = scan_lines bytes (map (\<lambda>l. l @ [10]) (concat (map header_lines hs)) @ [10] # lines)
          (start + length (encode_header h)) (acc @ [(start, start + length (encode_header h))])"
    using scan_header [of h bytes "map (\<lambda>l. l @ [10]) (concat (map header_lines hs)) @ [10] # lines" start acc]
      Cons.prems by simp
  with Cons show ?case by (simp add: algebra_simps)
qed

lemma view_of_fields:
  assumes "fields_ok fs"
  shows "payload_from_bytes (encode_fields fs) =
    \<lparr>view_bytes = encode_fields fs, view_headers = header_spans 0 (all_headers fs),
     message_start = length (header_block (all_headers fs)) + 1\<rparr>"
proof -
  have plain: "\<forall>l \<in> set (fields_lines fs). plain_line l" using fields_lines_ok [OF assms] by blast
  have "split_inclusive 10 (encode_fields fs)
      = map (\<lambda>l. l @ [10]) (fields_lines fs) @ split_inclusive 10 (10 # fields_message fs)"
    unfolding encode_fields_lines by (rule split_inclusive_block [OF plain])
  then show ?thesis
    using scan_headers [OF all_headers_ok [OF assms], of "encode_fields fs"
        "split_inclusive 10 (fields_message fs)" 0 "[]"]
    by (simp add: payload_from_bytes_def fields_lines_all [OF assms])
qed

lemma encode_header_split:
  assumes "name_ok h" and "split_on 10 (header_value h) = v # vs"
  shows "encode_header h = (header_name h @ 32 # join_lines (v # map ((#) 32) vs)) @ [10]"
    and "split_on 10 (header_name h @ 32 # join_lines (v # map ((#) 32) vs))
      = (header_name h @ 32 # v) # map ((#) 32) vs"
    and "split_on 10 (join_lines (v # map ((#) 32) vs)) = v # map ((#) 32) vs"
proof -
  have j: "header_name h @ 32 # join_lines (v # map ((#) 32) vs)
      = join_lines ((header_name h @ 32 # v) # map ((#) 32) vs)"
    by (simp add: join_lines_value)
  have hl: "header_lines h = (header_name h @ 32 # v) # map ((#) 32) vs"
    by (simp add: header_lines_def assms(2))
  show "encode_header h = (header_name h @ 32 # join_lines (v # map ((#) 32) vs)) @ [10]"
    unfolding encode_header_lines hl j by (rule line_block_join) simp
  have pv: "\<forall>l \<in> set (v # map ((#) 32) vs). plain_line l"
    using plain_line_split_on [of _ "header_value h"] by (auto simp add: assms(2))
  have "plain_line (header_name h)" using assms(1) by (simp add: name_ok_def plain_line_def)
  with pv show "split_on 10 (header_name h @ 32 # join_lines (v # map ((#) 32) vs))
      = (header_name h @ 32 # v) # map ((#) 32) vs"
    unfolding j by (intro split_on_join) auto
  show "split_on 10 (join_lines (v # map ((#) 32) vs)) = v # map ((#) 32) vs"
    using pv by (intro split_on_join) auto
qed

text \<open>What the view returns for a header of the block.\<close>

lemma view_header_block:
  assumes "name_ok h" and "view_bytes view = pre @ encode_header h @ post"
  shows "\<exists>r. view_header view (length pre, length pre + length (encode_header h)) = r \<and>
    has_value_separator r \<and> ref_name r = header_name h \<and> unfolded_value r = header_value h \<and>
    is_terminated (view_bytes view) r"
proof -
  obtain v vs where s: "split_on 10 (header_value h) = v # vs"
    by (cases "split_on 10 (header_value h)") auto
  let ?f = "join_lines (v # map ((#) 32) vs)"
  let ?line = "header_name h @ 32 # ?f"
  note enc = encode_header_split [OF assms(1) s]
  have raw: "slice_of (view_bytes view) (length pre) (length pre + length (encode_header h)) = ?line @ [10]"
    by (simp add: slice_of_def assms(2) enc(1))
  have pos: "position (\<lambda>b. b = 32) (header_name h @ 32 # v) = Some (length (header_name h))"
    using assms(1) by (intro position_append_first) (auto simp add: name_ok_def)
  define r where "r = view_header view (length pre, length pre + length (encode_header h))"
  have r: "r = \<lparr>has_value_separator = True, ref_name = header_name h, ref_value = ?f,
      value_end = length pre + length ?line\<rparr>"
    unfolding r_def view_header_def Let_def fst_conv snd_conv raw strip_suffix_append option.case
      enc(2) list.sel pos
    by simp
  have u: "0 < k \<Longrightarrow> concat (map (\<lambda>(index, line). if index = 0 then line
      else 10 # (case strip_prefix line [32] of Some rest \<Rightarrow> rest | None \<Rightarrow> line)) (enumerate k (map ((#) 32) ws)))
      = concat (map ((#) 10) ws)" for k :: nat and ws
    by (induction ws arbitrary: k) (simp_all add: strip_prefix_def)
  have "unfolded_value r = v @ concat (map ((#) 10) vs)"
    using u [of 1 vs] by (simp add: unfolded_value_def r enc(3))
  also have "\<dots> = header_value h"
    using join_split_on [of "header_value h"] join_lines_value [of v vs] by (simp add: s)
  finally have "unfolded_value r = header_value h" .
  moreover have "is_terminated (view_bytes view) r"
    by (simp add: is_terminated_def r assms(2) enc(1) get_at_def nth_append)
  ultimately show ?thesis using r r_def by simp
qed

lemma header_block_append [simp]: "header_block (xs @ ys) = header_block xs @ header_block ys"
  by (simp add: header_block_def)

lemma collect_append:
  "collect_signature bytes native index (xs @ ys) st
     = collect_signature bytes native (index + length xs) ys (collect_signature bytes native index xs st)"
proof (induction xs arbitrary: index st)
  case (Cons x xs)
  then show ?case by (cases st) simp
qed simp

lemma collect_other:
  assumes "\<And>r. r \<in> set rs \<Longrightarrow> ref_name r \<noteq> native \<and> \<not> signature_header (ref_name r)"
  shows "collect_signature bytes native index rs st = st"
  using assms
proof (induction rs arbitrary: index st)
  case (Cons r rs)
  obtain a b c where st: "st = (a, b, c)" by (cases st) auto
  have "ref_name r \<noteq> native" "\<not> signature_header (ref_name r)" using Cons.prems by auto
  with Cons show ?case by (simp add: st)
qed simp

lemma header_spans_append:
  "header_spans start (xs @ ys) = header_spans start xs @ header_spans (start + length (header_block xs)) ys"
  by (induction xs arbitrary: start) (simp_all add: add.assoc)

lemma length_header_spans [simp]: "length (header_spans start hs) = length hs"
  by (induction hs arbitrary: start) simp_all

lemma view_names:
  assumes "\<forall>h \<in> set hs. name_ok h" and "view_bytes view = pre @ header_block hs @ post"
  shows "map (\<lambda>s. ref_name (view_header view s)) (header_spans (length pre) hs) = map header_name hs"
  using assms
proof (induction hs arbitrary: pre)
  case (Cons h hs)
  have "ref_name (view_header view (length pre, length pre + length (encode_header h))) = header_name h"
    using view_header_block [of h view pre "header_block hs @ post"] Cons.prems
    by (auto simp add: header_block_def)
  moreover have "map (\<lambda>s. ref_name (view_header view s)) (header_spans (length (pre @ encode_header h)) hs)
      = map header_name hs"
    using Cons.prems by (intro Cons.IH) (simp_all add: header_block_def)
  ultimately show ?case by simp
qed simp

section \<open>Signing and verifying\<close>

lemma cut_last_header:
  assumes "view = \<lparr>view_bytes = header_block (hs @ [h]) @ rest, view_headers = header_spans 0 (hs @ [h]),
    message_start = m\<rparr>"
  shows "without_headers view [length hs] = Some (header_block hs @ rest)"
proof -
  let ?a = "length (header_block hs)"
  have e: "header_spans 0 (hs @ [h]) ! length hs = (?a, ?a + length (encode_header h))"
    by (simp add: header_spans_append nth_append)
  show ?thesis
    by (simp add: without_headers_def assms e slice_of_def header_block_def Let_def)
qed

lemma signed_payload_block:
  assumes "fields_ok fs" and "\<forall>h \<in> set (extra_headers fs). \<not> signature_header (header_name h)"
    and "header_ok \<lparr>header_name = native_header (oid_format (fields_tree fs)), header_value = v\<rparr>"
    and "commit_tree c = fields_tree fs" and "commit_payload c = encode_fields (fs\<lparr>extra_headers :=
      extra_headers fs @ [\<lparr>header_name = native_header (oid_format (fields_tree fs)), header_value = v\<rparr>]\<rparr>)"
  shows "\<exists>sp. commit_signed_payload c = Some sp \<and> sp_payload sp = encode_fields fs \<and> sp_signature sp = v @ [10]"
proof -
  let ?native = "native_header (oid_format (fields_tree fs))"
  define h where "h = \<lparr>header_name = ?native, header_value = v\<rparr>"
  define fs' where "fs' = fs\<lparr>extra_headers := extra_headers fs @ [h]\<rparr>"
  have ok': "fields_ok fs'" using assms(1,3) by (auto simp add: fs'_def h_def fields_ok_def)
  have all: "all_headers fs' = all_headers fs @ [h]" by (simp add: all_headers_def fs'_def)
  define view where "view = payload_from_bytes (encode_fields fs')"
  have bytes: "encode_fields fs' = header_block (all_headers fs @ [h]) @ 10 # fields_message fs"
    using encode_fields_block [OF ok'] by (simp add: all) (simp add: fs'_def)
  have view: "view = \<lparr>view_bytes = header_block (all_headers fs @ [h]) @ 10 # fields_message fs,
      view_headers = header_spans 0 (all_headers fs @ [h]),
      message_start = length (header_block (all_headers fs @ [h])) + 1\<rparr>"
    using view_of_fields [OF ok'] by (simp only: view_def all bytes)
  let ?n = "length (all_headers fs)" and ?a = "length (header_block (all_headers fs))"
  let ?r = "view_header view (?a, ?a + length (encode_header h))"
  have "name_ok h" using all_headers_ok [OF ok'] by (simp add: all)
  then have r: "has_value_separator ?r" "ref_name ?r = ?native" "unfolded_value ?r = v"
      "is_terminated (encode_fields fs') ?r"
    using view_header_block [of h view "header_block (all_headers fs)" "10 # fields_message fs"]
    by (auto simp add: view bytes header_block_def h_def)
  have names: "map (\<lambda>s. ref_name (view_header view s)) (header_spans 0 (all_headers fs)) = map header_name (all_headers fs)"
    using view_names [of "all_headers fs" view "[]" "header_block [h] @ 10 # fields_message fs"]
      all_headers_ok [OF assms(1)] by (simp add: view)
  have other: "collect_signature (encode_fields fs') ?native 0
      (map (view_header view) (header_spans 0 (all_headers fs))) st = st" for st
  proof (rule collect_other)
    fix x assume "x \<in> set (map (view_header view) (header_spans 0 (all_headers fs)))"
    then have "ref_name x \<in> set (map header_name (all_headers fs))" unfolding names [symmetric] by auto
    then have "\<not> signature_header (ref_name x)"
      using assms(2) by (auto simp add: all_headers_def signature_header_def ascii_def)
    then show "ref_name x \<noteq> ?native \<and> \<not> signature_header (ref_name x)"
      by (cases "oid_format (fields_tree fs)") (auto simp add: native_header_def signature_header_def)
  qed
  have native: "signature_header ?native"
    by (cases "oid_format (fields_tree fs)") (simp_all add: native_header_def signature_header_def)
  have "headers_of view = map (view_header view) (header_spans 0 (all_headers fs)) @ [?r]"
    by (simp add: headers_of_def view header_spans_append)
  then have "collect_signature (encode_fields fs') ?native 0 (headers_of view) ([], False, [])
      = (v @ [10], True, [?n])"
    using other r native by (simp add: collect_append)
  moreover have "without_headers view [?n] = Some (encode_fields fs)"
    using cut_last_header [OF view] encode_fields_block [OF assms(1)] by simp
  ultimately show ?thesis
    by (simp add: commit_signed_payload_def assms(4,5) h_def [symmetric] fs'_def [symmetric]
        view_def [symmetric] Let_def)
qed

text \<open>
  C2: What is verified is what was signed. For every commit \<^verbatim>\<open>build_signed\<close> returns,
  \<^verbatim>\<open>signed_payload\<close> recovers exactly the bytes the signing program received and the signature
  it returned (with the single line end the encoding normalises), for both object formats and for
  signatures of any number of lines.
\<close>

theorem signed_payload_recovers:
  assumes "build_signed fs sign = Inr c" and "fields_typed fs"
  shows "\<exists>sp signature. commit_signed_payload c = Some sp \<and> sign (sp_payload sp) = Inr signature \<and>
    commit_new fs = Inr \<lparr>commit_tree = fields_tree fs, commit_parents = fields_parents fs,
      commit_payload = sp_payload sp, commit_header_end = header_end (sp_payload sp)\<rparr> \<and>
    sp_signature sp = (case strip_suffix signature [10] of Some s \<Rightarrow> s | None \<Rightarrow> signature) @ [10]"
proof -
  let ?native = "native_header (oid_format (fields_tree fs))"
  from assms(1) obtain u signature where
      no: "\<forall>h \<in> set (extra_headers fs). \<not> signature_header (header_name h)"
    and u: "commit_new fs = Inr u" and sg: "sign (commit_payload u) = Inr signature"
    and c: "commit_new (fs\<lparr>extra_headers := extra_headers fs @ [\<lparr>header_name = ?native,
      header_value = (case strip_suffix signature [10] of Some s \<Rightarrow> s | None \<Rightarrow> signature)\<rparr>]\<rparr>) = Inr c"
    by (auto simp add: build_signed_def and_then_Inr_iff list_ex_iff Let_def split: if_splits)
  define v where "v = (case strip_suffix signature [10] of Some s \<Rightarrow> s | None \<Rightarrow> signature)"
  let ?h = "\<lparr>header_name = ?native, header_value = v\<rparr>"
  let ?fs' = "fs\<lparr>extra_headers := extra_headers fs @ [?h]\<rparr>"
  have u': "fields_validate fs = Inr ()" "u = \<lparr>commit_tree = fields_tree fs,
      commit_parents = fields_parents fs, commit_payload = encode_fields fs,
      commit_header_end = header_end (encode_fields fs)\<rparr>"
    using u by (auto simp add: commit_new_def and_then_Inr_iff Let_def)
  have c': "fields_validate ?fs' = Inr ()" "commit_tree c = fields_tree fs"
      "commit_payload c = encode_fields ?fs'"
    using c by (auto simp add: commit_new_def and_then_Inr_iff Let_def v_def)
  have ok: "fields_ok fs" using fields_okI [OF u'(1) assms(2)] .
  have "fields_typed ?fs'" using assms(2) by (simp add: fields_typed_def)
  from fields_okI [OF c'(1) this] have "header_ok ?h" by (simp add: fields_ok_def)
  from signed_payload_block [OF ok no this c'(2,3)] u u' sg show ?thesis
    by (auto simp add: v_def)
qed

theorem signed_payload_recovers_witness:
  "\<exists>c sp signature. build_signed sample_fields (\<lambda>_. (Inr [45, 10, 45, 10] :: unit + bytes)) = Inr c \<and>
     commit_signed_payload c = Some sp \<and> sp_signature sp = [45, 10, 45, 10]"
proof -
  have v: "fields_validate (sample_fields\<lparr>extra_headers := extra_headers sample_fields @ hs\<rparr>) = validate_headers hs" for hs
    by (simp add: sample_fields_def fields_validate_def signature_validate_def component_invalid_def
        is_ascii_whitespace_def validate_header_name_def standard_name_def ascii_def)
  from v [of "[]"] have "fields_validate sample_fields = Inr ()" by simp
  then have n: "\<exists>c. commit_new sample_fields = Inr c" by (simp add: commit_new_def Let_def)
  have "\<exists>c. build_signed sample_fields (\<lambda>_. (Inr [45, 10, 45, 10] :: unit + bytes)) = Inr c"
    using n v [of "[\<lparr>header_name = native_header (oid_format (fields_tree sample_fields)), header_value = [45, 10, 45]\<rparr>]"]
    by (auto simp add: build_signed_def sample_fields_def signature_header_def ascii_def commit_new_def
        strip_suffix_def ends_with_def native_header_def validate_header_name_def standard_name_def Let_def
        and_then_Inr_iff)
  then obtain c where c: "build_signed sample_fields (\<lambda>_. (Inr [45, 10, 45, 10] :: unit + bytes)) = Inr c" ..
  have "fields_typed sample_fields"
    by (simp add: fields_typed_def sample_fields_def oid_wf_def)
  from signed_payload_recovers [OF c this] c show ?thesis
    by (auto simp add: strip_suffix_def ends_with_def)
qed

text \<open>
  C35: The strict and the lenient header readers agree: when \<^verbatim>\<open>CommitPayload::parse\<close> accepts a
  payload, \<^verbatim>\<open>CommitPayload::from_bytes\<close> finds the same headers and the same message.
\<close>

theorem payload_parse_eq_from_bytes:
  assumes "payload_parse bytes = Inr view"
  shows "payload_from_bytes bytes = view"
proof -
  have "parse_lines bytes lines start hs = Inr view \<Longrightarrow> scan_lines bytes lines start hs = view" for lines start hs
    by (induction bytes lines start hs rule: parse_lines.induct)
       (auto simp add: and_then_Inr_iff Let_def split: if_splits)
  with assms show ?thesis by (simp add: payload_parse_def payload_from_bytes_def)
qed

theorem payload_parse_eq_from_bytes_witness:
  "payload_from_bytes [97, 32, 98, 10, 10, 109]
     = \<lparr>view_bytes = [97, 32, 98, 10, 10, 109], view_headers = [(0, 4)], message_start = 5\<rparr>"
proof (rule payload_parse_eq_from_bytes)
  show "payload_parse [97, 32, 98, 10, 10, 109]
      = Inr \<lparr>view_bytes = [97, 32, 98, 10, 10, 109], view_headers = [(0, 4)], message_start = 5\<rparr>"
    by code_simp
qed

end
