(* ===== verification/Ref_Name.thy ===== *)
theory Ref_Name
  imports Encodings
begin

text \<open>
  \<^verbatim>\<open>src/refs/name.rs\<close> and \<^verbatim>\<open>src/hide_refs.rs\<close>: reference names and the rules that hide
  references from clients. A name is a path below the Git directory, so the validator is what
  keeps a name received from a peer inside it; the rules decide what a server advertises.
\<close>

section \<open>Reference names\<close>

type_synonym ref_name = bytes

datatype invalid_ref_name = InvalidRefName

definition HEAD :: ref_name where
  "HEAD = ascii ''HEAD''"

definition forbidden_byte :: "byte \<Rightarrow> bool" where
  "forbidden_byte b \<longleftrightarrow> b \<le> 32 \<or> b = 127 \<or> b \<in> set (ascii ''~^:?*['' @ [92])"

definition forbidden_part :: "bytes \<Rightarrow> bool" where
  "forbidden_part part \<longleftrightarrow>
     part = [] \<or> starts_with part (ascii ''.'') \<or> ends_with part (ascii ''.lock'')"

definition ref_new :: "bytes \<Rightarrow> invalid_ref_name + ref_name" where
  "ref_new bytes =
     (if bytes = HEAD then Inr HEAD
      else if \<not> starts_with bytes (ascii ''refs/'')
        \<or> ends_with bytes (ascii ''.'')
        \<or> list_ex (\<lambda>pair. pair = (46, 46) \<or> pair = (64, 123)) (windows2 bytes)
        \<or> list_ex forbidden_byte bytes
        \<or> list_ex forbidden_part (split_on 47 bytes)
      then Inl InvalidRefName
      else Inr bytes)"

definition branch :: "bytes \<Rightarrow> invalid_ref_name + ref_name" where
  "branch name = ref_new (ascii ''refs/heads/'' @ name)"

definition tag :: "bytes \<Rightarrow> invalid_ref_name + ref_name" where
  "tag name = ref_new (ascii ''refs/tags/'' @ name)"

definition remote_branch :: "bytes \<Rightarrow> bytes \<Rightarrow> invalid_ref_name + ref_name" where
  "remote_branch remote name = ref_new (ascii ''refs/remotes/'' @ remote @ ascii ''/'' @ name)"

definition is_branch :: "ref_name \<Rightarrow> bool" where
  "is_branch name = starts_with name (ascii ''refs/heads/'')"

definition per_worktree :: "ref_name \<Rightarrow> bool" where
  "per_worktree name \<longleftrightarrow>
     name = HEAD \<or>
     list_ex (starts_with name)
       [ascii ''refs/bisect/'', ascii ''refs/rewritten/'', ascii ''refs/worktree/'']"

section \<open>Hidden references\<close>

record config_entry =
  section_name :: bytes
  subsection_name :: "bytes option"
  variable_name :: bytes
  variable_value :: "bytes option"

definition eq_ignore_case :: "bytes \<Rightarrow> bytes \<Rightarrow> bool" where
  "eq_ignore_case a b \<longleftrightarrow> map to_ascii_lowercase a = map to_ascii_lowercase b"

type_synonym hide_rules = "(bytes \<times> bool) list"

definition hide_entry :: "bytes \<Rightarrow> config_entry \<Rightarrow> bool" where
  "hide_entry service entry \<longleftrightarrow>
     \<not> (subsection_name entry \<noteq> None
        \<or> \<not> eq_ignore_case (variable_name entry) (ascii ''hiderefs'')
        \<or> \<not> (eq_ignore_case (section_name entry) (ascii ''transfer'')
              \<or> eq_ignore_case (section_name entry) service))"

fun hide_rules_parse :: "bytes \<Rightarrow> config_entry list \<Rightarrow> string + hide_rules" where
  "hide_rules_parse service [] = Inr []"
| "hide_rules_parse service (entry # entries) =
     (if \<not> hide_entry service entry then hide_rules_parse service entries
      else
        and_then (ok_or ''implicit hideRefs pattern'' (variable_value entry)) (\<lambda>v.
        let (visible, pattern) =
              (case strip_prefix v (ascii ''!'') of
                 Some pattern \<Rightarrow> (True, pattern)
               | None \<Rightarrow> (False, v));
            pattern = (case strip_prefix pattern (ascii ''^'') of Some p \<Rightarrow> p | None \<Rightarrow> pattern)
        in if pattern = [] then Inl ''empty hideRefs pattern''
           else and_then (hide_rules_parse service entries) (\<lambda>rules.
                Inr ((pattern, visible) # rules))))"

definition rule_matches :: "bytes \<Rightarrow> ref_name \<Rightarrow> bool" where
  "rule_matches pattern name =
     (let pattern = (case strip_suffix pattern (ascii ''/'') of Some p \<Rightarrow> p | None \<Rightarrow> pattern)
      in case strip_prefix name pattern of
           Some rest \<Rightarrow> rest = [] \<or> starts_with rest (ascii ''/'')
         | None \<Rightarrow> False)"

definition hide_rules_matches :: "hide_rules \<Rightarrow> ref_name \<Rightarrow> bool" where
  "hide_rules_matches rules name =
     fold (\<lambda>(pattern, visible) hidden. if rule_matches pattern name then \<not> visible else hidden)
       rules False"

section \<open>Accepted names are safe paths\<close>

lemma windows2_append: "(a, b) \<in> set (windows2 (xs @ a # b # ys))"
proof (induction xs)
  case (Cons x xs)
  then show ?case by (cases xs) auto
qed simp

lemma windows2_iff: "(a, b) \<in> set (windows2 xs) \<longleftrightarrow> (\<exists>ys zs. xs = ys @ a # b # zs)"
proof
  show "(a, b) \<in> set (windows2 xs) \<Longrightarrow> \<exists>ys zs. xs = ys @ a # b # zs"
  proof (induction xs rule: windows2.induct)
    case (1 x y xs)
    then consider "a = x" "b = y" | "(a, b) \<in> set (windows2 (y # xs))" by auto
    then show ?case
    proof cases
      case 1
      then show ?thesis by (metis append_Nil)
    next
      case 2
      with "1.IH" show ?thesis by (metis append_Cons)
    qed
  qed auto
qed (auto simp add: windows2_append)

text \<open>What a valid name is, in the terms of the documentation of the constructor.\<close>

definition valid_name :: "bytes \<Rightarrow> bool" where
  "valid_name name \<longleftrightarrow>
     starts_with name (ascii ''refs/'') \<and> \<not> ends_with name (ascii ''.'')
     \<and> (46, 46) \<notin> set (windows2 name) \<and> (64, 123) \<notin> set (windows2 name)
     \<and> (\<forall>b \<in> set name. \<not> forbidden_byte b)
     \<and> (\<forall>part \<in> set (split_on 47 name). \<not> forbidden_part part)"

lemma ref_new_Inr_iff: "ref_new bytes = Inr name \<longleftrightarrow> name = bytes \<and> (bytes = HEAD \<or> valid_name bytes)"
  unfolding ref_new_def valid_name_def list_ex_iff by auto

lemma ref_new_HEAD [simp]: "ref_new HEAD = Inr HEAD"
  by (simp add: ref_new_def)

lemma valid_name_refs: "valid_name name \<Longrightarrow> \<exists>rest. name = ascii ''refs/'' @ rest"
  by (auto simp add: valid_name_def starts_with_iff)

lemma valid_name_plain:
  assumes "valid_name name"
  shows "name \<noteq> []" and "10 \<notin> set name" and "32 \<notin> set name" and "name \<noteq> HEAD"
  using assms valid_name_refs [OF assms]
  by (auto simp add: valid_name_def forbidden_byte_def HEAD_def ascii_def)

lemma HEAD_plain: "HEAD \<noteq> []" "10 \<notin> set HEAD" "32 \<notin> set HEAD"
  by (simp_all add: HEAD_def ascii_def)

lemma ref_new_safe:
  assumes "ref_new bytes = Inr name"
  shows "name = bytes"
    and "name = HEAD \<or> starts_with name (ascii ''refs/'')"
    and "\<forall>part \<in> set (split_on 47 name).
           part \<noteq> [] \<and> part \<noteq> ascii ''.'' \<and> part \<noteq> ascii ''..'' \<and> \<not> ends_with part (ascii ''.lock'')"
    and "\<forall>b \<in> set name. 32 < b \<and> b \<noteq> 127 \<and> b \<notin> set (ascii ''~^:?*['' @ [92])"
    and "\<nexists>xs ys. name = xs @ ascii ''..'' @ ys" and "\<nexists>xs ys. name = xs @ [64, 123] @ ys"
proof -
  have valid: "name = bytes" "name = HEAD \<or> valid_name name"
    using assms by (auto simp add: ref_new_Inr_iff)
  from valid show "name = bytes" and "name = HEAD \<or> starts_with name (ascii ''refs/'')"
    by (auto simp add: valid_name_def)
  have head: "split_on 47 HEAD = [HEAD]" by (rule split_on_no_sep) (simp add: HEAD_def ascii_def)
  show "\<forall>part \<in> set (split_on 47 name).
      part \<noteq> [] \<and> part \<noteq> ascii ''.'' \<and> part \<noteq> ascii ''..'' \<and> \<not> ends_with part (ascii ''.lock'')"
    using valid(2)
  proof
    assume "name = HEAD"
    then show ?thesis using head by (simp add: HEAD_def ascii_def ends_with_def)
  next
    assume "valid_name name"
    moreover have "forbidden_part (ascii ''.'')" "forbidden_part (ascii ''..'')"
      by (simp_all add: forbidden_part_def ascii_def)
    moreover have "forbidden_part []" by (simp add: forbidden_part_def)
    ultimately show ?thesis unfolding valid_name_def by (metis forbidden_part_def)
  qed
  show "\<forall>b \<in> set name. 32 < b \<and> b \<noteq> 127 \<and> b \<notin> set (ascii ''~^:?*['' @ [92])"
    using valid(2)
  proof
    assume "name = HEAD"
    then show ?thesis by (simp add: HEAD_def ascii_def)
  qed (auto simp add: valid_name_def forbidden_byte_def not_le)
  have pairs: "(46, 46) \<notin> set (windows2 name)" "(64, 123) \<notin> set (windows2 name)"
    using valid(2) by (auto simp add: valid_name_def HEAD_def ascii_def)
  then show "\<nexists>xs ys. name = xs @ ascii ''..'' @ ys" and "\<nexists>xs ys. name = xs @ [64, 123] @ ys"
    by (auto simp add: windows2_iff ascii_def)
qed


text \<open>
  C23: A name that \<^verbatim>\<open>RefName::new\<close> accepts is a path that stays below the Git directory and
  survives the text formats that carry it: it is \<^verbatim>\<open>HEAD\<close> or starts with \<^verbatim>\<open>refs/\<close>, none of
  its components is empty, \<^verbatim>\<open>.\<close>, \<^verbatim>\<open>..\<close> or a lock file, and it holds no control byte, no
  space and none of the revision operators. The name is returned unchanged.
\<close>

theorem ref_name_safe:
  assumes "ref_new bytes = Inr name"
  shows "name = bytes
    \<and> (name = HEAD \<or> starts_with name (ascii ''refs/''))
    \<and> (\<forall>part \<in> set (split_on 47 name).
           part \<noteq> [] \<and> part \<noteq> ascii ''.'' \<and> part \<noteq> ascii ''..'' \<and> \<not> ends_with part (ascii ''.lock''))
    \<and> (\<forall>b \<in> set name. 32 < b \<and> b \<noteq> 127 \<and> b \<notin> set (ascii ''~^:?*['' @ [92]))
    \<and> (\<nexists>xs ys. name = xs @ ascii ''..'' @ ys) \<and> (\<nexists>xs ys. name = xs @ [64, 123] @ ys)"
  by (intro conjI ref_new_safe [OF assms])

lemma ref_name_safe_witness:
  "starts_with (ascii ''refs/a'') (ascii ''refs/'') \<and>
   list_all (\<lambda>part. part \<noteq> [] \<and> part \<noteq> ascii ''.'' \<and> part \<noteq> ascii ''..'' \<and> \<not> ends_with part (ascii ''.lock''))
     (split_on 47 (ascii ''refs/a''))"
proof -
  have "ref_new (ascii ''refs/a'') = Inr (ascii ''refs/a'')"
    by (simp add: ref_new_def HEAD_def ascii_def starts_with_def ends_with_def forbidden_byte_def
        forbidden_part_def)
  from ref_name_safe [OF this] show ?thesis by (auto simp add: list_all_iff HEAD_def ascii_def)
qed

section \<open>The last matching rule decides\<close>

lemma rule_matches_iff:
  "rule_matches pattern name \<longleftrightarrow>
     (let p = (if ends_with pattern (ascii ''/'') then butlast pattern else pattern)
      in name = p \<or> (\<exists>rest. name = p @ 47 # rest))"
proof -
  have one: "(case strip_suffix pattern (ascii ''/'') of Some p \<Rightarrow> p | None \<Rightarrow> pattern) =
      (if ends_with pattern (ascii ''/'') then butlast pattern else pattern)"
    by (auto simp add: strip_suffix_def ascii_def butlast_conv_take)
  have two: "(case strip_prefix name p of Some rest \<Rightarrow> rest = [] \<or> starts_with rest (ascii ''/'') | None \<Rightarrow> False)
      \<longleftrightarrow> name = p \<or> (\<exists>rest. name = p @ 47 # rest)" for p
    by (auto simp add: strip_prefix_def starts_with_iff ascii_def)
  show ?thesis unfolding rule_matches_def Let_def one two ..
qed

text \<open>A loop that overwrites its flag at every match keeps what the last match says.\<close>

lemma fold_no_match: "\<forall>x \<in> set xs. \<not> m x \<Longrightarrow> fold (\<lambda>x flag. if m x then v x else flag) xs flag = flag"
  by (induction xs) auto

lemma fold_last_match:
  "fold (\<lambda>x flag. if m x then v x else flag) xs False \<longleftrightarrow>
     (\<exists>before x after. xs = before @ x # after \<and> m x \<and> v x \<and> (\<forall>y \<in> set after. \<not> m y))"
  (is "?fold xs \<longleftrightarrow> ?last")
proof -
  have at: "?fold (before @ x # after) = v x" if "m x" "\<forall>y \<in> set after. \<not> m y" for before x after
    using that by (simp add: fold_no_match)
  show ?thesis
  proof (cases "\<exists>x \<in> set xs. m x")
    case True
    then obtain before x after where "xs = before @ x # after" "m x" "\<forall>y \<in> set after. \<not> m y"
      by (rule split_list_last_propE)
    then show ?thesis using at by blast
  qed (auto simp add: fold_no_match)
qed

text \<open>
  C36: Whether a reference is hidden is decided by the last rule that covers it: it is hidden
  exactly when some rule without the visibility mark covers its name and no later rule does. A
  rule covers the reference it names, with or without a trailing slash, and everything below it,
  never a sibling that only shares a prefix.
\<close>

theorem hide_rules_last_match:
  "hide_rules_matches rules name \<longleftrightarrow>
     (\<exists>before pattern after.
        rules = before @ (pattern, False) # after
        \<and> (let p = (if ends_with pattern (ascii ''/'') then butlast pattern else pattern)
           in name = p \<or> (\<exists>rest. name = p @ 47 # rest))
        \<and> (\<nexists>p v. (p, v) \<in> set after \<and> rule_matches p name))"
proof -
  have "hide_rules_matches rules name =
      fold (\<lambda>r hidden. if rule_matches (fst r) name then \<not> snd r else hidden) rules False"
    by (simp add: hide_rules_matches_def case_prod_unfold)
  also have "\<dots> \<longleftrightarrow> (\<exists>before r after. rules = before @ r # after \<and> rule_matches (fst r) name \<and> \<not> snd r
      \<and> (\<forall>r' \<in> set after. \<not> rule_matches (fst r') name))"
    by (rule fold_last_match)
  also have "\<dots> \<longleftrightarrow> (\<exists>before pattern after. rules = before @ (pattern, False) # after
      \<and> rule_matches pattern name \<and> (\<nexists>p v. (p, v) \<in> set after \<and> rule_matches p name))"
    by (simp add: split_paired_Ex split_paired_Ball_Sigma Ball_def) blast
  finally show ?thesis unfolding rule_matches_iff .
qed

end
