(* ===== verification/Packed_Refs.thy ===== *)
theory Packed_Refs
  imports Ref_Name Object_Id Ordered_Map Lines
begin

text \<open>
  \<^verbatim>\<open>src/refs/packed.rs\<close>, the encoder of \<^verbatim>\<open>src/refs/pack.rs\<close> and the loose reader of
  \<^verbatim>\<open>src/refs/store.rs\<close>: the \<^verbatim>\<open>packed-refs\<close> file as it is parsed, written and edited.
  The path that the errors carry is left out. A reading of the cancellation flag is a function
  of the line at which it is polled.
\<close>

section \<open>The model\<close>

datatype reference_error =
    RefCancelled
  | RefMalformed string
  | RefUnsupported string
  | RefLimit string

datatype target = Direct object_id | Symbolic ref_name

record packed_record =
  packed_target :: object_id
  peeled_hint :: "object_id option"

type_synonym packed = "(ref_name, packed_record) omap"

definition ref_check_cancelled :: "bool \<Rightarrow> reference_error + unit" where
  "ref_check_cancelled cancel = (if cancel then Inl RefCancelled else Inr ())"

subsection \<open>Identities\<close>

definition packed_hex_digit :: "byte \<Rightarrow> byte option" where
  "packed_hex_digit byte =
     (if in_range 48 57 byte then Some (byte - 48)
      else if in_range 97 102 byte then Some (byte - 97 + 10)
      else if in_range 65 70 byte then Some (byte - 65 + 10)
      else None)"

text \<open>The loop over the pairs of digits, which fills the digest buffer from its start.\<close>

fun packed_hex_pairs :: "bytes \<Rightarrow> reference_error + bytes" where
  "packed_hex_pairs (high # low # rest) =
     (case (packed_hex_digit high, packed_hex_digit low) of
        (Some h, Some l) \<Rightarrow>
          and_then (packed_hex_pairs rest) (\<lambda>bytes. Inr ((push_bit 4 h OR l) # bytes))
      | _ \<Rightarrow> Inl (RefMalformed ''invalid repository-format reference target''))"
| "packed_hex_pairs _ = Inr []"

definition packed_parse_id :: "object_format \<Rightarrow> bytes \<Rightarrow> reference_error + object_id" where
  "packed_parse_id format bytes =
     (if length bytes \<noteq> digest_len format * 2
      then Inl (RefMalformed ''expected repository-format reference target'')
      else
        and_then (packed_hex_pairs bytes) (\<lambda>decoded.
        let digest = take 32 (decoded @ replicate 32 0)
        in and_then (ok_or (RefMalformed ''unsupported reference digest width'')
             (get_to digest (digest_len format))) (\<lambda>digest.
           and_then (map_err (\<lambda>_. RefMalformed ''invalid repository-format reference target'')
             (from_bytes format digest)) (\<lambda>oid.
           if is_null oid then Inl (RefMalformed ''zero reference target'') else Inr oid))))"

definition parse_loose :: "object_format \<Rightarrow> bytes \<Rightarrow> reference_error + target" where
  "parse_loose format bytes =
     (let bytes = trim_ascii_end bytes
      in case strip_prefix bytes (ascii ''ref: '') of
           Some name \<Rightarrow>
             and_then (map_err (\<lambda>_. RefMalformed ''invalid symbolic target'') (ref_new name)) (\<lambda>name.
             Inr (Symbolic name))
         | None \<Rightarrow> and_then (packed_parse_id format bytes) (\<lambda>oid. Inr (Direct oid)))"

subsection \<open>Parsing the file\<close>

record packed_state =
  ps_entries :: packed
  ps_previous :: "ref_name option"
  ps_can_peel :: bool
  ps_sorted :: bool

fun packed_traits :: "bytes list \<Rightarrow> packed_state \<Rightarrow> reference_error + packed_state" where
  "packed_traits [] st = Inr st"
| "packed_traits (trait # traits) st =
     (if trait = ascii ''peeled'' \<or> trait = ascii ''fully-peeled'' then packed_traits traits st
      else if trait = ascii ''sorted'' then packed_traits traits (st\<lparr>ps_sorted := True\<rparr>)
      else Inl (RefUnsupported ''packed-refs header trait''))"

definition packed_header :: "nat \<Rightarrow> bytes \<Rightarrow> packed_state \<Rightarrow> reference_error + packed_state" where
  "packed_header index header st =
     (if index \<noteq> 0 then Inl (RefMalformed ''misplaced packed header'')
      else packed_traits (filter (\<lambda>v. v \<noteq> []) (split_on 32 header)) st)"

definition packed_peeled ::
  "object_format \<Rightarrow> bytes \<Rightarrow> packed_state \<Rightarrow> reference_error + packed_state" where
  "packed_peeled format peeled st =
     (if \<not> ps_can_peel st then Inl (RefMalformed ''orphan or repeated peeled record'')
      else
        and_then (packed_parse_id format peeled) (\<lambda>peeled.
        case ps_previous st of
          None \<Rightarrow> Inl (RefMalformed ''orphan or repeated peeled record'')
        | Some name \<Rightarrow>
            (case om_get (ps_entries st) name of
               None \<Rightarrow> Inl (RefMalformed ''orphan or repeated peeled record'')
             | Some entry \<Rightarrow>
                 Inr (st\<lparr>ps_entries := om_insert name (entry\<lparr>peeled_hint := Some peeled\<rparr>) (ps_entries st),
                        ps_can_peel := False\<rparr>))))"

definition record_fields :: "nat \<Rightarrow> bytes \<Rightarrow> (bytes \<times> bytes) option" where
  "record_fields width line =
     (case split_at_checked line width of
        None \<Rightarrow> None
      | Some (oid, rest) \<Rightarrow>
          (case strip_prefix rest (ascii '' '') of
             None \<Rightarrow> None
           | Some name \<Rightarrow> if name = [] then None else Some (oid, name)))"

definition packed_entry ::
  "bool \<Rightarrow> object_format \<Rightarrow> nat \<Rightarrow> bytes \<Rightarrow> packed_state \<Rightarrow> reference_error + packed_state" where
  "packed_entry controlled format max_refs line st =
     and_then (ok_or (RefMalformed ''expected object ID and reference name'')
       (record_fields (digest_len format * 2) line)) (\<lambda>(oid, name).
     if controlled \<and> max_refs \<le> length (ps_entries st) then Inl (RefLimit ''reference entries'')
     else
       and_then (packed_parse_id format oid) (\<lambda>oid.
       and_then (map_err (\<lambda>_. RefMalformed ''invalid packed reference name'') (ref_new name)) (\<lambda>name.
       if name = HEAD \<or> per_worktree name then Inl (RefUnsupported ''packed per-worktree reference'')
       else if ps_sorted st \<and> (case ps_previous st of None \<Rightarrow> False | Some latest \<Rightarrow> name \<le> latest)
       then Inl (RefMalformed ''packed sorted order violated'')
       else if om_get (ps_entries st) name \<noteq> None
       then Inl (RefMalformed ''duplicate packed reference'')
       else Inr (st\<lparr>ps_entries :=
                      om_insert name \<lparr>packed_target = oid, peeled_hint = None\<rparr> (ps_entries st),
                    ps_previous := Some name, ps_can_peel := True\<rparr>))))"

definition packed_line ::
  "bool \<Rightarrow> object_format \<Rightarrow> nat \<Rightarrow> nat \<Rightarrow> bytes \<Rightarrow> packed_state \<Rightarrow> reference_error + packed_state" where
  "packed_line controlled format max_refs index line st =
     (case strip_prefix line (ascii ''# pack-refs with:'') of
        Some header \<Rightarrow> packed_header index header st
      | None \<Rightarrow>
          (case strip_prefix line (ascii ''^'') of
             Some peeled \<Rightarrow> packed_peeled format peeled st
           | None \<Rightarrow> packed_entry controlled format max_refs line st))"

fun packed_lines ::
  "bool \<Rightarrow> object_format \<Rightarrow> nat \<Rightarrow> (nat \<Rightarrow> bool) \<Rightarrow> nat \<Rightarrow> bytes list \<Rightarrow> packed_state \<Rightarrow>
     reference_error + packed_state" where
  "packed_lines controlled format max_refs cancel index [] st =
     and_then (if controlled then ref_check_cancelled (cancel index) else Inr ()) (\<lambda>_. Inr st)"
| "packed_lines controlled format max_refs cancel index (line # lines) st =
     and_then (if controlled \<and> index mod 64 = 0 then ref_check_cancelled (cancel index) else Inr ()) (\<lambda>_.
     and_then (packed_line controlled format max_refs index line st) (\<lambda>st.
     packed_lines controlled format max_refs cancel (Suc index) lines st))"

definition packed_start :: packed_state where
  "packed_start = \<lparr>ps_entries = [], ps_previous = None, ps_can_peel = False, ps_sorted = False\<rparr>"

definition parse_with ::
  "bool \<Rightarrow> object_format \<Rightarrow> bytes \<Rightarrow> nat \<Rightarrow> (nat \<Rightarrow> bool) \<Rightarrow> reference_error + packed" where
  "parse_with controlled format bytes max_refs cancel =
     (if bytes \<noteq> [] \<and> \<not> ends_with bytes (ascii [CHR 0x0A])
      then Inl (RefMalformed ''unterminated packed record'')
      else if bytes = [] then Inr []
      else
        let body = (case strip_suffix bytes (ascii [CHR 0x0A]) of Some b \<Rightarrow> b | None \<Rightarrow> bytes)
        in and_then (packed_lines controlled format max_refs cancel 0 (split_on 10 body) packed_start)
             (\<lambda>st. Inr (ps_entries st)))"

definition packed_parse :: "object_format \<Rightarrow> bytes \<Rightarrow> reference_error + packed" where
  "packed_parse format bytes = parse_with False format bytes usize_max (\<lambda>_. False)"

text \<open>The check of a cached snapshot against the limits of a caller.\<close>

definition admit :: "bytes \<Rightarrow> packed \<Rightarrow> nat \<Rightarrow> nat \<Rightarrow> reference_error + unit" where
  "admit bytes records max_bytes max_refs =
     (if max_bytes < length bytes then Inl (RefLimit ''reference bytes'')
      else if max_refs < length records then Inl (RefLimit ''reference entries'')
      else Inr ())"

subsection \<open>Editing and writing the file\<close>

fun without_lines :: "nat \<Rightarrow> ref_name \<Rightarrow> bool \<Rightarrow> bytes list \<Rightarrow> bytes" where
  "without_lines width name removed [] = []"
| "without_lines width name removed (line # lines) =
     (if starts_with line (ascii ''^'') \<and> removed then without_lines width name removed lines
      else
        let removed = (get_at line width = Some 32
              \<and> get_range line (width + 1) (length line - 1) = Some name)
        in (if removed then [] else line) @ without_lines width name removed lines)"

definition without_ref :: "object_format \<Rightarrow> bytes \<Rightarrow> ref_name \<Rightarrow> bytes" where
  "without_ref format bytes name =
     without_lines (digest_len format * 2) name False (split_inclusive 10 bytes)"

definition HEADER :: bytes where
  "HEADER = ascii ''# pack-refs with: peeled fully-peeled sorted '' @ [10]"

definition encode_record :: "ref_name \<times> object_id \<times> object_id option \<Rightarrow> bytes" where
  "encode_record = (\<lambda>(name, oid, peeled).
     oid_to_string oid @ 32 # name @ [10]
     @ (case peeled of
          None \<Rightarrow> []
        | Some peeled \<Rightarrow> 94 # oid_to_string peeled @ [10]))"

definition packed_encode :: "(ref_name, object_id \<times> object_id option) omap \<Rightarrow> bytes" where
  "packed_encode records = HEADER @ concat (map encode_record records)"


section \<open>Identities\<close>

lemma packed_hex_digit_ok: "packed_hex_digit b = ok (hex_digit b)"
  by (simp add: packed_hex_digit_def hex_digit_def)

lemma packed_hex_pairs_Inr: "packed_hex_pairs v = Inr bs \<longleftrightarrow> hex_pairs v = Inr bs"
proof (induction v arbitrary: bs rule: packed_hex_pairs.induct)
  case (1 high low rest)
  show ?case
  proof (cases "hex_digit high")
    case (Inr h)
    then show ?thesis
      using 1 by (cases "hex_digit low") (auto simp add: packed_hex_digit_ok and_then_Inr_iff)
  qed (simp add: packed_hex_digit_ok)
qed auto

lemma hex_pairs_length: "hex_pairs v = Inr bs \<Longrightarrow> length bs = length v div 2"
  by (induction v arbitrary: bs rule: hex_pairs.induct) (auto simp add: and_then_Inr_iff)

lemma from_hex_pairs:
  assumes "length v = digest_len format * 2"
  shows "from_hex format v = and_then (hex_pairs v) (from_bytes format)"
proof (cases "hex_pairs v")
  case (Inr bs)
  then have "length bs = digest_len format" using hex_pairs_length [OF Inr] assms by simp
  then show ?thesis using assms Inr
    by (cases format) (simp_all add: from_hex_def from_str_def from_bytes_def)
qed (use assms in \<open>cases format; simp add: from_hex_def from_str_def\<close>)

lemma from_hex_length: "from_hex format v = Inr oid \<Longrightarrow> length v = digest_len format * 2"
  by (cases format) (auto simp add: from_hex_def from_str_def and_then_Inr_iff split: if_splits)

text \<open>The direct decoder accepts what the general parser accepts, except the null identity.\<close>

lemma packed_parse_id_eq_from_hex:
  "packed_parse_id format v = Inr oid \<longleftrightarrow> from_hex format v = Inr oid \<and> \<not> is_null oid"
proof (cases "length v = digest_len format * 2")
  case True
  have take_32: "get_to (take 32 (bs @ replicate 32 0)) (digest_len format) = Some bs"
    if "hex_pairs v = Inr bs" for bs :: bytes
    using hex_pairs_length [OF that] True by (cases format) (simp_all add: get_to_def)
  show ?thesis
  proof (cases "hex_pairs v")
    case (Inr bs)
    then show ?thesis using True take_32 [OF Inr] packed_hex_pairs_Inr [of v bs]
      by (auto simp add: packed_parse_id_def from_hex_pairs and_then_Inr_iff)
  next
    case (Inl e)
    then have "\<nexists>bs. packed_hex_pairs v = Inr bs" by (simp add: packed_hex_pairs_Inr)
    then show ?thesis using True Inl by (auto simp add: packed_parse_id_def from_hex_pairs and_then_Inr_iff)
  qed
qed (auto simp add: packed_parse_id_def dest: from_hex_length)

text \<open>What a target may be: an identity of the repository's format other than the null one.\<close>

definition good_id :: "object_format \<Rightarrow> object_id \<Rightarrow> bool" where
  "good_id format oid \<longleftrightarrow> oid_wf oid \<and> oid_format oid = format \<and> \<not> is_null oid"


lemma packed_parse_id_good: "packed_parse_id format v = Inr oid \<Longrightarrow> good_id format oid"
  by (auto simp add: packed_parse_id_eq_from_hex good_id_def from_hex_def and_then_Inr_iff from_str_iff
      split: if_splits)

lemma packed_parse_id_text: "good_id format oid \<Longrightarrow> packed_parse_id format (oid_to_string oid) = Inr oid"
  using from_hex_to_string [of oid] by (auto simp add: packed_parse_id_eq_from_hex good_id_def)

lemma packed_parse_id_line:
  assumes "packed_parse_id format v = Inr oid"
  shows "length v = digest_len format * 2" and "list_all is_ascii_hexdigit v"
proof -
  have hex: "from_hex format v = Inr oid" using assms by (simp add: packed_parse_id_eq_from_hex)
  show len: "length v = digest_len format * 2" by (rule from_hex_length [OF hex])
  obtain bs where "hex_pairs v = Inr bs" using hex len by (auto simp add: from_hex_pairs)
  from hex_pairs_Inr [OF this] len show "list_all is_ascii_hexdigit v" by simp
qed

section \<open>What a parsed file holds\<close>

definition shared_name :: "ref_name \<Rightarrow> bool" where
  "shared_name name \<longleftrightarrow> valid_name name \<and> \<not> per_worktree name"

definition good_record :: "object_format \<Rightarrow> ref_name \<times> packed_record \<Rightarrow> bool" where
  "good_record format = (\<lambda>(name, r).
     shared_name name \<and> good_id format (packed_target r)
     \<and> (\<forall>oid. peeled_hint r = Some oid \<longrightarrow> good_id format oid))"

definition packed_ok :: "object_format \<Rightarrow> packed \<Rightarrow> bool" where
  "packed_ok format records \<longleftrightarrow> om_ok records \<and> (\<forall>p \<in> set records. good_record format p)"

lemma om_insert_member: "p \<in> set (om_insert k v m) \<Longrightarrow> p = (k, v) \<or> p \<in> set m"
  by (induction k v m rule: om_insert.induct) (auto split: if_splits)

lemma packed_ok_insert:
  "packed_ok format m \<Longrightarrow> good_record format (k, v) \<Longrightarrow> packed_ok format (om_insert k v m)"
  unfolding packed_ok_def by (auto simp add: om.insert_ok dest!: om_insert_member)

lemma packed_traits_Inr:
  "packed_traits ts st = Inr st' \<Longrightarrow>
     (\<forall>t \<in> set ts. t \<in> {ascii ''peeled'', ascii ''fully-peeled'', ascii ''sorted''})
     \<and> st' = st\<lparr>ps_sorted := ps_sorted st \<or> ascii ''sorted'' \<in> set ts\<rparr>"
proof (induction ts st rule: packed_traits.induct)
  case (2 t ts st)
  have "ascii ''peeled'' \<noteq> ascii ''sorted''" "ascii ''fully-peeled'' \<noteq> ascii ''sorted''"
    by (simp_all add: ascii_def)
  with 2 show ?case by (auto split: if_splits)
qed simp

lemma packed_header_entries:
  "packed_header i h st = Inr st' \<Longrightarrow>
     ps_entries st' = ps_entries st \<and> ps_previous st' = ps_previous st \<and> ps_can_peel st' = ps_can_peel st"
  by (auto simp add: packed_header_def dest!: packed_traits_Inr split: if_splits)

lemma packed_peeled_Inr:
  assumes "packed_peeled format peeled st = Inr st'"
  obtains name entry oid where "ps_can_peel st" "packed_parse_id format peeled = Inr oid"
    "ps_previous st = Some name" "om_get (ps_entries st) name = Some entry"
    "st' = st\<lparr>ps_entries := om_insert name (entry\<lparr>peeled_hint := Some oid\<rparr>) (ps_entries st),
              ps_can_peel := False\<rparr>"
  using assms
  by (auto simp add: packed_peeled_def and_then_Inr_iff split: if_splits option.splits)

lemma packed_entry_Inr:
  assumes "packed_entry controlled format max_refs line st = Inr st'"
  obtains oid name ds where "line = ds @ 32 # name" "packed_parse_id format ds = Inr oid"
    "shared_name name"
    "controlled \<longrightarrow> length (ps_entries st) < max_refs"
    "ps_sorted st \<longrightarrow> (\<forall>q. ps_previous st = Some q \<longrightarrow> q < name)"
    "om_get (ps_entries st) name = None"
    "st' = st\<lparr>ps_entries := om_insert name \<lparr>packed_target = oid, peeled_hint = None\<rparr> (ps_entries st),
              ps_previous := Some name, ps_can_peel := True\<rparr>"
proof -
  obtain ds name where fields: "record_fields (digest_len format * 2) line = Some (ds, name)"
    using assms by (auto simp add: packed_entry_def and_then_Inr_iff)
  have line: "line = ds @ 32 # name"
    using fields by (auto simp add: record_fields_def split_at_checked_Some_iff strip_prefix_Some_iff
        ascii_def split: option.splits if_splits)
  obtain oid where rest: "\<not> (controlled \<and> max_refs \<le> length (ps_entries st))"
    "packed_parse_id format ds = Inr oid" "ref_new name = Inr name"
    "\<not> (name = HEAD \<or> per_worktree name)"
    "\<not> (ps_sorted st \<and> (case ps_previous st of None \<Rightarrow> False | Some latest \<Rightarrow> name \<le> latest))"
    "om_get (ps_entries st) name = None"
    "st' = st\<lparr>ps_entries := om_insert name \<lparr>packed_target = oid, peeled_hint = None\<rparr> (ps_entries st),
              ps_previous := Some name, ps_can_peel := True\<rparr>"
    using assms fields
    by (auto simp add: packed_entry_def and_then_Inr_iff ref_new_Inr_iff split: if_splits)
  have "shared_name name" using rest by (auto simp add: shared_name_def ref_new_Inr_iff)
  moreover have "ps_sorted st \<longrightarrow> (\<forall>q. ps_previous st = Some q \<longrightarrow> q < name)"
    using rest(5) by (auto simp add: not_le)
  ultimately show thesis using that [OF line rest(2)] rest by (simp add: not_le)
qed

lemma packed_line_cases:
  assumes "packed_line controlled format max_refs index line st = Inr st'"
  obtains (header) h where "line = ascii ''# pack-refs with:'' @ h" "packed_header index h st = Inr st'"
  | (peeled) p where "line = 94 # p" "packed_peeled format p st = Inr st'"
  | (entry) "packed_entry controlled format max_refs line st = Inr st'"
    "\<not> starts_with line (ascii ''# pack-refs with:'')" "\<not> starts_with line (ascii ''^'')"
  using assms
  by (auto simp add: packed_line_def strip_prefix_Some_iff strip_prefix_None_iff ascii_def
      split: option.splits)


lemma packed_line_ok:
  assumes step: "packed_line controlled format max_refs index line st = Inr st'"
    and ok: "packed_ok format (ps_entries st)"
  shows "packed_ok format (ps_entries st')"
  using step
proof (cases rule: packed_line_cases)
  case (header h)
  then show ?thesis using ok by (auto dest: packed_header_entries)
next
  case (peeled p)
  from peeled(2) obtain name entry oid where p: "packed_parse_id format p = Inr oid"
    and get: "om_get (ps_entries st) name = Some entry"
    and st': "st' = st\<lparr>ps_entries := om_insert name (entry\<lparr>peeled_hint := Some oid\<rparr>) (ps_entries st),
              ps_can_peel := False\<rparr>"
    by (rule packed_peeled_Inr)
  have "(name, entry) \<in> set (ps_entries st)" using ok get by (simp add: packed_ok_def om_get_Some_iff)
  then have "good_record format (name, entry\<lparr>peeled_hint := Some oid\<rparr>)"
    using ok packed_parse_id_good [OF p] by (fastforce simp add: packed_ok_def good_record_def)
  then show ?thesis using ok st' by (simp add: packed_ok_insert)
next
  case entry
  from entry(1) obtain oid name ds where "packed_parse_id format ds = Inr oid" "shared_name name"
    "st' = st\<lparr>ps_entries := om_insert name \<lparr>packed_target = oid, peeled_hint = None\<rparr> (ps_entries st),
              ps_previous := Some name, ps_can_peel := True\<rparr>"
    by (rule packed_entry_Inr)
  then show ?thesis using ok
    by (auto simp add: good_record_def intro!: packed_ok_insert dest: packed_parse_id_good)
qed

lemma packed_lines_ok:
  "packed_lines controlled format max_refs cancel index lines st = Inr st' \<Longrightarrow>
     packed_ok format (ps_entries st) \<Longrightarrow> packed_ok format (ps_entries st')"
  by (induction lines arbitrary: index st)
     (auto simp add: and_then_Inr_iff dest: packed_line_ok)

lemma length_om_insert: "length (om_insert k v m) \<le> Suc (length m)"
  by (induction k v m rule: om_insert.induct) auto

lemma length_om_ok: "om_ok m \<Longrightarrow> length m = card (fst ` set m)"
  using distinct_card [OF om_ok_distinct, of m] by simp

lemma length_om_insert_present:
  assumes "om_ok m" "om_get m k = Some w"
  shows "length (om_insert k v m) = length m"
proof -
  have "insert k (fst ` set m) = fst ` set m"
    using assms om_get_in_keys [of m k] by (auto simp only: insert_absorb)
  then show ?thesis using assms by (simp add: length_om_ok om_insert_ok set_om_insert)
qed

lemma packed_line_limit:
  assumes step: "packed_line True format max_refs index line st = Inr st'"
    and ok: "packed_ok format (ps_entries st)" and len: "length (ps_entries st) \<le> max_refs"
  shows "length (ps_entries st') \<le> max_refs"
  using step
proof (cases rule: packed_line_cases)
  case (header h)
  then show ?thesis using len by (auto dest: packed_header_entries)
next
  case (peeled p)
  then show ?thesis using ok len
    by (auto elim!: packed_peeled_Inr simp add: length_om_insert_present packed_ok_def)
next
  case entry
  show ?thesis using entry(1)
  proof (rule packed_entry_Inr)
    fix oid name ds
    assume "True \<longrightarrow> length (ps_entries st) < max_refs"
      and "st' = st\<lparr>ps_entries := om_insert name \<lparr>packed_target = oid, peeled_hint = None\<rparr> (ps_entries st),
              ps_previous := Some name, ps_can_peel := True\<rparr>"
    then show ?thesis
      using length_om_insert [of name "\<lparr>packed_target = oid, peeled_hint = None\<rparr>" "ps_entries st"] by simp
  qed
qed

lemma packed_lines_limit:
  "packed_lines True format max_refs cancel index lines st = Inr st' \<Longrightarrow>
     packed_ok format (ps_entries st) \<Longrightarrow> length (ps_entries st) \<le> max_refs \<Longrightarrow>
     length (ps_entries st') \<le> max_refs"
proof (induction lines arbitrary: index st)
  case (Cons line lines)
  from Cons.prems obtain st1 where step: "packed_line True format max_refs index line st = Inr st1"
    and rest: "packed_lines True format max_refs cancel (Suc index) lines st1 = Inr st'"
    by (auto simp add: and_then_Inr_iff)
  show ?case
    using Cons.IH [OF rest packed_line_ok [OF step] packed_line_limit [OF step]] Cons.prems by blast
qed (auto simp add: and_then_Inr_iff)

text \<open>A run with limits makes the steps of the run without them.\<close>

lemma packed_entry_uncontrolled:
  assumes "packed_entry True format max_refs line st = Inr st'"
  shows "packed_entry False format limit line st = Inr st'"
proof (cases "record_fields (digest_len format * 2) line")
  case (Some p)
  then show ?thesis using assms
    by (cases p; cases "max_refs \<le> length (ps_entries st)") (simp_all add: packed_entry_def)
qed (use assms in \<open>simp add: packed_entry_def\<close>)

lemma packed_line_uncontrolled:
  assumes "packed_line True format max_refs index line st = Inr st'"
  shows "packed_line False format limit index line st = Inr st'"
  using assms packed_entry_uncontrolled
  by (auto simp only: packed_line_def split: option.splits)

lemma packed_lines_uncontrolled:
  "packed_lines True format max_refs cancel index lines st = Inr st' \<Longrightarrow>
     packed_lines False format limit poll index lines st = Inr st'"
  by (induction lines arbitrary: index st)
     (auto simp add: and_then_Inr_iff dest: packed_line_uncontrolled)

section \<open>Reading back what was written\<close>

lemma parse_with_block:
  assumes "lines \<noteq> []" "\<forall>l \<in> set lines. plain_line l"
  shows "parse_with controlled format (line_block lines) max_refs cancel =
    and_then (packed_lines controlled format max_refs cancel 0 lines packed_start)
      (\<lambda>st. Inr (ps_entries st))"
proof -
  have nl: "ascii [CHR 0x0A] = [10]" by (simp add: ascii_def)
  have ends: "ends_with (line_block lines) [10]" using assms by (auto simp add: line_block_join ends_with_iff)
  have body: "strip_suffix (line_block lines) [10] = Some (join_lines lines)"
    using assms by (simp add: line_block_join)
  have "line_block lines \<noteq> []" using assms by (simp add: line_block_join)
  then show ?thesis using assms ends body by (simp add: parse_with_def nl split_on_join)
qed

lemma packed_entry_step:
  assumes "packed_parse_id format ds = Inr oid" and name: "shared_name name"
    and sorted: "ps_sorted st \<longrightarrow> (\<forall>q. ps_previous st = Some q \<longrightarrow> q < name)"
    and fresh: "om_get (ps_entries st) name = None"
  shows "packed_entry False format max_refs (ds @ 32 # name) st =
    Inr (st\<lparr>ps_entries := om_insert name \<lparr>packed_target = oid, peeled_hint = None\<rparr> (ps_entries st),
            ps_previous := Some name, ps_can_peel := True\<rparr>)"
proof -
  have "record_fields (digest_len format * 2) (ds @ 32 # name) = Some (ds, name)"
    using packed_parse_id_line(1) [OF assms(1)] name valid_name_plain(1) [of name]
    by (simp add: record_fields_def strip_prefix_def ascii_def shared_name_def)
  moreover have "\<not> (ps_sorted st \<and> (case ps_previous st of None \<Rightarrow> False | Some latest \<Rightarrow> name \<le> latest))"
    using sorted by (auto split: option.splits)
  moreover have "ref_new name = Inr name" "\<not> (name = HEAD \<or> per_worktree name)"
    using name valid_name_plain(4) by (auto simp add: shared_name_def ref_new_Inr_iff)
  ultimately show ?thesis using assms(1) fresh by (simp add: packed_entry_def)
qed

lemma digest_len_pos: "0 < digest_len format"
  by (cases format) simp_all

lemma id_line_start:
  assumes "packed_parse_id format ds = Inr oid"
  shows "\<not> starts_with (ds @ rest) (ascii ''# pack-refs with:'')"
    and "\<not> starts_with (ds @ rest) (ascii ''^'')"
proof -
  obtain d ds' where ds: "ds = d # ds'"
    using packed_parse_id_line(1) [OF assms] digest_len_pos [of format] by (cases ds) auto
  have "is_ascii_hexdigit d" using packed_parse_id_line(2) [OF assms] ds by simp
  then have "d \<noteq> 35" "d \<noteq> 94" by (auto simp add: is_ascii_hexdigit_def is_ascii_digit_def in_range_def)
  then show "\<not> starts_with (ds @ rest) (ascii ''# pack-refs with:'')"
    and "\<not> starts_with (ds @ rest) (ascii ''^'')"
    by (simp_all add: ds ascii_def)
qed

lemma packed_line_entry:
  "packed_parse_id format ds = Inr oid \<Longrightarrow>
     packed_line controlled format max_refs index (ds @ rest) st =
       packed_entry controlled format max_refs (ds @ rest) st"
  by (simp add: packed_line_def strip_prefix_def id_line_start)

lemma packed_line_peeled:
  "packed_line controlled format max_refs index (94 # p) st = packed_peeled format p st"
  by (simp add: packed_line_def strip_prefix_def starts_with_def ascii_def)

definition record_lines :: "ref_name \<times> object_id \<times> object_id option \<Rightarrow> bytes list" where
  "record_lines = (\<lambda>(name, oid, peeled).
     (oid_to_string oid @ 32 # name) #
     (case peeled of None \<Rightarrow> [] | Some peeled \<Rightarrow> [94 # oid_to_string peeled]))"

definition header_line :: bytes where
  "header_line = ascii ''# pack-refs with: peeled fully-peeled sorted ''"

lemma packed_encode_lines:
  "packed_encode records = line_block (header_line # concat (map record_lines records))"
proof -
  have "concat (map encode_record records) = line_block (concat (map record_lines records))"
    by (induction records) (auto simp add: encode_record_def record_lines_def split: option.splits)
  then show ?thesis by (simp add: packed_encode_def HEADER_def header_line_def)
qed

definition good_source :: "object_format \<Rightarrow> ref_name \<times> object_id \<times> object_id option \<Rightarrow> bool" where
  "good_source format = (\<lambda>(name, oid, peeled).
     shared_name name \<and> good_id format oid \<and> (\<forall>p. peeled = Some p \<longrightarrow> good_id format p))"

lemma plain_id: "10 \<notin> set (oid_to_string oid)"
proof
  assume "10 \<in> set (oid_to_string oid)"
  then have "is_ascii_hexdigit 10"
    using list_all_hex2 [of "as_bytes oid"] unfolding oid_to_string_def list_all_iff by blast
  then show False by (simp add: is_ascii_hexdigit_def is_ascii_digit_def in_range_def)
qed

lemma record_lines_plain: "good_source format r \<Longrightarrow> l \<in> set (record_lines r) \<Longrightarrow> plain_line l"
  using valid_name_plain(2)
  by (auto simp add: good_source_def record_lines_def plain_line_def plain_id shared_name_def
      split: option.splits)

definition as_record :: "ref_name \<times> object_id \<times> object_id option \<Rightarrow> ref_name \<times> packed_record" where
  "as_record = (\<lambda>(name, oid, peeled). (name, \<lparr>packed_target = oid, peeled_hint = peeled\<rparr>))"

lemma packed_update_order:
  "st\<lparr>ps_previous := q, ps_entries := es\<rparr> = st\<lparr>ps_entries := es, ps_previous := q\<rparr>"
  by simp

lemma packed_record_step:
  assumes good: "good_source format (name, oid, peeled)" and ok: "om_ok (ps_entries st)"
    and above: "\<forall>p \<in> set (ps_entries st). fst p < name"
    and prev: "\<forall>q. ps_previous st = Some q \<longrightarrow> q < name"
  shows "\<exists>can_peel. packed_lines False format m c i (record_lines (name, oid, peeled) @ lines) st =
    packed_lines False format m c (i + length (record_lines (name, oid, peeled))) lines
      (st\<lparr>ps_entries := ps_entries st @ [as_record (name, oid, peeled)], ps_previous := Some name,
         ps_can_peel := can_peel\<rparr>)"
proof -
  let ?new = "\<lparr>packed_target = oid, peeled_hint = None\<rparr>"
  have oid: "packed_parse_id format (oid_to_string oid) = Inr oid"
    using good by (simp add: good_source_def packed_parse_id_text)
  have fresh: "om_get (ps_entries st) name = None"
    using above by (force simp add: om_get_def map_of_eq_None_iff)
  have first: "packed_line False format m i (oid_to_string oid @ 32 # name) st =
      Inr (st\<lparr>ps_entries := ps_entries st @ [(name, ?new)], ps_previous := Some name, ps_can_peel := True\<rparr>)"
    using packed_entry_step [OF oid _ _ fresh] good prev
    by (simp add: packed_line_entry [OF oid] good_source_def om_insert_last [OF above])
  show ?thesis
  proof (cases peeled)
    case None
    then show ?thesis
      by (intro exI [of _ True]) (simp add: record_lines_def first as_record_def)
  next
    case (Some p)
    have p: "packed_parse_id format (oid_to_string p) = Inr p"
      using good Some by (simp add: good_source_def packed_parse_id_text)
    have ok': "om_ok (ps_entries st @ [(name, ?new)])"
      using ok above by (simp add: om_ok_def sorted_wrt_append)
    then have get: "om_get (ps_entries st @ [(name, ?new)]) name = Some ?new"
      by (simp add: om_get_Some_iff)
    show ?thesis using Some
      by (intro exI [of _ False])
         (simp add: record_lines_def first packed_line_peeled packed_peeled_def p get
           om_insert_replace [OF ok'] as_record_def packed_update_order)
  qed
qed

lemma packed_records_run:
  assumes "\<forall>r \<in> set records. good_source format r" "sorted_wrt (<) (map fst records)"
    and "om_ok (ps_entries st)" "\<forall>p \<in> set (ps_entries st). \<forall>r \<in> set records. fst p < fst r"
    and "\<forall>q. ps_previous st = Some q \<longrightarrow> (\<forall>r \<in> set records. q < fst r)"
  shows "\<exists>st'. packed_lines False format m c i (concat (map record_lines records)) st = Inr st'
    \<and> ps_entries st' = ps_entries st @ map as_record records"
  using assms
proof (induction records arbitrary: st i)
  case (Cons r records)
  obtain name oid peeled where r: "r = (name, oid, peeled)" by (cases r) auto
  from packed_record_step [of format name oid peeled st m c i "concat (map record_lines records)"]
  obtain can_peel where step: "packed_lines False format m c i (record_lines r @ concat (map record_lines records)) st =
    packed_lines False format m c (i + length (record_lines r)) (concat (map record_lines records))
      (st\<lparr>ps_entries := ps_entries st @ [as_record r], ps_previous := Some name, ps_can_peel := can_peel\<rparr>)"
    using Cons.prems r by auto
  have "om_ok (ps_entries st @ [as_record r])"
    using Cons.prems r by (auto simp add: om_ok_def sorted_wrt_append as_record_def)
  then show ?case
    using Cons.IH [of "st\<lparr>ps_entries := ps_entries st @ [as_record r], ps_previous := Some name,
        ps_can_peel := can_peel\<rparr>" "i + length (record_lines r)"] Cons.prems step r
    by (auto simp add: as_record_def)
qed simp

lemma packed_header_step:
  "packed_line False format m 0 header_line packed_start = Inr (packed_start\<lparr>ps_sorted := True\<rparr>)"
proof -
  have "strip_prefix header_line (ascii ''# pack-refs with:'') =
      Some (ascii '' peeled fully-peeled sorted '')"
    by (simp add: header_line_def strip_prefix_def starts_with_def ascii_def)
  moreover have "filter (\<lambda>v. v \<noteq> []) (split_on 32 (ascii '' peeled fully-peeled sorted '')) =
      [ascii ''peeled'', ascii ''fully-peeled'', ascii ''sorted'']"
    by (simp add: ascii_def)
  ultimately show ?thesis by (simp add: packed_line_def packed_header_def ascii_def)
qed

text \<open>
  C8: Reading back what \<^verbatim>\<open>pack-refs\<close> wrote gives exactly the records it was given: for every
  ordered map from valid shared names to non-null identities of the repository's format, with or
  without peeled identities, the parser accepts the encoded file, including its claim to be
  sorted, and returns the same map.
\<close>

theorem packed_round_trip:
  assumes "om_ok records"
    and "\<forall>(name, oid, peeled) \<in> set records.
           ref_new name = Inr name \<and> \<not> per_worktree name
           \<and> (\<forall>x \<in> {oid} \<union> set_option peeled. oid_wf x \<and> oid_format x = format \<and> \<not> is_null x)"
  shows "packed_parse format (packed_encode records) =
    Inr (map (\<lambda>(name, oid, peeled). (name, \<lparr>packed_target = oid, peeled_hint = peeled\<rparr>)) records)"
proof -
  have good: "\<forall>r \<in> set records. good_source format r"
    using assms(2)
    by (fastforce simp add: good_source_def shared_name_def good_id_def ref_new_Inr_iff per_worktree_def)
  have sorted: "sorted_wrt (<) (map fst records)" using assms(1) by (simp add: om_ok_def)
  have "plain_line header_line" by (simp add: header_line_def plain_line_def ascii_def)
  then have plain: "\<forall>l \<in> set (header_line # concat (map record_lines records)). plain_line l"
    using good record_lines_plain by auto
  obtain st where "packed_lines False format usize_max (\<lambda>_. False) 1 (concat (map record_lines records))
      (packed_start\<lparr>ps_sorted := True\<rparr>) = Inr st" "ps_entries st = map as_record records"
    using packed_records_run [OF good sorted, of "packed_start\<lparr>ps_sorted := True\<rparr>" usize_max "\<lambda>_. False" 1]
    by (auto simp add: packed_start_def)
  then show ?thesis
    unfolding packed_parse_def packed_encode_lines
    by (subst parse_with_block [OF _ plain]) (simp_all add: packed_header_step as_record_def)
qed


lemma packed_round_trip_witness:
  "packed_parse Sha1 (packed_encode
     [(ascii ''refs/a'', IdSha1 (replicate 20 1), None),
      (ascii ''refs/b'', IdSha1 (replicate 20 2), Some (IdSha1 (replicate 20 1)))]) =
   Inr [(ascii ''refs/a'', \<lparr>packed_target = IdSha1 (replicate 20 1), peeled_hint = None\<rparr>),
        (ascii ''refs/b'', \<lparr>packed_target = IdSha1 (replicate 20 2),
           peeled_hint = Some (IdSha1 (replicate 20 1))\<rparr>)]"
proof -
  have "valid_name (ascii ''refs/a'')" "valid_name (ascii ''refs/b'')"
    by (simp_all add: valid_name_def HEAD_def ascii_def starts_with_def ends_with_def forbidden_byte_def
        forbidden_part_def)
  moreover have "\<not> per_worktree (ascii ''refs/a'')" "\<not> per_worktree (ascii ''refs/b'')"
    by (simp_all add: per_worktree_def HEAD_def ascii_def starts_with_def)
  moreover have "ascii ''refs/a'' < ascii ''refs/b''" by (simp add: ascii_def)
  ultimately show ?thesis
    by (subst packed_round_trip)
       (simp_all add: ref_new_Inr_iff oid_wf_def is_null_def list_all_iff)
qed

section \<open>A sample file\<close>

definition sample_packed :: bytes where
  "sample_packed = line_block [oid_to_string (IdSha1 (replicate 20 1)) @ 32 # ascii ''refs/a'']"

definition sample_records :: packed where
  "sample_records = [(ascii ''refs/a'', \<lparr>packed_target = IdSha1 (replicate 20 1), peeled_hint = None\<rparr>)]"

lemma shared_sample: "shared_name (ascii ''refs/a'')"
  by (simp add: shared_name_def valid_name_def per_worktree_def HEAD_def ascii_def starts_with_def
      ends_with_def forbidden_byte_def forbidden_part_def)

lemma packed_entry_controlled:
  "length (ps_entries st) < max_refs \<Longrightarrow>
     packed_entry True format max_refs line st = packed_entry False format max_refs line st"
  by (simp add: packed_entry_def)

lemma one_record_parse:
  assumes good: "good_id format oid" and name: "shared_name name" and m: "0 < max_refs"
  shows "parse_with controlled format (line_block [oid_to_string oid @ 32 # name]) max_refs (\<lambda>_. False) =
    Inr [(name, \<lparr>packed_target = oid, peeled_hint = None\<rparr>)]"
proof -
  note oid = packed_parse_id_text [OF good]
  have plain: "\<forall>l \<in> set [oid_to_string oid @ 32 # name]. plain_line l"
    using valid_name_plain(2) name by (simp add: plain_line_def plain_id shared_name_def)
  show ?thesis
    unfolding parse_with_block [OF list.distinct(2) plain]
    by (cases controlled)
       (simp_all add: m packed_line_entry [OF oid] packed_entry_controlled packed_start_def
        packed_entry_step [OF oid name] ref_check_cancelled_def)
qed

lemma sample_parse:
  "0 < max_refs \<Longrightarrow>
     parse_with controlled Sha1 sample_packed max_refs (\<lambda>_. False) = Inr sample_records"
  unfolding sample_packed_def sample_records_def
  by (rule one_record_parse [OF _ shared_sample])
     (simp_all add: good_id_def oid_wf_def is_null_def list_all_iff)

lemma parse_with_typed:
  assumes "parse_with controlled format bytes max_refs cancel = Inr records"
  shows "om_ok records"
    and "\<forall>(name, r) \<in> set records.
           ref_new name = Inr name \<and> name \<noteq> HEAD \<and> \<not> per_worktree name
           \<and> (\<forall>oid \<in> {packed_target r} \<union> set_option (peeled_hint r).
                oid_wf oid \<and> oid_format oid = format \<and> \<not> is_null oid)"
    and "controlled \<Longrightarrow> packed_parse format bytes = Inr records \<and> length records \<le> max_refs"
proof -
  have start: "packed_ok format (ps_entries packed_start)" "length (ps_entries packed_start) \<le> max_refs"
    by (simp_all add: packed_ok_def packed_start_def)
  consider "bytes = []" "records = []" | st where "bytes \<noteq> []" "ends_with bytes (ascii [CHR 0x0A])"
    "packed_lines controlled format max_refs cancel 0 (split_on 10
       (case strip_suffix bytes (ascii [CHR 0x0A]) of Some b \<Rightarrow> b | None \<Rightarrow> bytes)) packed_start = Inr st"
    "records = ps_entries st"
    using assms by (auto simp add: parse_with_def Let_def and_then_Inr_iff split: if_splits)
  then have ok: "packed_ok format records
    \<and> (controlled \<longrightarrow> packed_parse format bytes = Inr records \<and> length records \<le> max_refs)"
  proof cases
    case 1
    then show ?thesis by (simp add: packed_ok_def packed_parse_def parse_with_def)
  next
    case 2
    then have "packed_ok format records" using packed_lines_ok start(1) by blast
    then show ?thesis
      using 2 packed_lines_limit [OF _ start] packed_lines_uncontrolled
      by (cases controlled) (auto simp add: packed_parse_def parse_with_def Let_def)
  qed
  then show "om_ok records"
    and "controlled \<Longrightarrow> packed_parse format bytes = Inr records \<and> length records \<le> max_refs"
    by (simp_all add: packed_ok_def)
  show "\<forall>(name, r) \<in> set records. ref_new name = Inr name \<and> name \<noteq> HEAD \<and> \<not> per_worktree name
      \<and> (\<forall>oid \<in> {packed_target r} \<union> set_option (peeled_hint r).
           oid_wf oid \<and> oid_format oid = format \<and> \<not> is_null oid)"
    using ok valid_name_plain(4)
    by (fastforce simp add: packed_ok_def good_record_def shared_name_def good_id_def ref_new_Inr_iff)
qed

text \<open>
  C21: A \<^verbatim>\<open>packed-refs\<close> file that parses holds, in strictly ascending order, only valid names
  of shared references with non-null targets and peeled targets of the repository's format. A
  parse under a limit that succeeds returns what the unlimited parse returns and never more
  records than the limit allows.
\<close>

theorem packed_parse_typed:
  assumes "parse_with controlled format bytes max_refs cancel = Inr records"
  shows "om_ok records
    \<and> (\<forall>(name, r) \<in> set records.
           ref_new name = Inr name \<and> name \<noteq> HEAD \<and> \<not> per_worktree name
           \<and> (\<forall>oid \<in> {packed_target r} \<union> set_option (peeled_hint r).
                oid_wf oid \<and> oid_format oid = format \<and> \<not> is_null oid))
    \<and> (controlled \<longrightarrow> packed_parse format bytes = Inr records \<and> length records \<le> max_refs)"
  using parse_with_typed [OF assms] by blast

lemma packed_parse_typed_witness:
  "om_ok sample_records \<and> packed_parse Sha1 sample_packed = Inr sample_records \<and> length sample_records \<le> 5"
  using packed_parse_typed [OF sample_parse [of 5 True]] by simp

section \<open>Removing one reference\<close>

text \<open>\<open>kept_lines\<close> is what \<^verbatim>\<open>without_ref\<close> leaves, as lines.\<close>

definition names_ref :: "nat \<Rightarrow> ref_name \<Rightarrow> bytes \<Rightarrow> bool" where
  "names_ref width name line \<longleftrightarrow> (\<exists>ds. length ds = width \<and> line = ds @ 32 # name)"

fun kept_lines :: "nat \<Rightarrow> ref_name \<Rightarrow> bool \<Rightarrow> bytes list \<Rightarrow> bytes list" where
  "kept_lines width name removed [] = []"
| "kept_lines width name removed (line # lines) =
     (if starts_with line (ascii ''^'') \<and> removed then kept_lines width name removed lines
      else if names_ref width name line then kept_lines width name True lines
      else line # kept_lines width name False lines)"

lemma names_ref_line:
  assumes "name \<noteq> []"
  shows "get_at (line @ [10]) width = Some 32
      \<and> get_range (line @ [10]) (width + 1) (length (line @ [10]) - 1) = Some name \<longleftrightarrow>
    names_ref width name line"
proof
  assume l: "get_at (line @ [10]) width = Some 32
      \<and> get_range (line @ [10]) (width + 1) (length (line @ [10]) - 1) = Some name"
  then have len: "width < length line" by (auto simp add: get_range_def split: if_splits)
  then have "line ! width = 32" using l by (auto simp add: get_at_def nth_append split: if_splits)
  moreover have "drop (Suc width) line = name"
    using l len by (auto simp add: get_range_def split: if_splits)
  ultimately show "names_ref width name line"
    unfolding names_ref_def using len id_take_nth_drop [OF len] by (intro exI [of _ "take width line"]) simp
next
  assume "names_ref width name line"
  then show "get_at (line @ [10]) width = Some 32
      \<and> get_range (line @ [10]) (width + 1) (length (line @ [10]) - 1) = Some name"
    by (auto simp add: names_ref_def get_at_def get_range_def nth_append)
qed

lemma without_lines_block:
  assumes "name \<noteq> []"
  shows "without_lines width name removed (map (\<lambda>l. l @ [10]) lines) =
    line_block (kept_lines width name removed lines)"
proof (induction lines arbitrary: removed)
  case (Cons line lines)
  have "starts_with (line @ [10]) (ascii ''^'') = starts_with line (ascii ''^'')"
    by (cases line) (simp_all add: ascii_def)
  then show ?case
    using Cons names_ref_line [OF assms, of line width] by (simp only: without_lines.simps list.map) simp
qed simp

lemma split_on_last_piece:
  assumes "d \<notin> set ys"
  shows "\<exists>p ps. split_on d (xs @ d # ys) = p # ps @ [ys]"
proof (induction xs)
  case Nil
  then show ?case using assms by (auto simp add: split_on_no_sep)
next
  case (Cons x xs)
  then obtain p ps where "split_on d (xs @ d # ys) = p # ps @ [ys]" by blast
  then show ?case by (cases "x = d") (auto intro: exI [of _ "p # ps"])
qed

text \<open>A header that was accepted names no reference.\<close>

lemma header_not_ref:
  assumes ok: "packed_header index h st = Inr st'" and name: "name = HEAD \<or> valid_name name"
    and w: "17 \<le> width"
  shows "\<not> names_ref width name (ascii ''# pack-refs with:'' @ h)"
proof
  assume "names_ref width name (ascii ''# pack-refs with:'' @ h)"
  then obtain ds where ds: "length ds = width" "ascii ''# pack-refs with:'' @ h = ds @ 32 # name"
    by (auto simp add: names_ref_def)
  have "drop 17 (ascii ''# pack-refs with:'' @ h) = h" by simp
  moreover have "drop 17 (ds @ 32 # name) = drop 17 ds @ 32 # name" using w ds(1) by simp
  ultimately have "h = drop 17 ds @ 32 # name" unfolding ds(2) by (rule trans [OF sym])
  moreover have "32 \<notin> set name" using name valid_name_plain(3) HEAD_plain(3) by blast
  ultimately have "name \<in> set (split_on 32 h)" using split_on_last_piece [of 32 name "drop 17 ds"] by auto
  moreover have "name \<noteq> []" using name valid_name_plain(1) HEAD_plain(1) by auto
  moreover have "\<forall>t \<in> set (filter (\<lambda>v. v \<noteq> []) (split_on 32 h)).
      t \<in> {ascii ''peeled'', ascii ''fully-peeled'', ascii ''sorted''}"
    using ok packed_traits_Inr by (auto simp add: packed_header_def split: if_splits)
  ultimately have "name \<in> {ascii ''peeled'', ascii ''fully-peeled'', ascii ''sorted''}" by simp
  then show False using name by (auto simp add: HEAD_def valid_name_def starts_with_def ascii_def)
qed

text \<open>
  The run over the whole file and the run over the kept lines: their maps differ in the removed
  name only, and they agree on the rest of the state unless the last record was the removed one.
\<close>

definition same_but :: "ref_name \<Rightarrow> bool \<Rightarrow> packed_state \<Rightarrow> packed_state \<Rightarrow> bool" where
  "same_but name removed st kept \<longleftrightarrow>
     om_ok (ps_entries st) \<and> ps_entries kept = om_remove name (ps_entries st)
     \<and> ps_sorted kept = ps_sorted st
     \<and> (if removed
        then ps_previous st = Some name
          \<and> (ps_sorted st \<longrightarrow> (\<forall>q. ps_previous kept = Some q \<longrightarrow> q < name))
        else ps_previous kept = ps_previous st \<and> ps_can_peel kept = ps_can_peel st
          \<and> (ps_can_peel st \<longrightarrow> ps_previous st \<noteq> Some name))"

lemma same_but_header:
  assumes "packed_header index h st = Inr st'" "same_but name False st kept"
  shows "\<exists>kept'. packed_header 0 h kept = Inr kept' \<and> same_but name False st' kept'"
proof -
  have traits: "packed_traits ts st1 = Inr st1' \<Longrightarrow> same_but name False st1 kept1 \<Longrightarrow>
      \<exists>kept'. packed_traits ts kept1 = Inr kept' \<and> same_but name False st1' kept'" for ts st1 st1' kept1
    by (induction ts st1 arbitrary: kept1 rule: packed_traits.induct)
       (auto simp add: same_but_def split: if_splits)
  then show ?thesis using assms by (auto simp add: packed_header_def split: if_splits)
qed

lemma same_but_peeled:
  assumes "packed_peeled format p st = Inr st'" "same_but name False st kept"
  shows "\<exists>kept'. packed_peeled format p kept = Inr kept' \<and> same_but name False st' kept'"
  using assms(1)
proof (rule packed_peeled_Inr)
  fix n entry oid
  assume st: "ps_can_peel st" "packed_parse_id format p = Inr oid" "ps_previous st = Some n"
    "om_get (ps_entries st) n = Some entry"
    "st' = st\<lparr>ps_entries := om_insert n (entry\<lparr>peeled_hint := Some oid\<rparr>) (ps_entries st),
              ps_can_peel := False\<rparr>"
  then have "n \<noteq> name" using assms(2) by (auto simp add: same_but_def)
  then show ?thesis
    using st assms(2)
    by (auto simp add: same_but_def packed_peeled_def om_get_remove om_insert_ok om_remove_insert_other)
qed

lemma same_but_dropped:
  assumes "packed_peeled format p st = Inr st'" "same_but name True st kept"
  shows "same_but name True st' kept"
  using assms(1)
proof (rule packed_peeled_Inr)
  fix n entry oid
  assume "ps_previous st = Some n"
    "st' = st\<lparr>ps_entries := om_insert n (entry\<lparr>peeled_hint := Some oid\<rparr>) (ps_entries st),
              ps_can_peel := False\<rparr>"
  then show ?thesis
    using assms(2) by (auto simp add: same_but_def om_insert_ok om_remove_insert)
qed


lemma same_but_entry:
  assumes step: "packed_entry False format m line st = Inr st'" and rel: "same_but name removed st kept"
    and other: "\<not> names_ref (digest_len format * 2) name line"
  shows "\<exists>kept'. packed_entry False format m line kept = Inr kept' \<and> same_but name False st' kept'"
  using step
proof (rule packed_entry_Inr)
  fix oid n ds
  assume line: "line = ds @ 32 # n" and p: "packed_parse_id format ds = Inr oid" and n: "shared_name n"
    and sorted: "ps_sorted st \<longrightarrow> (\<forall>q. ps_previous st = Some q \<longrightarrow> q < n)"
    and fresh: "om_get (ps_entries st) n = None"
    and st': "st' = st\<lparr>ps_entries := om_insert n \<lparr>packed_target = oid, peeled_hint = None\<rparr> (ps_entries st),
              ps_previous := Some n, ps_can_peel := True\<rparr>"
  have "n \<noteq> name" using other line packed_parse_id_line(1) [OF p] by (auto simp add: names_ref_def)
  moreover have "ps_sorted kept \<longrightarrow> (\<forall>q. ps_previous kept = Some q \<longrightarrow> q < n)"
    using sorted rel by (auto simp add: same_but_def split: if_splits dest: less_trans)
  moreover have "om_get (ps_entries kept) n = None"
    using rel fresh by (simp add: same_but_def om_get_remove)
  ultimately show ?thesis
    using packed_entry_step [OF p n] line rel st'
    by (auto simp add: same_but_def om_insert_ok om_remove_insert_other)
qed

lemma same_but_removed:
  assumes step: "packed_entry False format m line st = Inr st'" and rel: "same_but name removed st kept"
    and named: "names_ref (digest_len format * 2) name line"
  shows "same_but name True st' kept"
  using step
proof (rule packed_entry_Inr)
  fix oid n ds
  assume line: "line = ds @ 32 # n" and p: "packed_parse_id format ds = Inr oid"
    and sorted: "ps_sorted st \<longrightarrow> (\<forall>q. ps_previous st = Some q \<longrightarrow> q < n)"
    and st': "st' = st\<lparr>ps_entries := om_insert n \<lparr>packed_target = oid, peeled_hint = None\<rparr> (ps_entries st),
              ps_previous := Some n, ps_can_peel := True\<rparr>"
  have "n = name" using named line packed_parse_id_line(1) [OF p] by (auto simp add: names_ref_def)
  then show ?thesis
    using rel sorted st'
    by (auto simp add: same_but_def om_insert_ok om_remove_insert split: if_splits)
qed

lemma peeled_not_ref:
  assumes "packed_peeled format p st = Inr st'"
  shows "\<not> names_ref (digest_len format * 2) name (94 # p)"
  using assms
proof (rule packed_peeled_Inr)
  fix oid
  assume p: "packed_parse_id format p = Inr oid"
  show ?thesis
  proof
    assume "names_ref (digest_len format * 2) name (94 # p)"
    then obtain ds where ds: "length ds = digest_len format * 2" "94 # p = ds @ 32 # name"
      by (auto simp add: names_ref_def)
    then have "32 \<in> set p" using digest_len_pos [of format] by (cases ds) auto
    then have "is_ascii_hexdigit 32" using packed_parse_id_line(2) [OF p] by (simp add: list_all_iff)
    then show False by (simp add: is_ascii_hexdigit_def is_ascii_digit_def in_range_def)
  qed
qed

lemma kept_lines_step:
  assumes step: "packed_line False format m i line st = Inr st'" and rel: "same_but name removed st kept"
    and name: "name = HEAD \<or> valid_name name" and j: "removed \<longrightarrow> i \<noteq> 0" "i = 0 \<longrightarrow> j = 0"
  shows "if starts_with line (ascii ''^'') \<and> removed then same_but name True st' kept
     else if names_ref (digest_len format * 2) name line then same_but name True st' kept
     else \<exists>kept'. packed_line False format m j line kept = Inr kept' \<and> same_but name False st' kept'"
  using step
proof (cases rule: packed_line_cases)
  case (header h)
  then have "i = 0" by (simp add: packed_header_def split: if_splits)
  moreover have "\<not> names_ref (digest_len format * 2) name line"
    unfolding header(1) by (rule header_not_ref [OF header(2) name]) (cases format; simp)
  moreover have "\<not> starts_with line (ascii ''^'')" using header by (simp add: ascii_def)
  ultimately show ?thesis
    using header j rel same_but_header [OF header(2)] by (auto simp add: packed_line_def)
next
  case (peeled p)
  then have "starts_with line (ascii ''^'')" by (simp add: ascii_def)
  then show ?thesis
    using peeled rel same_but_peeled [OF peeled(2)] same_but_dropped [OF peeled(2)]
      peeled_not_ref [OF peeled(2), of name]
    by (cases removed) (auto simp add: packed_line_peeled)
next
  case entry
  then show ?thesis
    using same_but_entry [OF entry(1) rel] same_but_removed [OF entry(1) rel]
    by (auto simp add: packed_line_def strip_prefix_def)
qed

lemma kept_lines_run:
  assumes "packed_lines False format m c i lines st = Inr st'" "same_but name removed st kept"
    and "name = HEAD \<or> valid_name name" "removed \<longrightarrow> i \<noteq> 0" "i = 0 \<longrightarrow> j = 0"
  shows "\<exists>kept'. packed_lines False format m c j (kept_lines (digest_len format * 2) name removed lines) kept
      = Inr kept' \<and> ps_entries kept' = om_remove name (ps_entries st')"
  using assms
proof (induction lines arbitrary: i j st kept removed)
  case Nil
  then show ?case by (simp add: same_but_def)
next
  case (Cons line lines)
  from Cons.prems(1) obtain st1 where step: "packed_line False format m i line st = Inr st1"
    and rest: "packed_lines False format m c (Suc i) lines st1 = Inr st'"
    by (auto simp add: and_then_Inr_iff)
  note one = kept_lines_step [OF step Cons.prems(2-5)]
  show ?case
  proof (cases "starts_with line (ascii ''^'') \<and> removed \<or> names_ref (digest_len format * 2) name line")
    case True
    then have "same_but name True st1 kept" using one by (auto split: if_splits)
    from Cons.IH [OF rest this Cons.prems(3), of j] show ?thesis
      using True by auto
  next
    case False
    then obtain kept1 where "packed_line False format m j line kept = Inr kept1" "same_but name False st1 kept1"
      using one by auto
    with Cons.IH [OF rest this(2) Cons.prems(3), of "Suc j"] False show ?thesis by auto
  qed
qed


lemma parse_with_lines:
  assumes "parse_with False format bytes m c = Inr records" "bytes \<noteq> []"
  obtains lines st where "bytes = line_block lines" "lines \<noteq> []" "\<forall>l \<in> set lines. plain_line l"
    "packed_lines False format m c 0 lines packed_start = Inr st" "records = ps_entries st"
proof -
  have "ends_with bytes (ascii [CHR 0x0A])" using assms by (auto simp add: parse_with_def split: if_splits)
  then obtain body where body: "bytes = body @ [10]" by (auto simp add: ends_with_iff ascii_def)
  have block: "bytes = line_block (split_on 10 body)"
    using body by (simp add: line_block_join join_split_on)
  have plain: "\<forall>l \<in> set (split_on 10 body). plain_line l" by (simp add: plain_line_split_on)
  from assms(1) obtain st where "packed_lines False format m c 0 (split_on 10 body) packed_start = Inr st"
    "records = ps_entries st"
    unfolding block parse_with_block [OF split_on_not_Nil plain] by (auto simp add: and_then_Inr_iff)
  from that [OF block split_on_not_Nil plain this] show thesis .
qed

lemma kept_lines_plain:
  "\<forall>l \<in> set lines. plain_line l \<Longrightarrow> \<forall>l \<in> set (kept_lines w name removed lines). plain_line l"
  by (induction lines arbitrary: removed) auto

text \<open>
  C7: Deleting a packed reference edits the file's text and removes exactly that reference: if
  the file parses, what \<^verbatim>\<open>without_ref\<close> leaves parses too, to the same records without the
  named one. Its peeled line goes with it, every other record keeps its peeled target, and a file
  that declares itself sorted is still accepted as sorted.
\<close>

theorem without_ref_parses:
  assumes "packed_parse format bytes = Inr records" and "ref_new name = Inr name"
  shows "packed_parse format (without_ref format bytes name) = Inr (om_remove name records)"
proof (cases "bytes = []")
  case True
  then show ?thesis using assms(1)
    by (auto simp add: packed_parse_def parse_with_def without_ref_def om_remove_def)
next
  case False
  have name: "name = HEAD \<or> valid_name name" using assms(2) by (simp add: ref_new_Inr_iff)
  then have "name \<noteq> []" using valid_name_plain(1) HEAD_plain(1) by auto
  obtain lines st where lines: "bytes = line_block lines" "\<forall>l \<in> set lines. plain_line l"
    and run: "packed_lines False format usize_max (\<lambda>_. False) 0 lines packed_start = Inr st"
    and records: "records = ps_entries st"
    by (rule parse_with_lines [OF assms(1) [unfolded packed_parse_def] False])
  let ?kept = "kept_lines (digest_len format * 2) name False lines"
  have without: "without_ref format bytes name = line_block ?kept"
    using split_inclusive_block [OF lines(2), of "[]"] lines(1)
    by (simp add: without_ref_def without_lines_block [OF \<open>name \<noteq> []\<close>])
  have "same_but name False packed_start packed_start"
    by (simp add: same_but_def packed_start_def om_remove_def)
  then obtain st' where run': "packed_lines False format usize_max (\<lambda>_. False) 0 ?kept packed_start = Inr st'"
    and st': "ps_entries st' = om_remove name records"
    using kept_lines_run [OF run _ name, of False packed_start 0] records by auto
  show ?thesis
  proof (cases "?kept = []")
    case True
    then show ?thesis using run' st' unfolding without
      by (auto simp add: packed_parse_def parse_with_def packed_start_def)
  next
    case False
    then show ?thesis
      using parse_with_block [OF False kept_lines_plain [OF lines(2)]] run' st' unfolding without
      by (simp add: packed_parse_def)
  qed
qed


lemma without_ref_parses_witness:
  "packed_parse Sha1 (without_ref Sha1 sample_packed (ascii ''refs/a'')) = Inr []"
proof -
  have "packed_parse Sha1 sample_packed = Inr sample_records"
    by (simp add: packed_parse_def sample_parse usize_max_def)
  moreover have "ref_new (ascii ''refs/a'') = Inr (ascii ''refs/a'')"
    using shared_sample by (simp add: shared_name_def ref_new_Inr_iff)
  ultimately show ?thesis
    by (simp add: without_ref_parses sample_records_def om_remove_def)
qed

end
