(* ===== verification/Refspec.thy ===== *)
theory Refspec
  imports Ref_Name Object_Id
begin

text \<open>
  \<^verbatim>\<open>src/remote/refspec.rs\<close>: refspecs, and the mapping of the references of one side to those
  of the other that a fetch or a push carries out. A \<^verbatim>\<open>HashSet\<close> is a set. The fields of an
  advertised reference are those of \<^verbatim>\<open>src/fetch/protocol.rs\<close>.
\<close>

section \<open>The model\<close>

datatype direction = Fetch | Push

record refspec =
  raw :: bytes
  source :: bytes
  destination :: "bytes option"
  force :: bool
  negative :: bool
  wildcard :: bool

datatype refspec_error = RefspecSyntax string | RefspecUnsupported string | RefspecName

record refspecs_error =
  error_index :: nat
  error_source :: refspec_error

datatype force_intent = Normal | Requested

record ref_source =
  source_name :: ref_name
  source_id :: object_id

record mapping =
  mapping_source :: "ref_source option"
  mapping_destination :: "ref_name option"
  mapping_force :: force_intent

record refspecs =
  direction :: direction
  specs :: "refspec list"

datatype mapping_error =
    UnmatchedSource bytes
  | DuplicateSource ref_name
  | ZeroId ref_name
  | Collision ref_name
  | InvalidDestination
  | WrongDirection
  | MappingLimit string
  | MappingCancelled

datatype advertisement_kind = Tip | PeeledHint

record advertised_ref =
  advertised_name :: ref_name
  advertised_id :: object_id
  advertised_kind :: advertisement_kind

subsection \<open>Parsing\<close>

definition validate_pattern :: "bytes \<Rightarrow> bool \<Rightarrow> refspec_error + unit" where
  "validate_pattern bytes is_source =
     (if is_source \<and> bytes = ascii ''HEAD'' then Inr ()
      else if \<not> starts_with bytes (ascii ''refs/'')
      then Inl (RefspecUnsupported ''requires full refs/ name; only exact source HEAD is allowed'')
      else
        let probe = map (\<lambda>b. if b = 42 then 120 else b) bytes
        in and_then (map_err (\<lambda>_. RefspecName) (ref_new probe)) (\<lambda>_. Inr ()))"

definition count_stars :: "bytes \<Rightarrow> nat" where
  "count_stars bytes = length (filter (\<lambda>b. b = 42) bytes)"

definition choose_destination ::
  "direction \<Rightarrow> bytes \<Rightarrow> bytes option \<Rightarrow> bool \<Rightarrow> refspec_error + bytes option" where
  "choose_destination dir src explicit neg =
     (if neg then Inr None
      else case dir of
        Fetch \<Rightarrow>
          (case explicit of
             None \<Rightarrow> Inr None
           | Some [] \<Rightarrow> Inr None
           | v \<Rightarrow> Inr v)
      | Push \<Rightarrow>
          (case explicit of
             None \<Rightarrow> Inr (Some src)
           | Some [] \<Rightarrow> Inl (RefspecUnsupported ''empty push destination'')
           | v \<Rightarrow> Inr v))"

text \<open>The second half of parsing, once the marks and the two sides are told apart.\<close>

definition refspec_build ::
  "direction \<Rightarrow> bytes \<Rightarrow> bool \<Rightarrow> bool \<Rightarrow> bytes \<Rightarrow> bytes option \<Rightarrow> refspec_error + refspec" where
  "refspec_build dir bytes forced neg src explicit =
     and_then (choose_destination dir src explicit neg) (\<lambda>dst.
     if src = [] \<and> dir = Fetch then Inl (RefspecUnsupported ''empty fetch source'')
     else
       let source_stars = count_stars src;
           destination_stars = (case dst of None \<Rightarrow> 0 | Some s \<Rightarrow> count_stars s)
       in if 1 < source_stars \<or> 1 < destination_stars
            \<or> (\<not> neg \<and> source_stars \<noteq> destination_stars)
          then Inl (RefspecSyntax ''wildcards require exactly one * on both sides'')
          else
            and_then (if src \<noteq> [] then validate_pattern src True else Inr ()) (\<lambda>_.
            and_then (case dst of None \<Rightarrow> Inr () | Some d \<Rightarrow> validate_pattern d False) (\<lambda>_.
            Inr \<lparr>raw = bytes, source = src, destination = dst, force = forced,
                 negative = neg, wildcard = (source_stars = 1)\<rparr>)))"

definition refspec_parse :: "direction \<Rightarrow> bytes \<Rightarrow> refspec_error + refspec" where
  "refspec_parse dir bytes =
     (let forced = starts_with bytes (ascii ''+'');
          body = (if forced then drop 1 bytes else bytes);
          neg = starts_with body (ascii ''^'');
          body = (if neg then drop 1 body else body)
      in if neg \<and> (dir \<noteq> Fetch \<or> forced \<or> 58 \<in> set body)
         then Inl (RefspecSyntax ''negative specs are fetch-only, without + or destination'')
         else if body = [] \<or> body = ascii '':'' \<or> starts_with body (ascii ''tag '')
         then Inl (RefspecUnsupported ''empty/default, matching, or tag shorthand'')
         else
           let parts = split_on 58 body
           in if get_at parts 2 \<noteq> None then Inl (RefspecSyntax ''more than one colon'')
              else refspec_build dir bytes forced neg (hd parts) (get_at parts 1))"

fun refspecs_parse_from :: "direction \<Rightarrow> nat \<Rightarrow> bytes list \<Rightarrow> refspecs_error + refspec list" where
  "refspecs_parse_from dir index [] = Inr []"
| "refspecs_parse_from dir index (bytes # rest) =
     and_then (map_err (\<lambda>e. \<lparr>error_index = index, error_source = e\<rparr>) (refspec_parse dir bytes)) (\<lambda>spec.
     and_then (refspecs_parse_from dir (Suc index) rest) (\<lambda>parsed.
     Inr (spec # parsed)))"

definition refspecs_parse :: "direction \<Rightarrow> bytes list \<Rightarrow> refspecs_error + refspecs" where
  "refspecs_parse dir values =
     and_then (refspecs_parse_from dir 0 values) (\<lambda>parsed.
     Inr \<lparr>direction = dir, specs = parsed\<rparr>)"

subsection \<open>Matching one refspec\<close>

text \<open>The two halves of a pattern around its star.\<close>

definition around_star :: "bytes \<Rightarrow> (bytes \<times> bytes) option" where
  "around_star pattern =
     (case position (\<lambda>b. b = 42) pattern of
        None \<Rightarrow> None
      | Some star \<Rightarrow> Some (take star pattern, drop (star + 1) pattern))"

definition between :: "bytes \<Rightarrow> bytes \<Rightarrow> bytes \<Rightarrow> bytes option" where
  "between name prefix suffix =
     (case strip_prefix name prefix of None \<Rightarrow> None | Some rest \<Rightarrow> strip_suffix rest suffix)"

text \<open>
  A refspec with a wildcard has a star in its source, so the missing star of the first case, on
  which the code would panic, does not occur for a parsed refspec.
\<close>

definition capture :: "refspec \<Rightarrow> bytes \<Rightarrow> bytes option" where
  "capture spec name =
     (if wildcard spec then
        case around_star (source spec) of
          None \<Rightarrow> None
        | Some (prefix, suffix) \<Rightarrow> between name prefix suffix
      else if source spec = name then Some [] else None)"

definition destination_for :: "refspec \<Rightarrow> bytes \<Rightarrow> mapping_error + ref_name option" where
  "destination_for spec captured =
     (case destination spec of
        None \<Rightarrow> Inr None
      | Some pattern \<Rightarrow>
          let bytes = (case around_star pattern of
                         Some (prefix, suffix) \<Rightarrow> prefix @ captured @ suffix
                       | None \<Rightarrow> pattern)
          in and_then (map_err (\<lambda>_. InvalidDestination) (ref_new bytes)) (\<lambda>name. Inr (Some name)))"

definition source_for_destination :: "refspec \<Rightarrow> ref_name \<Rightarrow> bytes option" where
  "source_for_destination spec dst =
     (if negative spec then None
      else case destination spec of
        None \<Rightarrow> None
      | Some pattern \<Rightarrow>
          (case (case around_star pattern of
                   Some (prefix, suffix) \<Rightarrow> between dst prefix suffix
                 | None \<Rightarrow> if pattern = dst then Some [] else None) of
             None \<Rightarrow> None
           | Some captured \<Rightarrow>
               (case around_star (source spec) of
                  Some (prefix, suffix) \<Rightarrow> Some (prefix @ captured @ suffix)
                | None \<Rightarrow> Some (source spec))))"

definition excluded :: "refspec list \<Rightarrow> bytes \<Rightarrow> bool" where
  "excluded all name = list_ex (\<lambda>spec. negative spec \<and> capture spec name \<noteq> None) all"

definition prune_sources :: "refspecs \<Rightarrow> ref_name \<Rightarrow> bytes list" where
  "prune_sources self dst =
     filter (\<lambda>src. \<not> excluded (specs self) src)
       (List.map_filter (\<lambda>spec. source_for_destination spec dst) (specs self))"

subsection \<open>Mapping references\<close>

record plan =
  mappings :: "mapping list"
  seen :: "mapping set"
  destinations :: "ref_name set"

definition plan_start :: plan where
  "plan_start = \<lparr>mappings = [], seen = {}, destinations = {}\<rparr>"

definition plan_add :: "plan \<Rightarrow> mapping \<Rightarrow> mapping_error + plan" where
  "plan_add self m =
     (if m \<in> seen self then Inr self
      else
        and_then (case mapping_destination m of
            None \<Rightarrow> Inr self
          | Some dst \<Rightarrow>
              if dst \<in> destinations self then Inl (Collision dst)
              else Inr (self\<lparr>destinations := insert dst (destinations self)\<rparr>)) (\<lambda>self.
        Inr (self\<lparr>seen := insert m (seen self), mappings := mappings self @ [m]\<rparr>)))"

fun check_sources :: "ref_name set \<Rightarrow> ref_source list \<Rightarrow> mapping_error + unit" where
  "check_sources names [] = Inr ()"
| "check_sources names (src # rest) =
     (if source_name src \<in> names then Inl (DuplicateSource (source_name src))
      else if is_null (source_id src) then Inl (ZeroId (source_name src))
      else check_sources (insert (source_name src) names) rest)"

definition spec_mapping :: "refspec \<Rightarrow> bytes \<Rightarrow> ref_source option \<Rightarrow> mapping_error + mapping" where
  "spec_mapping spec captured src =
     and_then (destination_for spec captured) (\<lambda>dst.
     Inr \<lparr>mapping_source = src, mapping_destination = dst,
          mapping_force = (if force spec then Requested else Normal)\<rparr>)"

fun map_sources ::
  "refspec list \<Rightarrow> refspec \<Rightarrow> ref_source list \<Rightarrow> bool \<Rightarrow> plan \<Rightarrow> mapping_error + bool \<times> plan" where
  "map_sources all spec [] matched p = Inr (matched, p)"
| "map_sources all spec (src # rest) matched p =
     (case capture spec (source_name src) of
        None \<Rightarrow> map_sources all spec rest matched p
      | Some captured \<Rightarrow>
          if \<not> excluded all (source_name src) then
            and_then (spec_mapping spec captured (Some src)) (\<lambda>m.
            and_then (plan_add p m) (\<lambda>p.
            map_sources all spec rest True p))
          else map_sources all spec rest True p)"

fun map_specs ::
  "refspec list \<Rightarrow> ref_source list \<Rightarrow> refspec list \<Rightarrow> plan \<Rightarrow> bytes list \<Rightarrow>
     mapping_error + plan \<times> bytes list" where
  "map_specs all sources [] p missing = Inr (p, missing)"
| "map_specs all sources (spec # rest) p missing =
     (if negative spec then map_specs all sources rest p missing
      else if source spec = [] then
        and_then (spec_mapping spec [] None) (\<lambda>m.
        and_then (plan_add p m) (\<lambda>p.
        map_specs all sources rest p missing))
      else
        and_then (map_sources all spec sources False p) (\<lambda>(matched, p).
        map_specs all sources rest p
          (if \<not> matched \<and> \<not> wildcard spec then missing @ [source spec] else missing)))"

definition map_with_missing ::
  "refspecs \<Rightarrow> ref_source list \<Rightarrow> mapping_error + mapping list \<times> bytes list" where
  "map_with_missing self sources =
     and_then (check_sources {} sources) (\<lambda>_.
     and_then (map_specs (specs self) sources (specs self) plan_start []) (\<lambda>(p, missing).
     Inr (mappings p, missing)))"

definition refspecs_map :: "refspecs \<Rightarrow> ref_source list \<Rightarrow> mapping_error + mapping list" where
  "refspecs_map self sources =
     and_then (map_with_missing self sources) (\<lambda>(ms, missing).
     case missing of src # _ \<Rightarrow> Inl (UnmatchedSource src) | [] \<Rightarrow> Inr ms)"

definition tips :: "advertised_ref list \<Rightarrow> ref_source list" where
  "tips refs =
     map (\<lambda>r. \<lparr>source_name = advertised_name r, source_id = advertised_id r\<rparr>)
       (filter (\<lambda>r. advertised_kind r = Tip) refs)"

definition map_advertisement ::
  "refspecs \<Rightarrow> advertised_ref list \<Rightarrow> mapping_error + mapping list" where
  "map_advertisement self refs =
     (if direction self \<noteq> Fetch then Inl WrongDirection else refspecs_map self (tips refs))"

definition map_advertisement_with_missing ::
  "refspecs \<Rightarrow> advertised_ref list \<Rightarrow> mapping_error + mapping list \<times> bytes list" where
  "map_advertisement_with_missing self refs =
     (if direction self \<noteq> Fetch then Inl WrongDirection else map_with_missing self (tips refs))"


section \<open>Patterns\<close>

lemma around_star_Some: "around_star p = Some (pre, suf) \<Longrightarrow> p = pre @ 42 # suf"
  using id_take_nth_drop [of _ p]
  by (fastforce simp add: around_star_def position_Some_iff split: option.splits)

lemma around_star_None: "around_star p = None \<longleftrightarrow> 42 \<notin> set p"
proof -
  have "around_star p = None \<longleftrightarrow> position (\<lambda>b. b = 42) p = None"
    by (auto simp add: around_star_def split: option.splits)
  then show ?thesis by (auto simp add: position_None_iff)
qed

lemma between_Some: "between name pre suf = Some c \<longleftrightarrow> name = pre @ c @ suf"
  by (auto simp add: between_def strip_prefix_Some_iff strip_prefix_None_iff strip_suffix_Some_iff
      starts_with_iff split: option.splits)

lemma count_stars_eq_0: "count_stars p = 0 \<longleftrightarrow> 42 \<notin> set p"
  by (auto simp add: count_stars_def filter_empty_conv)

text \<open>What parsing establishes about the stars of a refspec.\<close>

definition refspec_ok :: "refspec \<Rightarrow> bool" where
  "refspec_ok spec \<longleftrightarrow>
     count_stars (source spec) \<le> 1
     \<and> wildcard spec = (42 \<in> set (source spec))
     \<and> (\<not> negative spec \<longrightarrow>
          (case destination spec of
             None \<Rightarrow> \<not> wildcard spec
           | Some pattern \<Rightarrow> wildcard spec = (42 \<in> set pattern)))"

lemma star_member: "42 \<in> set p \<longleftrightarrow> 0 < count_stars p"
  using count_stars_eq_0 [of p] by linarith

lemma refspec_parse_ok:
  assumes "refspec_parse dir bytes = Inr spec"
  shows "refspec_ok spec" and "raw spec = bytes" and "negative spec \<Longrightarrow> destination spec = None"
    and "source spec = [] \<Longrightarrow> dir = Push"
proof -
  obtain forced neg src explicit where "refspec_build dir bytes forced neg src explicit = Inr spec"
    using assms unfolding refspec_parse_def Let_def refuse_Inr_iff by blast
  then obtain dst where dst: "choose_destination dir src explicit neg = Inr dst"
    and src: "\<not> (src = [] \<and> dir = Fetch)"
    and stars: "\<not> (1 < count_stars src \<or> 1 < (case dst of None \<Rightarrow> 0 | Some s \<Rightarrow> count_stars s)
       \<or> (\<not> neg \<and> count_stars src \<noteq> (case dst of None \<Rightarrow> 0 | Some s \<Rightarrow> count_stars s)))"
    and spec: "spec = \<lparr>raw = bytes, source = src, destination = dst,
      force = forced, negative = neg, wildcard = (count_stars src = 1)\<rparr>"
    unfolding refspec_build_def Let_def by (elim and_then_InrE) (auto elim!: and_then_InrE split: if_splits)
  show "refspec_ok spec"
    using stars by (cases dst) (auto simp add: spec refspec_ok_def star_member)
  show "raw spec = bytes" by (simp add: spec)
  show "negative spec \<Longrightarrow> destination spec = None"
    using dst by (auto simp add: spec choose_destination_def)
  show "source spec = [] \<Longrightarrow> dir = Push" using src by (cases dir) (auto simp add: spec)
qed

lemma capture_iff:
  assumes "refspec_ok spec"
  shows "capture spec name = Some c \<longleftrightarrow>
    (case around_star (source spec) of
       Some (pre, suf) \<Rightarrow> name = pre @ c @ suf
     | None \<Rightarrow> name = source spec \<and> c = [])"
proof -
  have "wildcard spec \<longleftrightarrow> around_star (source spec) \<noteq> None"
    using assms by (simp add: refspec_ok_def around_star_None)
  then show ?thesis
    by (cases "around_star (source spec)") (auto simp add: capture_def between_Some)
qed

text \<open>
  C19: Mapping a reference forwards through a refspec and mapping it back are inverse. For every
  refspec the parser accepts, a destination comes from a source name exactly when the name is
  captured by the source pattern and substituting what was captured gives the destination; so a
  destination that a fetch created is attributed to the reference it was created from, and only
  to it.
\<close>

theorem refspec_inverse:
  assumes "refspec_parse dir bytes = Inr spec" and "ref_new dst = Inr dst" and "\<not> negative spec"
  shows "source_for_destination spec dst = Some name \<longleftrightarrow>
    (\<exists>c. capture spec name = Some c \<and> destination_for spec c = Inr (Some dst))"
proof -
  have ok: "refspec_ok spec" by (rule refspec_parse_ok [OF assms(1)])
  show ?thesis
  proof (cases "destination spec")
    case None
    then show ?thesis by (simp add: source_for_destination_def destination_for_def)
  next
    case (Some pattern)
    show ?thesis
    proof (cases "around_star pattern")
      case None
      then have src: "around_star (source spec) = None"
        using ok Some assms(3) by (auto simp add: refspec_ok_def around_star_None)
      show ?thesis
        using assms Some None
        by (auto simp add: source_for_destination_def destination_for_def capture_iff [OF ok] src
            and_then_Inr_iff dest: ref_new_Inr_iff [THEN iffD1])
    next
      case star: (Some p)
      obtain pre suf where p: "p = (pre, suf)" by fastforce
      have "around_star (source spec) \<noteq> None"
        using ok Some assms(3) star around_star_None [of pattern]
        by (auto simp add: refspec_ok_def around_star_None)
      then obtain spre ssuf where src: "around_star (source spec) = Some (spre, ssuf)" by auto
      have bwd: "source_for_destination spec dst = Some name \<longleftrightarrow>
          (\<exists>c. between dst pre suf = Some c \<and> name = spre @ c @ ssuf)"
        using assms(3) Some star p src by (auto simp add: source_for_destination_def split: option.splits)
      have forth: "destination_for spec c = Inr (Some dst) \<longleftrightarrow> dst = pre @ c @ suf" for c
        using assms(2) Some star p by (auto simp add: destination_for_def and_then_Inr_iff ref_new_Inr_iff)
      show ?thesis unfolding bwd forth between_Some capture_iff [OF ok] src by auto
    qed
  qed
qed

lemma refspec_inverse_witness:
  "\<exists>spec. refspec_parse Fetch (ascii ''refs/a*:refs/b*'') = Inr spec \<and>
     (source_for_destination spec (ascii ''refs/bx'') = Some (ascii ''refs/ax'') \<longleftrightarrow>
      (\<exists>c. capture spec (ascii ''refs/ax'') = Some c \<and>
         destination_for spec c = Inr (Some (ascii ''refs/bx''))))"
proof -
  let ?spec = "\<lparr>raw = ascii ''refs/a*:refs/b*'', source = ascii ''refs/a*'',
    destination = Some (ascii ''refs/b*''), force = False, negative = False, wildcard = True\<rparr>"
  have names: "ref_new (ascii ''refs/ax'') = Inr (ascii ''refs/ax'')"
    "ref_new (ascii ''refs/bx'') = Inr (ascii ''refs/bx'')"
    by (simp_all add: ref_new_def HEAD_def ascii_def starts_with_def ends_with_def forbidden_byte_def
        forbidden_part_def)
  have "validate_pattern (ascii ''refs/a*'') True = Inr ()" "validate_pattern (ascii ''refs/b*'') False = Inr ()"
    using names by (simp_all add: validate_pattern_def starts_with_def ascii_def)
  moreover have "split_on 58 (ascii ''refs/a*:refs/b*'') = [ascii ''refs/a*'', ascii ''refs/b*'']"
    by (simp add: ascii_def)
  ultimately have "refspec_parse Fetch (ascii ''refs/a*:refs/b*'') = Inr ?spec"
    by (simp add: refspec_parse_def refspec_build_def choose_destination_def count_stars_def get_at_def
        starts_with_def ascii_def)
  moreover from this have "source_for_destination ?spec (ascii ''refs/bx'') = Some (ascii ''refs/ax'') \<longleftrightarrow>
      (\<exists>c. capture ?spec (ascii ''refs/ax'') = Some c \<and>
         destination_for ?spec c = Inr (Some (ascii ''refs/bx'')))"
    by (rule refspec_inverse [OF _ names(2)]) simp
  ultimately show ?thesis by (intro exI conjI)
qed


section \<open>The mapping as a whole\<close>

text \<open>The invariant of a plan: what it has seen, and which destinations are taken.\<close>

definition plan_ok :: "plan \<Rightarrow> bool" where
  "plan_ok p \<longleftrightarrow>
     seen p = set (mappings p) \<and> distinct (mappings p)
     \<and> destinations p = set (List.map_filter mapping_destination (mappings p))
     \<and> distinct (List.map_filter mapping_destination (mappings p))"

lemma set_map_filter: "set (List.map_filter f xs) = {y. \<exists>x \<in> set xs. f x = Some y}"
  by (force simp add: List.map_filter_def)

lemma map_filter_snoc:
  "List.map_filter f (xs @ [x]) = List.map_filter f xs @ (case f x of None \<Rightarrow> [] | Some y \<Rightarrow> [y])"
  by (simp add: List.map_filter_def split: option.splits)

lemma plan_add_ok:
  assumes "plan_add p m = Inr p'" "plan_ok p"
  shows "plan_ok p'" and "set (mappings p') = insert m (set (mappings p))"
proof -
  have "plan_ok p' \<and> set (mappings p') = insert m (set (mappings p))"
  proof (cases "m \<in> seen p")
    case True
    then show ?thesis using assms by (auto simp add: plan_add_def plan_ok_def)
  next
    case False
    then show ?thesis using assms
      by (cases "mapping_destination m")
         (auto simp add: plan_add_def plan_ok_def map_filter_snoc split: if_splits)
  qed
  then show "plan_ok p'" and "set (mappings p') = insert m (set (mappings p))" by simp_all
qed

text \<open>What one refspec asks for.\<close>

definition asked :: "refspec list \<Rightarrow> refspec \<Rightarrow> ref_source list \<Rightarrow> mapping \<Rightarrow> bool" where
  "asked all spec sources m \<longleftrightarrow>
     (\<exists>src \<in> set sources. \<exists>c. capture spec (source_name src) = Some c
        \<and> \<not> excluded all (source_name src) \<and> spec_mapping spec c (Some src) = Inr m)"

lemma asked_Cons:
  "asked all spec (src # rest) m \<longleftrightarrow>
     (\<exists>c. capture spec (source_name src) = Some c \<and> \<not> excluded all (source_name src)
        \<and> spec_mapping spec c (Some src) = Inr m) \<or> asked all spec rest m"
  by (auto simp add: asked_def)

lemma map_sources_ok:
  assumes "map_sources all spec sources matched p = Inr (matched', p')" "plan_ok p"
  shows "plan_ok p'
    \<and> set (mappings p') = set (mappings p) \<union> {m. asked all spec sources m}
    \<and> matched' = (matched \<or> (\<exists>src \<in> set sources. capture spec (source_name src) \<noteq> None))"
  using assms
proof (induction sources arbitrary: matched p)
  case Nil
  then show ?case by (simp add: asked_def)
next
  case (Cons src rest)
  show ?case
  proof (cases "capture spec (source_name src)")
    case None
    then show ?thesis using Cons.IH [of matched p] Cons.prems by (simp add: asked_Cons)
  next
    case (Some c)
    show ?thesis
    proof (cases "excluded all (source_name src)")
      case True
      then show ?thesis using Some Cons.IH [of True p] Cons.prems by (simp add: asked_Cons)
    next
      case False
      then obtain m p1 where m: "spec_mapping spec c (Some src) = Inr m" and p1: "plan_add p m = Inr p1"
        and rest: "map_sources all spec rest True p1 = Inr (matched', p')"
        using Some Cons.prems by (auto simp add: and_then_Inr_iff)
      show ?thesis
        using Cons.IH [OF rest plan_add_ok(1)] plan_add_ok(2) [OF p1] p1 Cons.prems(2) Some False m
        by (auto simp add: asked_Cons)
    qed
  qed
qed

definition asked_by :: "refspec list \<Rightarrow> ref_source list \<Rightarrow> refspec \<Rightarrow> mapping \<Rightarrow> bool" where
  "asked_by all sources spec m \<longleftrightarrow>
     \<not> negative spec \<and>
     (if source spec = [] then spec_mapping spec [] None = Inr m else asked all spec sources m)"

definition unmatched :: "ref_source list \<Rightarrow> refspec \<Rightarrow> bool" where
  "unmatched sources spec \<longleftrightarrow>
     \<not> negative spec \<and> source spec \<noteq> [] \<and> \<not> wildcard spec
     \<and> (\<forall>src \<in> set sources. capture spec (source_name src) = None)"

lemma map_specs_ok:
  assumes "map_specs all sources rest p missing = Inr (p', missing')" "plan_ok p"
  shows "plan_ok p'
    \<and> set (mappings p') = set (mappings p) \<union> {m. \<exists>spec \<in> set rest. asked_by all sources spec m}
    \<and> missing' = missing @ map source (filter (unmatched sources) rest)"
  using assms
proof (induction rest arbitrary: p missing)
  case Nil
  then show ?case by simp
next
  case (Cons spec rest)
  consider "negative spec" | "\<not> negative spec" "source spec = []" | "\<not> negative spec" "source spec \<noteq> []"
    by blast
  then show ?case
  proof cases
    case 1
    then show ?thesis using Cons by (simp add: asked_by_def unmatched_def)
  next
    case 2
    then obtain m p1 where m: "spec_mapping spec [] None = Inr m" and p1: "plan_add p m = Inr p1"
      and rest: "map_specs all sources rest p1 missing = Inr (p', missing')"
      using Cons.prems by (auto simp add: and_then_Inr_iff)
    show ?thesis
      using Cons.IH [OF rest plan_add_ok(1)] plan_add_ok(2) [OF p1] p1 Cons.prems(2) 2 m
      by (auto simp add: asked_by_def unmatched_def)
  next
    case 3
    then obtain matched p1 where p1: "map_sources all spec sources False p = Inr (matched, p1)"
      and rest: "map_specs all sources rest p1
        (if \<not> matched \<and> \<not> wildcard spec then missing @ [source spec] else missing) = Inr (p', missing')"
      using Cons.prems by (auto simp add: and_then_Inr_iff)
    note one = map_sources_ok [OF p1 Cons.prems(2)]
    show ?thesis
      using Cons.IH [OF rest] one 3 by (auto simp add: asked_by_def unmatched_def)
  qed
qed

lemma check_sources_ok:
  "check_sources names sources = Inr () \<longleftrightarrow>
     distinct (map source_name sources) \<and> source_name ` set sources \<inter> names = {}
     \<and> (\<forall>src \<in> set sources. \<not> is_null (source_id src))"
  by (induction sources arbitrary: names) auto

definition sample_specs :: refspecs where
  "sample_specs = \<lparr>direction = Fetch, specs =
     [\<lparr>raw = ascii ''refs/a'', source = ascii ''refs/a'', destination = None, force = False,
        negative = False, wildcard = False\<rparr>]\<rparr>"

definition sample_source :: ref_source where
  "sample_source = \<lparr>source_name = ascii ''refs/a'', source_id = IdSha1 (replicate 20 1)\<rparr>"

definition sample_mapping :: mapping where
  "sample_mapping =
     \<lparr>mapping_source = Some sample_source, mapping_destination = None, mapping_force = Normal\<rparr>"

lemma sample_map: "map_with_missing sample_specs [sample_source] = Inr ([sample_mapping], [])"
  by (simp add: map_with_missing_def sample_specs_def sample_source_def sample_mapping_def is_null_def
      list_all_iff capture_def excluded_def spec_mapping_def destination_for_def plan_add_def plan_start_def)

lemma map_with_missing_facts:
  assumes "map_with_missing self sources = Inr (ms, missing)"
  shows "m \<in> set ms \<longleftrightarrow>
      (\<exists>spec \<in> set (specs self). \<not> negative spec \<and>
        (if source spec = [] then spec_mapping spec [] None = Inr m
         else (\<exists>src \<in> set sources. \<exists>c. capture spec (source_name src) = Some c
           \<and> \<not> excluded (specs self) (source_name src) \<and> spec_mapping spec c (Some src) = Inr m)))"
    and "distinct ms" and "distinct (List.map_filter mapping_destination ms)"
    and "missing = map source (filter (\<lambda>spec. \<not> negative spec \<and> source spec \<noteq> [] \<and> \<not> wildcard spec
      \<and> (\<forall>src \<in> set sources. capture spec (source_name src) = None)) (specs self))"
    and "distinct (map source_name sources) \<and> (\<forall>src \<in> set sources. \<not> is_null (source_id src))"
proof -
  obtain p where ok: "check_sources {} sources = Inr ()"
    and p: "map_specs (specs self) sources (specs self) plan_start [] = Inr (p, missing)"
    and ms: "ms = mappings p"
    using assms by (auto simp add: map_with_missing_def and_then_Inr_iff)
  have "plan_ok plan_start" by (simp add: plan_ok_def plan_start_def List.map_filter_def)
  note run = map_specs_ok [OF p this]
  show "m \<in> set ms \<longleftrightarrow>
      (\<exists>spec \<in> set (specs self). \<not> negative spec \<and>
        (if source spec = [] then spec_mapping spec [] None = Inr m
         else (\<exists>src \<in> set sources. \<exists>c. capture spec (source_name src) = Some c
           \<and> \<not> excluded (specs self) (source_name src) \<and> spec_mapping spec c (Some src) = Inr m)))"
    using run unfolding ms asked_by_def asked_def by (simp add: plan_start_def)
  show "distinct ms" "distinct (List.map_filter mapping_destination ms)"
    using run by (simp_all add: ms plan_ok_def)
  show "missing = map source (filter (\<lambda>spec. \<not> negative spec \<and> source spec \<noteq> [] \<and> \<not> wildcard spec
      \<and> (\<forall>src \<in> set sources. capture spec (source_name src) = None)) (specs self))"
    using run unfolding unmatched_def by simp
  show "distinct (map source_name sources) \<and> (\<forall>src \<in> set sources. \<not> is_null (source_id src))"
    using ok by (simp add: check_sources_ok)
qed


text \<open>
  C17: A mapping that succeeds is exactly what the refspecs ask for. A mapping is in the result if
  and only if some positive refspec captures one of the offered references, no negative refspec
  excludes that reference, and the mapping carries what substitution gives (a refspec with an
  empty source asks for a deletion instead); nothing is repeated, no two mappings write the same
  destination, the reported missing sources are those of the exact refspecs no reference matches,
  in order, and the offered names were distinct with non-null identities.
\<close>

theorem map_with_missing_correct:
  assumes "map_with_missing self sources = Inr (ms, missing)"
  shows "(\<forall>m. m \<in> set ms \<longleftrightarrow>
      (\<exists>spec \<in> set (specs self). \<not> negative spec \<and>
        (if source spec = [] then spec_mapping spec [] None = Inr m
         else (\<exists>src \<in> set sources. \<exists>c. capture spec (source_name src) = Some c
           \<and> \<not> excluded (specs self) (source_name src) \<and> spec_mapping spec c (Some src) = Inr m))))
    \<and> distinct ms \<and> distinct (List.map_filter mapping_destination ms)
    \<and> missing = map source (filter (\<lambda>spec. \<not> negative spec \<and> source spec \<noteq> [] \<and> \<not> wildcard spec
      \<and> (\<forall>src \<in> set sources. capture spec (source_name src) = None)) (specs self))
    \<and> distinct (map source_name sources) \<and> (\<forall>src \<in> set sources. \<not> is_null (source_id src))"
  using map_with_missing_facts(2-5) [OF assms] by (intro conjI allI map_with_missing_facts(1) [OF assms]) simp_all

lemma map_with_missing_correct_witness:
  "distinct [sample_mapping] \<and> distinct (List.map_filter mapping_destination [sample_mapping])
   \<and> (\<exists>spec \<in> set (specs sample_specs). capture spec (source_name sample_source) \<noteq> None)"
proof -
  note correct = map_with_missing_correct [OF sample_map]
  have "sample_mapping \<in> set [sample_mapping]" by simp
  with correct show ?thesis by (auto simp add: sample_specs_def split: if_splits)
qed

end
