(* ===== verification/Metered.thy ===== *)
theory Metered
  imports Prelude
begin

text \<open>
  Computations that pass a mutable budget along: Rust functions that take \<^verbatim>\<open>&mut Budget\<close> and
  return a result. A step takes the budget and returns an error or a value with the budget left.
  The components choose the budget and the error.
\<close>

type_synonym ('e, 's, 'a) stepped = "'s \<Rightarrow> 'e + 'a \<times> 's"

definition m_return :: "'a \<Rightarrow> ('e, 's, 'a) stepped" where
  "m_return v b = Inr (v, b)"

definition m_bind :: "('e, 's, 'a) stepped \<Rightarrow> ('a \<Rightarrow> ('e, 's, 'b) stepped) \<Rightarrow> ('e, 's, 'b) stepped" where
  "m_bind f g b = and_then (f b) (\<lambda>(v, b). g v b)"

definition m_lift :: "'e + 'a \<Rightarrow> ('e, 's, 'a) stepped" where
  "m_lift r b = and_then r (\<lambda>v. Inr (v, b))"

text \<open>What a recursive call after a step may assume: the step succeeded.\<close>

lemma m_bind_cong [fundef_cong]:
  "f b = f' b' \<Longrightarrow> (\<And>v s. f' b' = Inr (v, s) \<Longrightarrow> g v s = g' v s) \<Longrightarrow> m_bind f g b = m_bind f' g' b'"
  by (auto simp add: m_bind_def intro!: and_then_cong)

lemma m_bind_Inr: "m_bind f g b = Inr r \<longleftrightarrow> (\<exists>v s. f b = Inr (v, s) \<and> g v s = Inr r)"
  by (auto simp add: m_bind_def and_then_Inr_iff)

lemma m_bind_InrE:
  assumes "m_bind f g b = Inr r"
  obtains v s where "f b = Inr (v, s)" and "g v s = Inr r"
  using assms by (auto simp add: m_bind_Inr)

lemma m_lift_Inr [simp]: "m_lift r b = Inr (v, s) \<longleftrightarrow> r = Inr v \<and> s = b"
  by (cases r) (auto simp add: m_lift_def)

lemma m_return_Inr [simp]: "m_return x b = Inr (v, s) \<longleftrightarrow> v = x \<and> s = b"
  by (auto simp add: m_return_def)

end
