(* ===== verification/Refspec_Budget.thy ===== *)
theory Refspec_Budget
  imports Refspec Metered
begin

text \<open>
  \<^verbatim>\<open>src/remote/refspec/controlled.rs\<close>: mapping under limits. Every loop charges a budget, and
  the budget polls a cancellation flag after each 64 steps. The flag may change between two
  readings, so it is a function from the number of readings made so far; \<open>loads\<close> counts them.
  The laws every charge obeys are the interface \<open>meter\<close>, interpreted on each of them.
\<close>

section \<open>The model\<close>

record mapping_limits =
  max_sources :: nat
  max_specs :: nat
  max_input_bytes :: nat
  max_mappings :: nat
  max_output_bytes :: nat
  max_work :: nat

definition default_limits :: mapping_limits where
  "default_limits = \<lparr>max_sources = 1000000, max_specs = 4096, max_input_bytes = 128 * 1024 * 1024,
     max_mappings = 1000000, max_output_bytes = 256 * 1024 * 1024, max_work = 1024 * 1024 * 1024\<rparr>"

record budget =
  steps_left :: nat
  mappings_left :: nat
  bytes_left :: nat
  work_left :: nat
  loads :: nat

text \<open>A computation that charges the budget passed to it.\<close>

type_synonym 'a metered = "(mapping_error, budget, 'a) stepped"

definition debit :: "nat \<Rightarrow> nat \<Rightarrow> string \<Rightarrow> mapping_error + nat" where
  "debit left bytes name = ok_or (MappingLimit name) (checked_sub left bytes)"

definition budget_new :: "mapping_limits \<Rightarrow> (nat \<Rightarrow> bool) \<Rightarrow> mapping_error + budget" where
  "budget_new limits cancel =
     (if cancel 0 then Inl MappingCancelled
      else Inr \<lparr>steps_left = 64, mappings_left = max_mappings limits,
                bytes_left = max_output_bytes limits, work_left = max_work limits, loads = 1\<rparr>)"

definition budget_step :: "(nat \<Rightarrow> bool) \<Rightarrow> unit metered" where
  "budget_step cancel self =
     and_then (debit (work_left self) 1 ''comparison work'') (\<lambda>work.
     let self = self\<lparr>work_left := work, steps_left := steps_left self - 1\<rparr>
     in if steps_left self = 0 then
          (if cancel (loads self) then Inl MappingCancelled
           else Inr ((), self\<lparr>steps_left := 64, loads := loads self + 1\<rparr>))
        else Inr ((), self))"

definition budget_comparison :: "(nat \<Rightarrow> bool) \<Rightarrow> bytes \<Rightarrow> bytes \<Rightarrow> unit metered" where
  "budget_comparison cancel pattern name =
     m_bind (budget_step cancel) (\<lambda>_ self.
     and_then (debit (work_left self) (length pattern) ''comparison work'') (\<lambda>work.
     and_then (debit work (length name) ''comparison work'') (\<lambda>work.
     Inr ((), self\<lparr>work_left := work\<rparr>))))"

definition budget_report :: "nat \<Rightarrow> unit metered" where
  "budget_report bytes self =
     and_then (debit (mappings_left self) 1 ''mapping attempts'') (\<lambda>ms.
     and_then (debit (bytes_left self) bytes ''output bytes'') (\<lambda>left.
     Inr ((), self\<lparr>mappings_left := ms, bytes_left := left\<rparr>)))"

definition budget_bytes :: "nat \<Rightarrow> unit metered" where
  "budget_bytes bytes self =
     and_then (debit (bytes_left self) bytes ''output bytes'') (\<lambda>left.
     Inr ((), self\<lparr>bytes_left := left\<rparr>))"

definition budget_output :: "refspec \<Rightarrow> bytes \<Rightarrow> ref_source option \<Rightarrow> unit metered" where
  "budget_output spec captured src =
     m_bind (budget_report (case src of None \<Rightarrow> 0 | Some s \<Rightarrow> length (source_name s))) (\<lambda>_.
     case destination spec of
       None \<Rightarrow> m_return ()
     | Some pattern \<Rightarrow>
         m_bind (budget_bytes (if wildcard spec then length pattern - 1 else length pattern)) (\<lambda>_.
         if wildcard spec then budget_bytes (length captured) else m_return ()))"

subsection \<open>Admission\<close>

fun admit_lengths :: "(nat \<Rightarrow> bool) \<Rightarrow> nat \<Rightarrow> nat list \<Rightarrow> nat metered" where
  "admit_lengths cancel left [] = m_return left"
| "admit_lengths cancel left (n # rest) =
     m_bind (budget_step cancel) (\<lambda>_.
     m_bind (m_lift (debit left n ''input bytes'')) (\<lambda>left.
     admit_lengths cancel left rest))"

definition admit_mapping ::
  "(nat \<Rightarrow> bool) \<Rightarrow> mapping_limits \<Rightarrow> refspecs \<Rightarrow> nat \<Rightarrow> bytes list \<Rightarrow> unit metered" where
  "admit_mapping cancel limits self count names =
     (if max_sources limits < count then m_lift (Inl (MappingLimit ''sources''))
      else if max_specs limits < length (specs self) then m_lift (Inl (MappingLimit ''refspecs''))
      else
        m_bind (admit_lengths cancel (max_input_bytes limits)
          (map (\<lambda>spec. length (raw spec)) (specs self))) (\<lambda>left.
        m_bind (admit_lengths cancel left (map length names)) (\<lambda>_.
        m_return ())))"

subsection \<open>Mapping\<close>

fun metered_check :: "(nat \<Rightarrow> bool) \<Rightarrow> ref_name set \<Rightarrow> ref_source list \<Rightarrow> unit metered" where
  "metered_check cancel names [] = m_return ()"
| "metered_check cancel names (src # rest) =
     m_bind (budget_step cancel) (\<lambda>_.
     if source_name src \<in> names then m_lift (Inl (DuplicateSource (source_name src)))
     else if is_null (source_id src) then m_lift (Inl (ZeroId (source_name src)))
     else metered_check cancel (insert (source_name src) names) rest)"

text \<open>The loop over the negative refspecs, which stops at the first that matches.\<close>

fun metered_excluded :: "(nat \<Rightarrow> bool) \<Rightarrow> bytes \<Rightarrow> refspec list \<Rightarrow> bool metered" where
  "metered_excluded cancel name [] = m_return False"
| "metered_excluded cancel name (neg # rest) =
     m_bind (budget_step cancel) (\<lambda>_.
     if negative neg then
       m_bind (budget_comparison cancel (source neg) name) (\<lambda>_.
       if capture neg name \<noteq> None then m_return True else metered_excluded cancel name rest)
     else metered_excluded cancel name rest)"

fun metered_sources ::
  "(nat \<Rightarrow> bool) \<Rightarrow> refspec list \<Rightarrow> refspec \<Rightarrow> ref_source list \<Rightarrow> bool \<Rightarrow> plan \<Rightarrow> (bool \<times> plan) metered" where
  "metered_sources cancel all spec [] matched p = m_return (matched, p)"
| "metered_sources cancel all spec (src # rest) matched p =
     m_bind (budget_comparison cancel (source spec) (source_name src)) (\<lambda>_.
     case capture spec (source_name src) of
       None \<Rightarrow> metered_sources cancel all spec rest matched p
     | Some captured \<Rightarrow>
         m_bind (metered_excluded cancel (source_name src) all) (\<lambda>ex.
         if \<not> ex then
           m_bind (budget_output spec captured (Some src)) (\<lambda>_.
           m_bind (m_lift (spec_mapping spec captured (Some src))) (\<lambda>m.
           m_bind (m_lift (plan_add p m)) (\<lambda>p.
           metered_sources cancel all spec rest True p)))
         else metered_sources cancel all spec rest True p))"

fun metered_specs ::
  "(nat \<Rightarrow> bool) \<Rightarrow> refspec list \<Rightarrow> ref_source list \<Rightarrow> refspec list \<Rightarrow> plan \<Rightarrow> bytes list \<Rightarrow>
     (plan \<times> bytes list) metered" where
  "metered_specs cancel all sources [] p missing = m_return (p, missing)"
| "metered_specs cancel all sources (spec # rest) p missing =
     m_bind (budget_step cancel) (\<lambda>_.
     if negative spec then metered_specs cancel all sources rest p missing
     else if source spec = [] then
       m_bind (budget_output spec [] None) (\<lambda>_.
       m_bind (m_lift (spec_mapping spec [] None)) (\<lambda>m.
       m_bind (m_lift (plan_add p m)) (\<lambda>p.
       metered_specs cancel all sources rest p missing)))
     else
       m_bind (metered_sources cancel all spec sources False p) (\<lambda>(matched, p).
       if \<not> matched \<and> \<not> wildcard spec then
         m_bind (budget_report (length (source spec))) (\<lambda>_.
         metered_specs cancel all sources rest p (missing @ [source spec]))
       else metered_specs cancel all sources rest p missing))"

definition map_admitted ::
  "(nat \<Rightarrow> bool) \<Rightarrow> refspecs \<Rightarrow> ref_source list \<Rightarrow> (mapping list \<times> bytes list) metered" where
  "map_admitted cancel self sources =
     m_bind (metered_check cancel {} sources) (\<lambda>_.
     m_bind (metered_specs cancel (specs self) sources (specs self) plan_start []) (\<lambda>(p, missing).
     m_return (mappings p, missing)))"

text \<open>A budget is dropped when the call that made it returns.\<close>

definition with_budget ::
  "mapping_limits \<Rightarrow> (nat \<Rightarrow> bool) \<Rightarrow> 'a metered \<Rightarrow> mapping_error + 'a" where
  "with_budget limits cancel f =
     and_then (budget_new limits cancel) (\<lambda>b. and_then (f b) (\<lambda>(v, _). Inr v))"

definition limited_map_with_missing ::
  "mapping_limits \<Rightarrow> (nat \<Rightarrow> bool) \<Rightarrow> refspecs \<Rightarrow> ref_source list \<Rightarrow>
     mapping_error + mapping list \<times> bytes list" where
  "limited_map_with_missing limits cancel self sources =
     with_budget limits cancel
       (m_bind (admit_mapping cancel limits self (length sources) (map source_name sources)) (\<lambda>_.
        map_admitted cancel self sources))"

definition complete :: "mapping list \<times> bytes list \<Rightarrow> mapping_error + mapping list" where
  "complete = (\<lambda>(ms, missing).
     case missing of src # _ \<Rightarrow> Inl (UnmatchedSource src) | [] \<Rightarrow> Inr ms)"

definition limited_map ::
  "mapping_limits \<Rightarrow> (nat \<Rightarrow> bool) \<Rightarrow> refspecs \<Rightarrow> ref_source list \<Rightarrow> mapping_error + mapping list" where
  "limited_map limits cancel self sources =
     and_then (limited_map_with_missing limits cancel self sources) complete"

fun metered_tips :: "(nat \<Rightarrow> bool) \<Rightarrow> advertised_ref list \<Rightarrow> ref_source list metered" where
  "metered_tips cancel [] = m_return []"
| "metered_tips cancel (r # rest) =
     m_bind (budget_step cancel) (\<lambda>_.
     m_bind (metered_tips cancel rest) (\<lambda>found.
     m_return (if advertised_kind r = Tip
       then \<lparr>source_name = advertised_name r, source_id = advertised_id r\<rparr> # found else found)))"

definition limited_map_advertisement_with_missing ::
  "mapping_limits \<Rightarrow> (nat \<Rightarrow> bool) \<Rightarrow> refspecs \<Rightarrow> advertised_ref list \<Rightarrow>
     mapping_error + mapping list \<times> bytes list" where
  "limited_map_advertisement_with_missing limits cancel self refs =
     with_budget limits cancel
       (if direction self \<noteq> Fetch then m_lift (Inl WrongDirection)
        else
          m_bind (admit_mapping cancel limits self (length refs) (map advertised_name refs)) (\<lambda>_.
          m_bind (metered_tips cancel refs) (\<lambda>found.
          map_admitted cancel self found)))"

definition limited_map_advertisement ::
  "mapping_limits \<Rightarrow> (nat \<Rightarrow> bool) \<Rightarrow> refspecs \<Rightarrow> advertised_ref list \<Rightarrow> mapping_error + mapping list" where
  "limited_map_advertisement limits cancel self refs =
     and_then (limited_map_advertisement_with_missing limits cancel self refs) complete"

subsection \<open>Pruning\<close>

definition reverse_source :: "(nat \<Rightarrow> bool) \<Rightarrow> refspec \<Rightarrow> ref_name \<Rightarrow> bytes option metered" where
  "reverse_source cancel spec dst =
     (if negative spec then m_return None
      else case destination spec of
        None \<Rightarrow> m_return None
      | Some pattern \<Rightarrow>
          m_bind (budget_comparison cancel pattern dst) (\<lambda>_.
          case (case around_star pattern of
                  Some (prefix, suffix) \<Rightarrow> between dst prefix suffix
                | None \<Rightarrow> if pattern = dst then Some [] else None) of
            None \<Rightarrow> m_return None
          | Some captured \<Rightarrow>
              m_bind (budget_comparison cancel (source spec) captured) (\<lambda>_.
              case around_star (source spec) of
                Some (prefix, suffix) \<Rightarrow>
                  m_bind (m_lift (ok_or (MappingLimit ''output bytes'')
                    (Option.bind (checked_sub (length (source spec)) 1) (\<lambda>n.
                     checked_add n (length captured))))) (\<lambda>n.
                  m_bind (budget_report n) (\<lambda>_.
                  m_return (Some (prefix @ captured @ suffix))))
              | None \<Rightarrow>
                  m_bind (budget_report (length (source spec))) (\<lambda>_.
                  m_return (Some (source spec))))))"

fun advertised_tips :: "(nat \<Rightarrow> bool) \<Rightarrow> advertised_ref list \<Rightarrow> bytes set \<Rightarrow> bytes set metered" where
  "advertised_tips cancel [] names = m_return names"
| "advertised_tips cancel (r # rest) names =
     m_bind (budget_step cancel) (\<lambda>_.
     if advertised_kind r = Tip then
       m_bind (budget_comparison cancel [] (advertised_name r)) (\<lambda>_.
       advertised_tips cancel rest (insert (advertised_name r) names))
     else advertised_tips cancel rest names)"

text \<open>The negative loop of pruning, whose steps are those of mapping.\<close>

fun prune_excluded :: "(nat \<Rightarrow> bool) \<Rightarrow> bytes \<Rightarrow> refspec list \<Rightarrow> bool metered" where
  "prune_excluded cancel src [] = m_return False"
| "prune_excluded cancel src (neg # rest) =
     m_bind (budget_step cancel) (\<lambda>_.
     if \<not> negative neg then prune_excluded cancel src rest
     else
       m_bind (budget_comparison cancel (source neg) src) (\<lambda>_.
       if capture neg src \<noteq> None then m_return True else prune_excluded cancel src rest))"

text \<open>The loop over the refspecs for one destination: whether it is owned and whether protected.\<close>

fun prune_specs ::
  "(nat \<Rightarrow> bool) \<Rightarrow> refspec list \<Rightarrow> bytes set \<Rightarrow> ref_name \<Rightarrow> refspec list \<Rightarrow> bool \<Rightarrow> (bool \<times> bool) metered" where
  "prune_specs cancel all keep dst [] owned = m_return (owned, False)"
| "prune_specs cancel all keep dst (spec # rest) owned =
     m_bind (budget_step cancel) (\<lambda>_.
     m_bind (reverse_source cancel spec dst) (\<lambda>found.
     case found of
       None \<Rightarrow> prune_specs cancel all keep dst rest owned
     | Some src \<Rightarrow>
         m_bind (prune_excluded cancel src all) (\<lambda>ex.
         if ex then prune_specs cancel all keep dst rest owned
         else
           m_bind (budget_comparison cancel [] src) (\<lambda>_.
           if src \<in> keep then m_return (True, True)
           else prune_specs cancel all keep dst rest True))))"

fun prune_destinations ::
  "(nat \<Rightarrow> bool) \<Rightarrow> refspec list \<Rightarrow> bytes set \<Rightarrow> ref_name list \<Rightarrow> ref_name list metered" where
  "prune_destinations cancel all keep [] = m_return []"
| "prune_destinations cancel all keep (dst # rest) =
     m_bind (budget_step cancel) (\<lambda>_.
     m_bind (prune_specs cancel all keep dst all False) (\<lambda>(owned, protected).
     m_bind (prune_destinations cancel all keep rest) (\<lambda>pruned.
     m_return (if owned \<and> \<not> protected then dst # pruned else pruned))))"

definition final_check :: "(nat \<Rightarrow> bool) \<Rightarrow> unit metered" where
  "final_check cancel b = (if cancel (loads b) then Inl MappingCancelled else Inr ((), b))"

definition prune_candidates ::
  "mapping_limits \<Rightarrow> (nat \<Rightarrow> bool) \<Rightarrow> refspecs \<Rightarrow> ref_name list \<Rightarrow> advertised_ref list \<Rightarrow> bytes list \<Rightarrow>
     mapping_error + ref_name list" where
  "prune_candidates limits cancel self dsts refs retained =
     with_budget limits cancel
       (if direction self \<noteq> Fetch then m_lift (Inl WrongDirection)
        else
          m_bind (m_lift (ok_or (MappingLimit ''sources'')
            (Option.bind (checked_add (length refs) (length dsts)) (\<lambda>count.
             checked_add count (length retained))))) (\<lambda>count.
          m_bind (admit_mapping cancel limits self count
            (map advertised_name refs @ dsts @ retained)) (\<lambda>_.
          m_bind (advertised_tips cancel refs {}) (\<lambda>advertised.
          m_bind (prune_destinations cancel (specs self) (advertised \<union> set retained) dsts) (\<lambda>pruned.
          m_bind (final_check cancel) (\<lambda>_.
          m_return pruned))))))"


section \<open>What a metered computation computes\<close>

text \<open>
  A metered computation \<open>f\<close> tracks the outcome \<open>u\<close> of its unmetered counterpart when it either
  stops at a limit or a cancellation or has that very outcome, and when some amount of every
  resource is enough for it not to stop unless it is cancelled.
\<close>

definition stopped :: "mapping_error \<Rightarrow> bool" where
  "stopped e \<longleftrightarrow> e = MappingCancelled \<or> (\<exists>name. e = MappingLimit name)"

definition rich :: "nat \<Rightarrow> budget \<Rightarrow> bool" where
  "rich k b \<longleftrightarrow> k \<le> work_left b \<and> k \<le> bytes_left b \<and> k \<le> mappings_left b"

definition sound :: "'a metered \<Rightarrow> mapping_error + 'a \<Rightarrow> bool" where
  "sound f u \<longleftrightarrow>
     (\<forall>b. (\<forall>e. f b = Inl e \<longrightarrow> stopped e \<or> u = Inl e) \<and> (\<forall>v b'. f b = Inr (v, b') \<longrightarrow> u = Inr v))"

definition pays :: "nat \<Rightarrow> 'a metered \<Rightarrow> mapping_error + 'a \<Rightarrow> bool" where
  "pays k f u \<longleftrightarrow>
     (\<forall>b. rich k b \<longrightarrow>
        (\<forall>e. u = Inl e \<longrightarrow> f b = Inl e)
        \<and> (\<forall>v. u = Inr v \<longrightarrow> (\<exists>b'. f b = Inr (v, b') \<and> (\<forall>n. rich (k + n) b \<longrightarrow> rich n b'))))"

definition tracks :: "(nat \<Rightarrow> bool) \<Rightarrow> 'a metered \<Rightarrow> mapping_error + 'a \<Rightarrow> bool" where
  "tracks cancel f u \<longleftrightarrow> sound f u \<and> ((\<forall>i. \<not> cancel i) \<longrightarrow> (\<exists>k. pays k f u))"

lemma stopped_simps [simp]: "stopped MappingCancelled" "stopped (MappingLimit name)"
  by (simp_all add: stopped_def)

lemma rich_mono: "rich k b \<Longrightarrow> j \<le> k \<Longrightarrow> rich j b"
  by (auto simp add: rich_def)

lemma tracks_return: "tracks cancel (m_return v) (Inr v)"
  by (auto simp add: tracks_def sound_def pays_def m_return_def intro: exI [of _ 0])

lemma tracks_lift: "tracks cancel (m_lift u) u"
  by (cases u) (auto simp add: tracks_def sound_def pays_def m_lift_def intro: exI [of _ 0])

lemma pays_bind:
  assumes f: "pays k f u" and g: "\<And>v. u = Inr v \<Longrightarrow> pays j (g v) (h v)"
  shows "pays (k + j) (m_bind f g) (and_then u h)"
  unfolding pays_def
proof (intro allI impI)
  fix b
  assume b: "rich (k + j) b"
  then have k: "rich k b" by (rule rich_mono) simp
  show "(\<forall>e. and_then u h = Inl e \<longrightarrow> m_bind f g b = Inl e) \<and>
      (\<forall>v. and_then u h = Inr v \<longrightarrow>
        (\<exists>b'. m_bind f g b = Inr (v, b') \<and> (\<forall>n. rich (k + j + n) b \<longrightarrow> rich n b')))"
  proof (cases u)
    case (Inl e)
    then show ?thesis using f k by (auto simp add: pays_def m_bind_def)
  next
    case (Inr v)
    then obtain b1 where b1: "f b = Inr (v, b1)" and left: "\<And>n. rich (k + n) b \<Longrightarrow> rich n b1"
      using f k by (auto simp add: pays_def)
    have "rich j b1" by (rule left [OF b])
    then have "(\<forall>e. h v = Inl e \<longrightarrow> g v b1 = Inl e) \<and>
        (\<forall>w. h v = Inr w \<longrightarrow> (\<exists>b'. g v b1 = Inr (w, b') \<and> (\<forall>n. rich (j + n) b1 \<longrightarrow> rich n b')))"
      using g [OF Inr] by (auto simp add: pays_def)
    then show ?thesis using Inr b1 left by (fastforce simp add: m_bind_def add.assoc)
  qed
qed

lemma sound_bind:
  assumes f: "sound f u" and g: "\<And>v. u = Inr v \<Longrightarrow> sound (g v) (h v)"
  shows "sound (m_bind f g) (and_then u h)"
  unfolding sound_def
proof (intro allI)
  fix b
  show "(\<forall>e. m_bind f g b = Inl e \<longrightarrow> stopped e \<or> and_then u h = Inl e) \<and>
      (\<forall>v b'. m_bind f g b = Inr (v, b') \<longrightarrow> and_then u h = Inr v)"
  proof (cases "f b")
    case (Inl e)
    then have "stopped e \<or> u = Inl e" using f by (simp add: sound_def)
    then show ?thesis using Inl by (auto simp add: m_bind_def)
  next
    case (Inr p)
    then obtain v b1 where p: "f b = Inr (v, b1)" by (cases p) simp
    then have u: "u = Inr v" using f by (auto simp add: sound_def)
    have "(\<forall>e. g v b1 = Inl e \<longrightarrow> stopped e \<or> h v = Inl e) \<and> (\<forall>w b'. g v b1 = Inr (w, b') \<longrightarrow> h v = Inr w)"
      using g [OF u] by (simp add: sound_def)
    then show ?thesis using u p by (auto simp add: m_bind_def)
  qed
qed

lemma tracks_bind:
  assumes f: "tracks cancel f u" and g: "\<And>v. u = Inr v \<Longrightarrow> tracks cancel (g v) (h v)"
  shows "tracks cancel (m_bind f g) (and_then u h)"
  unfolding tracks_def
proof
  show "sound (m_bind f g) (and_then u h)" using f g by (intro sound_bind) (simp_all add: tracks_def)
  show "(\<forall>i. \<not> cancel i) \<longrightarrow> (\<exists>k. pays k (m_bind f g) (and_then u h))"
  proof
    assume never: "\<forall>i. \<not> cancel i"
    then obtain k where k: "pays k f u" using f by (auto simp add: tracks_def)
    show "\<exists>k. pays k (m_bind f g) (and_then u h)"
    proof (cases u)
      case (Inl e)
      then show ?thesis using pays_bind [OF k, of 0 g h] by auto
    next
      case (Inr v)
      then obtain j where "pays j (g v) (h v)" using g never by (auto simp add: tracks_def)
      then show ?thesis using pays_bind [OF k, of j g h] Inr by auto
    qed
  qed
qed

text \<open>The common cases: the outcome of the first part is known, or does not matter to the second.\<close>

lemma tracks_bind_value:
  "tracks cancel f (Inr v) \<Longrightarrow> tracks cancel (g v) u \<Longrightarrow> tracks cancel (m_bind f g) u"
  using tracks_bind [of cancel f "Inr v" g "\<lambda>_. u"] by simp

lemma tracks_bind_same:
  "tracks cancel f u \<Longrightarrow> (\<And>v. u = Inr v \<Longrightarrow> tracks cancel (g v) (h v)) \<Longrightarrow> u' = and_then u h \<Longrightarrow>
     tracks cancel (m_bind f g) u'"
  using tracks_bind by blast

subsection \<open>The interface of a charge\<close>

text \<open>
  A charge refuses only by stopping, and a fixed amount always pays for it. Whatever follows a
  charge therefore computes what it would compute without it.
\<close>

locale meter =
  fixes op :: "unit metered" and cancel :: "nat \<Rightarrow> bool" and cost :: nat
  assumes stops: "op b = Inl e \<Longrightarrow> stopped e"
    and paid: "\<forall>i. \<not> cancel i \<Longrightarrow> rich cost b \<Longrightarrow>
      \<exists>b'. op b = Inr ((), b') \<and> (\<forall>n. rich (cost + n) b \<longrightarrow> rich n b')"
begin

lemma op_tracks: "tracks cancel op (Inr ())"
proof -
  have "sound op (Inr ())" using stops by (auto simp add: sound_def)
  moreover have "\<forall>i. \<not> cancel i \<Longrightarrow> pays cost op (Inr ())" using paid by (simp add: pays_def)
  ultimately show ?thesis by (auto simp add: tracks_def)
qed

lemma then_tracks: "tracks cancel (f ()) u \<Longrightarrow> tracks cancel (m_bind op f) u"
  by (rule tracks_bind_value [OF op_tracks])

end

lemma debit_Inl: "debit left n name = Inl e \<Longrightarrow> stopped e"
  by (auto simp add: debit_def)

lemma debit_Inr: "n \<le> left \<Longrightarrow> debit left n name = Inr (left - n)"
  by (simp add: debit_def checked_sub_def)

interpretation step: meter "budget_step cancel" cancel 1 for cancel
proof
  show "budget_step cancel b = Inl e \<Longrightarrow> stopped e" for b e
    by (auto simp add: budget_step_def Let_def and_then_Inl_iff debit_Inl split: if_splits)
  show "\<exists>b'. budget_step cancel b = Inr ((), b') \<and> (\<forall>n. rich (1 + n) b \<longrightarrow> rich n b')"
    if "\<forall>i. \<not> cancel i" "rich 1 b" for b
    using that by (auto simp add: budget_step_def Let_def debit_Inr rich_def)
qed

interpretation comparison: meter "budget_comparison cancel pattern name" cancel "1 + length pattern + length name"
  for cancel pattern name
proof
  show "budget_comparison cancel pattern name b = Inl e \<Longrightarrow> stopped e" for b e
    using step.stops [of cancel b e]
    by (auto simp add: budget_comparison_def m_bind_def and_then_Inl_iff debit_Inl)
  show "\<exists>b'. budget_comparison cancel pattern name b = Inr ((), b')
      \<and> (\<forall>n. rich (1 + length pattern + length name + n) b \<longrightarrow> rich n b')"
    if never: "\<forall>i. \<not> cancel i" and b: "rich (1 + length pattern + length name) b" for b
  proof -
    obtain b1 where "budget_step cancel b = Inr ((), b1)" "\<forall>n. rich (1 + n) b \<longrightarrow> rich n b1"
      using step.paid [OF never, of b] rich_mono [OF b] by auto
    moreover from this have "length pattern + length name \<le> work_left b1"
      using b by (auto simp add: rich_def add.assoc)
    ultimately show ?thesis
      by (auto simp add: budget_comparison_def m_bind_def debit_Inr rich_def add.assoc)
  qed
qed

interpretation report: meter "budget_report n" cancel "1 + n" for cancel n
  by unfold_locales
     (auto simp add: budget_report_def and_then_Inl_iff debit_Inl debit_Inr rich_def)

interpretation output_bytes: meter "budget_bytes n" cancel n for cancel n
  by unfold_locales
     (auto simp add: budget_bytes_def and_then_Inl_iff debit_Inl debit_Inr rich_def)


section \<open>Mapping under limits is mapping\<close>

lemmas charge_tracks = step.then_tracks comparison.then_tracks report.then_tracks output_bytes.then_tracks

lemma output_tracks: "tracks cancel (budget_output spec captured src) (Inr ())"
  unfolding budget_output_def
  by (auto intro!: charge_tracks output_bytes.op_tracks tracks_return split: option.splits)

lemma excluded_tracks: "tracks cancel (metered_excluded cancel name all) (Inr (excluded all name))"
  by (induction all) (auto simp add: excluded_def intro!: charge_tracks tracks_return)

lemma check_tracks: "tracks cancel (metered_check cancel names sources) (check_sources names sources)"
  by (induction sources arbitrary: names) (auto intro!: charge_tracks tracks_return tracks_lift)

lemma sources_tracks:
  "tracks cancel (metered_sources cancel all spec sources matched p) (map_sources all spec sources matched p)"
proof (induction sources arbitrary: matched p)
  case Nil
  then show ?case by (simp add: tracks_return)
next
  case (Cons src rest)
  have "tracks cancel (m_bind (metered_excluded cancel (source_name src) all) (\<lambda>ex.
         if \<not> ex then
           m_bind (budget_output spec c (Some src)) (\<lambda>_.
           m_bind (m_lift (spec_mapping spec c (Some src))) (\<lambda>m.
           m_bind (m_lift (plan_add p m)) (\<lambda>p.
           metered_sources cancel all spec rest True p)))
         else metered_sources cancel all spec rest True p))
       (if \<not> excluded all (source_name src) then
            and_then (spec_mapping spec c (Some src)) (\<lambda>m.
            and_then (plan_add p m) (\<lambda>p. map_sources all spec rest True p))
          else map_sources all spec rest True p)" for c
    by (rule tracks_bind_value [OF excluded_tracks])
       (auto intro!: tracks_bind_value [OF output_tracks] tracks_bind tracks_lift Cons.IH)
  then show ?case using Cons.IH
    by (auto intro!: charge_tracks split: option.splits)
qed

lemma specs_tracks:
  "tracks cancel (metered_specs cancel all sources rest p missing) (map_specs all sources rest p missing)"
proof (induction rest arbitrary: p missing)
  case Nil
  then show ?case by (simp add: tracks_return)
next
  case (Cons spec rest)
  have "tracks cancel (case r of (matched, p) \<Rightarrow>
       if \<not> matched \<and> \<not> wildcard spec then
         m_bind (budget_report (length (source spec))) (\<lambda>_.
         metered_specs cancel all sources rest p (missing @ [source spec]))
       else metered_specs cancel all sources rest p missing)
     (case r of (matched, p) \<Rightarrow> map_specs all sources rest p
          (if \<not> matched \<and> \<not> wildcard spec then missing @ [source spec] else missing))" for r
    by (cases r) (simp add: Cons.IH report.then_tracks)
  then show ?case using Cons.IH
    by (auto intro!: charge_tracks tracks_bind_value [OF output_tracks] tracks_bind tracks_lift sources_tracks)
qed

lemma admitted_tracks: "tracks cancel (map_admitted cancel self sources) (map_with_missing self sources)"
  unfolding map_admitted_def map_with_missing_def
  by (intro tracks_bind check_tracks specs_tracks) (auto intro!: tracks_return)

text \<open>Admission.\<close>

lemma admit_lengths_stops: "admit_lengths cancel left ns b = Inl e \<Longrightarrow> stopped e"
proof (induction ns arbitrary: left b)
  case (Cons n ns)
  then show ?case
    by (auto simp add: m_bind_def m_lift_def and_then_Inl_iff and_then_Inr_iff debit_Inl step.stops)
qed (simp add: m_return_def)

lemma admit_sound: "sound (admit_mapping cancel limits self count names) (Inr ())"
proof -
  have "stopped e" if "admit_mapping cancel limits self count names b = Inl e" for b e
    using that unfolding admit_mapping_def
    by (auto simp add: m_bind_def m_lift_def m_return_def and_then_Inl_iff admit_lengths_stops
        split: if_splits)
  then show ?thesis by (auto simp add: sound_def)
qed

text \<open>Limits that are all at least \<open>k\<close>.\<close>

definition ample :: "nat \<Rightarrow> mapping_limits \<Rightarrow> bool" where
  "ample k limits \<longleftrightarrow>
     k \<le> max_sources limits \<and> k \<le> max_specs limits \<and> k \<le> max_input_bytes limits
     \<and> k \<le> max_mappings limits \<and> k \<le> max_output_bytes limits \<and> k \<le> max_work limits"

lemma with_budget_sound:
  assumes "sound f u"
  shows "with_budget limits cancel f = Inl e \<Longrightarrow> stopped e \<or> u = Inl e"
    and "with_budget limits cancel f = Inr v \<Longrightarrow> u = Inr v"
  using assms
  by (auto simp add: with_budget_def budget_new_def sound_def and_then_Inl_iff and_then_Inr_iff
      split: if_splits)

lemma with_budget_pays:
  assumes "pays k f u" "ample k limits"
  shows "with_budget limits (\<lambda>_. False) f = u"
proof -
  let ?b = "\<lparr>steps_left = 64, mappings_left = max_mappings limits,
    bytes_left = max_output_bytes limits, work_left = max_work limits, loads = 1\<rparr>"
  have "rich k ?b" using assms(2) by (simp add: rich_def ample_def)
  then show ?thesis using assms(1)
    by (cases u) (auto simp add: with_budget_def budget_new_def pays_def)
qed

lemma admit_lengths_pays:
  "sum_list ns \<le> left \<Longrightarrow>
     pays (length ns) (admit_lengths (\<lambda>_. False) left ns) (Inr (left - sum_list ns))"
proof (induction ns arbitrary: left)
  case Nil
  then show ?case by (simp add: pays_def m_return_def)
next
  case (Cons n ns)
  have "pays (1 + (0 + length ns)) (admit_lengths (\<lambda>_. False) left (n # ns))
    (and_then (Inr ()) (\<lambda>_. and_then (Inr (left - n)) (\<lambda>left. Inr (left - sum_list ns))))"
    unfolding admit_lengths.simps
  proof (intro pays_bind)
    show "pays 1 (budget_step (\<lambda>_. False)) (Inr ())" using step.paid [of "\<lambda>_. False"] by (simp add: pays_def)
    show "pays 0 (m_lift (debit left n ''input bytes'')) (Inr (left - n))"
      using Cons.prems by (simp add: debit_Inr m_lift_def pays_def)
    show "pays (length ns) (admit_lengths (\<lambda>_. False) v ns) (Inr (v - sum_list ns))"
      if "Inr (left - n) = (Inr v :: mapping_error + nat)" for v
      using that Cons by simp
  qed
  then show ?case by simp
qed

text \<open>What admission needs of the limits it compares, and of the work it charges.\<close>

definition admit_need :: "refspecs \<Rightarrow> nat \<Rightarrow> bytes list \<Rightarrow> nat" where
  "admit_need self count names = count + length (specs self)
     + (sum_list (map (\<lambda>spec. length (raw spec)) (specs self)) + sum_list (map length names))"

lemma admit_pays:
  assumes "ample (admit_need self count names) limits"
  shows "pays (length (specs self) + length names)
    (admit_mapping (\<lambda>_. False) limits self count names) (Inr ())"
proof -
  let ?raw = "map (\<lambda>spec. length (raw spec)) (specs self)"
  have fits: "\<not> max_sources limits < count" "\<not> max_specs limits < length (specs self)"
    "sum_list ?raw \<le> max_input_bytes limits"
    "sum_list (map length names) \<le> max_input_bytes limits - sum_list ?raw"
    using assms by (auto simp add: ample_def admit_need_def)
  have "pays (length ?raw + (length (map length names) + 0))
    (admit_mapping (\<lambda>_. False) limits self count names)
    (and_then (Inr (max_input_bytes limits - sum_list ?raw)) (\<lambda>left.
     and_then (Inr (left - sum_list (map length names))) (\<lambda>_. Inr ())))"
    unfolding admit_mapping_def using fits
    by (simp only: if_False) (intro pays_bind admit_lengths_pays, auto simp add: pays_def m_return_def)
  then show ?thesis by simp
qed

text \<open>A computation behind an admission that ample limits pass.\<close>

lemma ample_admission:
  assumes f: "tracks (\<lambda>_. False) f u"
  shows "\<exists>k. \<forall>limits. ample k limits \<longrightarrow>
    with_budget limits (\<lambda>_. False)
      (m_bind (admit_mapping (\<lambda>_. False) limits self count names) (\<lambda>_. f)) = u"
proof -
  let ?need = "admit_need self count names" and ?work = "length (specs self) + length names"
  obtain k where k: "pays k f u" using f by (auto simp add: tracks_def)
  have "with_budget limits (\<lambda>_. False)
      (m_bind (admit_mapping (\<lambda>_. False) limits self count names) (\<lambda>_. f)) = u"
    if ample: "ample (?need + (?work + k)) limits" for limits
  proof (rule with_budget_pays)
    have "ample ?need limits" using ample by (auto simp add: ample_def)
    from pays_bind [OF admit_pays [OF this], of k "\<lambda>_. f" "\<lambda>_. u"] k
    show "pays (?work + k) (m_bind (admit_mapping (\<lambda>_. False) limits self count names) (\<lambda>_. f)) u" by simp
    show "ample (?work + k) limits" using ample by (auto simp add: ample_def)
  qed
  then show ?thesis by blast
qed

lemma limited_mapping_facts:
  shows "limited_map_with_missing limits cancel self sources = Inr v \<Longrightarrow>
      map_with_missing self sources = Inr v"
    and "limited_map_with_missing limits cancel self sources = Inl e \<Longrightarrow>
      e = MappingCancelled \<or> (\<exists>name. e = MappingLimit name) \<or> map_with_missing self sources = Inl e"
    and "\<exists>k. \<forall>limits. ample k limits \<longrightarrow>
      limited_map_with_missing limits (\<lambda>_. False) self sources = map_with_missing self sources"
proof -
  have sound: "sound (m_bind (admit_mapping cancel limits self (length sources) (map source_name sources))
      (\<lambda>_. map_admitted cancel self sources)) (map_with_missing self sources)"
    using sound_bind [OF admit_sound, of "\<lambda>_. map_admitted cancel self sources"
        "\<lambda>_. map_with_missing self sources"] admitted_tracks
    by (simp add: tracks_def)
  show "limited_map_with_missing limits cancel self sources = Inr v \<Longrightarrow> map_with_missing self sources = Inr v"
    and "limited_map_with_missing limits cancel self sources = Inl e \<Longrightarrow>
      e = MappingCancelled \<or> (\<exists>name. e = MappingLimit name) \<or> map_with_missing self sources = Inl e"
    using with_budget_sound [OF sound] by (auto simp add: limited_map_with_missing_def stopped_def)
  show "\<exists>k. \<forall>limits. ample k limits \<longrightarrow>
      limited_map_with_missing limits (\<lambda>_. False) self sources = map_with_missing self sources"
    unfolding limited_map_with_missing_def by (rule ample_admission [OF admitted_tracks])
qed

text \<open>
  C16: Mapping under limits and cancellation computes what the unlimited mapping computes. For any
  limits and any behaviour of the cancellation flag the outcome is either a limit error or a
  cancellation, or else the very result or the very error of the unlimited mapping; and limits
  that are large enough always reach it when the flag stays down.
\<close>

theorem limited_mapping_transparent:
  "(\<forall>v. limited_map_with_missing limits cancel self sources = Inr v \<longrightarrow>
      map_with_missing self sources = Inr v)
   \<and> (\<forall>e. limited_map_with_missing limits cancel self sources = Inl e \<longrightarrow>
      e = MappingCancelled \<or> (\<exists>name. e = MappingLimit name) \<or> map_with_missing self sources = Inl e)
   \<and> (\<exists>k. \<forall>limits. ample k limits \<longrightarrow>
      limited_map_with_missing limits (\<lambda>_. False) self sources = map_with_missing self sources)"
  by (intro conjI allI impI limited_mapping_facts(3)) (rule limited_mapping_facts(1, 2); assumption)+

lemma limited_mapping_transparent_witness:
  "\<exists>limits. limited_map_with_missing limits (\<lambda>_. False) sample_specs [sample_source] =
     Inr ([sample_mapping], [])"
proof -
  obtain k where "\<forall>limits. ample k limits \<longrightarrow>
      limited_map_with_missing limits (\<lambda>_. False) sample_specs [sample_source] =
        map_with_missing sample_specs [sample_source]"
    using limited_mapping_transparent [of default_limits "\<lambda>_. False"] by blast
  moreover have "ample k \<lparr>max_sources = k, max_specs = k, max_input_bytes = k, max_mappings = k,
      max_output_bytes = k, max_work = k\<rparr>"
    by (simp add: ample_def)
  ultimately show ?thesis using sample_map by metis
qed


section \<open>Pruning under limits\<close>

lemma prune_excluded_tracks: "tracks cancel (prune_excluded cancel src all) (Inr (excluded all src))"
  by (induction all) (auto simp add: excluded_def intro!: charge_tracks tracks_return)

lemma reverse_source_tracks:
  assumes "length (source spec) + length dst \<le> usize_max"
  shows "tracks cancel (reverse_source cancel spec dst) (Inr (source_for_destination spec dst))"
proof (cases "negative spec \<or> destination spec = None")
  case True
  then show ?thesis
    by (auto simp add: reverse_source_def source_for_destination_def tracks_return)
next
  case False
  then obtain pattern where pattern: "\<not> negative spec" "destination spec = Some pattern" by auto
  define found where "found = (case around_star pattern of
      Some (prefix, suffix) \<Rightarrow> between dst prefix suffix
    | None \<Rightarrow> if pattern = dst then Some [] else None)"
  show ?thesis
  proof (cases found)
    case None
    then show ?thesis using pattern
      by (auto simp add: reverse_source_def source_for_destination_def simp flip: found_def
          intro!: charge_tracks tracks_return)
  next
    case (Some c)
    have "length c \<le> length dst"
      using Some by (auto simp add: found_def between_Some split: option.splits if_splits)
    then have fits: "Option.bind (checked_sub (length (source spec)) 1) (\<lambda>n. checked_add n (length c)) =
        Some (length (source spec) - 1 + length c)" if "around_star (source spec) = Some p" for p
      using assms around_star_Some [of "source spec" "fst p" "snd p"] that by (simp add: checked_sub_def checked_add_def)
    show ?thesis
    proof (cases "around_star (source spec)")
      case None
      then show ?thesis using pattern Some
        by (auto simp add: reverse_source_def source_for_destination_def simp flip: found_def
            intro!: charge_tracks tracks_return)
    next
      case star: (Some p)
      then show ?thesis using pattern Some fits [OF star]
        by (cases p) (auto simp add: reverse_source_def source_for_destination_def simp flip: found_def
            intro!: charge_tracks tracks_return tracks_bind_value [OF tracks_lift])
    qed
  qed
qed


lemma advertised_tips_tracks:
  "tracks cancel (advertised_tips cancel refs names)
     (Inr (names \<union> advertised_name ` {r \<in> set refs. advertised_kind r = Tip}))"
proof (induction refs arbitrary: names)
  case Nil
  then show ?case by (simp add: tracks_return)
next
  case (Cons r refs)
  have set: "{x \<in> set (r # refs). advertised_kind x = Tip} =
      (if advertised_kind r = Tip then {r} else {}) \<union> {x \<in> set refs. advertised_kind x = Tip}"
    by auto
  show ?case
    using Cons.IH [of names] Cons.IH [of "insert (advertised_name r) names"]
    unfolding set by (auto intro!: charge_tracks)
qed

text \<open>The sources that a list of refspecs attributes to a destination.\<close>

definition sources_of :: "refspec list \<Rightarrow> refspec list \<Rightarrow> ref_name \<Rightarrow> bytes list" where
  "sources_of all rest dst =
     filter (\<lambda>src. \<not> excluded all src) (List.map_filter (\<lambda>spec. source_for_destination spec dst) rest)"

lemma sources_of_Nil: "sources_of all [] dst = []"
  by (simp add: sources_of_def List.map_filter_def)

lemma sources_of_Cons:
  "sources_of all (spec # rest) dst =
     (case source_for_destination spec dst of
        None \<Rightarrow> sources_of all rest dst
      | Some src \<Rightarrow> if excluded all src then sources_of all rest dst else src # sources_of all rest dst)"
  by (simp add: sources_of_def List.map_filter_def split: option.splits)

lemma prune_specs_tracks:
  assumes "\<forall>spec \<in> set rest. length (source spec) + length dst \<le> usize_max"
  shows "tracks cancel (prune_specs cancel all keep dst rest owned)
    (Inr (owned \<or> sources_of all rest dst \<noteq> [], \<exists>src \<in> set (sources_of all rest dst). src \<in> keep))"
  using assms
proof (induction rest arbitrary: owned)
  case Nil
  then show ?case by (simp add: sources_of_Nil tracks_return)
next
  case (Cons spec rest)
  have fits: "length (source spec) + length dst \<le> usize_max" using Cons.prems by simp
  have IH: "tracks cancel (prune_specs cancel all keep dst rest own)
    (Inr (own \<or> sources_of all rest dst \<noteq> [], \<exists>src \<in> set (sources_of all rest dst). src \<in> keep))" for own
    using Cons by simp
  show ?case
  proof (cases "source_for_destination spec dst")
    case None
    then show ?thesis using IH [of owned]
      by (auto intro!: step.then_tracks tracks_bind_value [OF reverse_source_tracks [OF fits]]
          simp add: sources_of_Cons)
  next
    case (Some src)
    then show ?thesis using IH [of owned] IH [of True]
      by (cases "excluded all src"; cases "src \<in> keep")
         (auto intro!: charge_tracks tracks_return tracks_bind_value [OF reverse_source_tracks [OF fits]]
           tracks_bind_value [OF prune_excluded_tracks] simp add: sources_of_Cons)
  qed
qed

definition prunable :: "refspec list \<Rightarrow> bytes set \<Rightarrow> ref_name \<Rightarrow> bool" where
  "prunable all keep dst \<longleftrightarrow>
     sources_of all all dst \<noteq> [] \<and> (\<forall>src \<in> set (sources_of all all dst). src \<notin> keep)"

lemma prune_destinations_tracks:
  assumes "\<forall>dst \<in> set dsts. \<forall>spec \<in> set all. length (source spec) + length dst \<le> usize_max"
  shows "tracks cancel (prune_destinations cancel all keep dsts) (Inr (filter (prunable all keep) dsts))"
  using assms
proof (induction dsts)
  case Nil
  then show ?case by (simp add: tracks_return)
next
  case (Cons dst dsts)
  have fits: "\<forall>spec \<in> set all. length (source spec) + length dst \<le> usize_max" using Cons.prems by simp
  have IH: "tracks cancel (prune_destinations cancel all keep dsts) (Inr (filter (prunable all keep) dsts))"
    using Cons by simp
  show ?case
    unfolding prune_destinations.simps
    by (rule step.then_tracks, rule tracks_bind_value [OF prune_specs_tracks [OF fits]])
       (auto intro!: tracks_bind_value [OF IH] tracks_return simp add: prunable_def [of all keep dst])
qed

interpretation final: meter "final_check cancel" cancel 0 for cancel
  by unfold_locales (auto simp add: final_check_def split: if_splits)

lemma lift_value: "m_bind (m_lift (Inr v)) g = g v"
  by (simp add: m_bind_def m_lift_def fun_eq_iff)

definition prune_result :: "refspecs \<Rightarrow> ref_name list \<Rightarrow> advertised_ref list \<Rightarrow> bytes list \<Rightarrow> ref_name list" where
  "prune_result self dsts refs retained =
     filter (\<lambda>dst. prune_sources self dst \<noteq> [] \<and>
       (\<forall>src \<in> set (prune_sources self dst).
          (\<forall>r \<in> set refs. advertised_kind r = Tip \<longrightarrow> advertised_name r \<noteq> src) \<and> src \<notin> set retained)) dsts"

lemma prune_result_eq:
  "prune_result self dsts refs retained =
     filter (prunable (specs self) (advertised_name ` {r \<in> set refs. advertised_kind r = Tip} \<union> set retained)) dsts"
  unfolding prune_result_def prunable_def prune_sources_def sources_of_def
  by (rule filter_cong) auto

lemma prune_candidates_facts:
  assumes fetch: "direction self = Fetch"
    and count: "length refs + length dsts + length retained \<le> usize_max"
    and sizes: "\<forall>dst \<in> set dsts. \<forall>spec \<in> set (specs self). length (source spec) + length dst \<le> usize_max"
  defines "result \<equiv> filter (\<lambda>dst. prune_sources self dst \<noteq> [] \<and>
      (\<forall>src \<in> set (prune_sources self dst).
         (\<forall>r \<in> set refs. advertised_kind r = Tip \<longrightarrow> advertised_name r \<noteq> src) \<and> src \<notin> set retained)) dsts"
  shows "prune_candidates limits cancel self dsts refs retained = Inr pruned \<Longrightarrow> pruned = result"
    and "prune_candidates limits cancel self dsts refs retained = Inl e \<Longrightarrow>
      e = MappingCancelled \<or> (\<exists>name. e = MappingLimit name)"
    and "\<exists>k. \<forall>limits. ample k limits \<longrightarrow>
      prune_candidates limits (\<lambda>_. False) self dsts refs retained = Inr result"
proof -
  let ?names = "map advertised_name refs @ dsts @ retained"
  define rest where "rest = (\<lambda>cancel.
    m_bind (advertised_tips cancel refs {}) (\<lambda>advertised.
    m_bind (prune_destinations cancel (specs self) (advertised \<union> set retained) dsts) (\<lambda>pruned.
    m_bind (final_check cancel) (\<lambda>_. m_return pruned))))"
  have result: "result = prune_result self dsts refs retained" by (simp add: result_def prune_result_def)
  have counted: "Option.bind (checked_add (length refs) (length dsts)) (\<lambda>count. checked_add count (length retained))
      = Some (length refs + length dsts + length retained)"
    using count by (simp add: checked_add_def)
  have run: "prune_candidates limits cancel self dsts refs retained = with_budget limits cancel
      (m_bind (admit_mapping cancel limits self (length refs + length dsts + length retained) ?names)
        (\<lambda>_. rest cancel))" for limits cancel
    using fetch by (simp add: prune_candidates_def counted lift_value rest_def)
  have tracks: "tracks cancel (rest cancel) (Inr result)" for cancel
    unfolding rest_def result prune_result_eq
    by (rule tracks_bind_value [OF advertised_tips_tracks])
       (auto intro!: tracks_bind_value [OF prune_destinations_tracks [OF sizes]] final.then_tracks tracks_return)
  have sound: "sound (m_bind (admit_mapping cancel limits self (length refs + length dsts + length retained)
      ?names) (\<lambda>_. rest cancel)) (Inr result)"
    using sound_bind [OF admit_sound, of "\<lambda>_. rest cancel" "\<lambda>_. Inr result"] tracks
    by (simp add: tracks_def)
  show "prune_candidates limits cancel self dsts refs retained = Inr pruned \<Longrightarrow> pruned = result"
    and "prune_candidates limits cancel self dsts refs retained = Inl e \<Longrightarrow>
      e = MappingCancelled \<or> (\<exists>name. e = MappingLimit name)"
    using with_budget_sound [OF sound] by (auto simp add: run stopped_def)
  show "\<exists>k. \<forall>limits. ample k limits \<longrightarrow>
      prune_candidates limits (\<lambda>_. False) self dsts refs retained = Inr result"
    unfolding run by (rule ample_admission [OF tracks])
qed


text \<open>
  C4: Pruning deletes a tracking reference only when it must. A destination is selected exactly
  when some refspec attributes it to a source that no negative refspec excludes and none of the
  sources it is attributed to is still advertised as a tip or explicitly retained; any other
  outcome is a limit error or a cancellation, and ample limits always reach the answer. Sizes are
  those of slices in memory, so their sums do not overflow.
\<close>

theorem prune_candidates_correct:
  assumes "direction self = Fetch"
    and "length refs + length dsts + length retained \<le> usize_max"
    and "\<forall>dst \<in> set dsts. \<forall>spec \<in> set (specs self). length (source spec) + length dst \<le> usize_max"
  defines "result \<equiv> filter (\<lambda>dst. prune_sources self dst \<noteq> [] \<and>
      (\<forall>src \<in> set (prune_sources self dst).
         (\<forall>r \<in> set refs. advertised_kind r = Tip \<longrightarrow> advertised_name r \<noteq> src) \<and> src \<notin> set retained)) dsts"
  shows "(\<forall>pruned. prune_candidates limits cancel self dsts refs retained = Inr pruned \<longrightarrow> pruned = result)
    \<and> (\<forall>e. prune_candidates limits cancel self dsts refs retained = Inl e \<longrightarrow>
        e = MappingCancelled \<or> (\<exists>name. e = MappingLimit name))
    \<and> (\<exists>k. \<forall>limits. ample k limits \<longrightarrow>
        prune_candidates limits (\<lambda>_. False) self dsts refs retained = Inr result)"
  unfolding result_def
  by (intro conjI allI impI prune_candidates_facts(3) [OF assms(1-3)])
     (rule prune_candidates_facts(1, 2) [OF assms(1-3)]; assumption)+

lemma prune_candidates_correct_witness:
  "\<exists>limits. prune_candidates limits (\<lambda>_. False) sample_specs [ascii ''refs/b''] [] [] = Inr []"
proof -
  have "length (ascii ''refs/a'') + length (ascii ''refs/b'') \<le> usize_max" by (simp add: usize_max_def)
  then have sizes: "\<forall>dst \<in> set [ascii ''refs/b'']. \<forall>spec \<in> set (specs sample_specs).
      length (source spec) + length dst \<le> usize_max"
    by (simp add: sample_specs_def)
  have fetch: "direction sample_specs = Fetch" by (simp add: sample_specs_def)
  have count: "length ([] :: advertised_ref list) + length [ascii ''refs/b''] + length ([] :: bytes list) \<le> usize_max"
    by (simp add: usize_max_def)
  have none: "prune_sources sample_specs (ascii ''refs/b'') = []"
    by (simp add: prune_sources_def sample_specs_def source_for_destination_def List.map_filter_def)
  obtain k where "\<forall>limits. ample k limits \<longrightarrow>
      prune_candidates limits (\<lambda>_. False) sample_specs [ascii ''refs/b''] [] [] = Inr []"
    using prune_candidates_correct [OF fetch count sizes, of default_limits "\<lambda>_. False"] by (auto simp add: none)
  moreover have "ample k \<lparr>max_sources = k, max_specs = k, max_input_bytes = k, max_mappings = k,
      max_output_bytes = k, max_work = k\<rparr>"
    by (simp add: ample_def)
  ultimately show ?thesis by blast
qed

end
