(* ===== verification/Binary_Search.thy ===== *)
theory Binary_Search
  imports Prelude
begin

text \<open>
  The two search loops over sorted tables that the index readers share: the search for one entry
  and the search for the end of a range. A probe may fail, so both return results. The interfaces
  state what the tables promise: \<open>ordered_probe\<close> for a search, \<open>falling_probe\<close> for a range.
\<close>

datatype cmp = Less | Equal | Greater

definition compare :: "'a::linorder \<Rightarrow> 'a \<Rightarrow> cmp" where
  "compare a b = (if a < b then Less else if a = b then Equal else Greater)"

lemma compare_simps [simp]:
  "compare a b = Less \<longleftrightarrow> a < b" "compare a b = Equal \<longleftrightarrow> a = b" "compare a b = Greater \<longleftrightarrow> b < a"
  by (auto simp add: compare_def)

text \<open>\<^verbatim>\<open>while low < high\<close> with a three-way comparison.\<close>

function binary_search :: "(nat \<Rightarrow> 'e + cmp) \<Rightarrow> nat \<Rightarrow> nat \<Rightarrow> 'e + nat option" where
  "binary_search probe low high =
     (if low < high then
        let middle = low + (high - low) div 2
        in and_then (probe middle) (\<lambda>c.
           case c of
             Less \<Rightarrow> binary_search probe (middle + 1) high
           | Greater \<Rightarrow> binary_search probe low middle
           | Equal \<Rightarrow> Inr (Some middle))
      else Inr None)"
  by pat_completeness auto
termination
  by (relation "measure (\<lambda>(probe, low, high). high - low)") auto

text \<open>\<^verbatim>\<open>while low < high\<close> with a two-way test: the end of the prefix where the test holds.\<close>

function partition_search :: "(nat \<Rightarrow> 'e + bool) \<Rightarrow> nat \<Rightarrow> nat \<Rightarrow> 'e + nat" where
  "partition_search probe low high =
     (if low < high then
        let middle = low + (high - low) div 2
        in and_then (probe middle) (\<lambda>c.
           if c then partition_search probe (middle + 1) high
           else partition_search probe low middle)
      else Inr low)"
  by pat_completeness auto
termination
  by (relation "measure (\<lambda>(probe, low, high). high - low)") auto

declare binary_search.simps [simp del] partition_search.simps [simp del]

text \<open>The middle of a non-empty range lies in it.\<close>

lemma middle_bounds: "(low::nat) < high \<Longrightarrow> low \<le> low + (high - low) div 2 \<and> low + (high - low) div 2 < high"
  by auto

text \<open>Whatever the table, a search whose probes return never fails and finds only equal entries.\<close>

lemma binary_search_total:
  assumes "\<forall>i. low \<le> i \<and> i < high \<longrightarrow> (\<exists>c. probe i = Inr c)"
  shows "\<exists>r. binary_search probe low high = Inr r
    \<and> (\<forall>i. r = Some i \<longrightarrow> low \<le> i \<and> i < high \<and> probe i = Inr Equal)"
  using assms
proof (induction probe low high rule: binary_search.induct)
  case (1 probe low high)
  let ?m = "low + (high - low) div 2"
  show ?case
  proof (cases "low < high")
    case True
    note m = middle_bounds [OF True]
    then obtain c where c: "probe ?m = Inr c" using "1.prems" by blast
    show ?thesis
    proof (cases c)
      case Less
      have "\<exists>r. binary_search probe (?m + 1) high = Inr r
          \<and> (\<forall>i. r = Some i \<longrightarrow> ?m + 1 \<le> i \<and> i < high \<and> probe i = Inr Equal)"
        by (rule "1.IH"(1) [OF True refl c Less]) (use "1.prems" m in auto)
      then show ?thesis using True c Less m by (auto simp add: binary_search.simps [of probe low high])
    next
      case Equal
      then show ?thesis using True c m by (simp add: binary_search.simps [of probe low high])
    next
      case Greater
      have "\<exists>r. binary_search probe low ?m = Inr r
          \<and> (\<forall>i. r = Some i \<longrightarrow> low \<le> i \<and> i < ?m \<and> probe i = Inr Equal)"
        by (rule "1.IH"(2) [OF True refl c Greater]) (use "1.prems" m in auto)
      then show ?thesis using True c Greater m by (auto simp add: binary_search.simps [of probe low high])
    qed
  next
    case False
    then show ?thesis by (simp add: binary_search.simps [of probe low high])
  qed
qed

section \<open>Searching an ordered table\<close>

locale ordered_probe =
  fixes probe :: "nat \<Rightarrow> 'e + cmp" and key :: "nat \<Rightarrow> 'k::linorder" and target :: 'k
    and first :: nat and bound :: nat
  assumes probes: "first \<le> i \<Longrightarrow> i < bound \<Longrightarrow> probe i = Inr (compare (key i) target)"
    and ascending: "first \<le> i \<Longrightarrow> i < j \<Longrightarrow> j < bound \<Longrightarrow> key i < key j"
begin

lemma search_present:
  assumes "first \<le> low" "high \<le> bound" "low \<le> i" "i < high" "key i = target"
  shows "binary_search probe low high = Inr (Some i)"
  using assms
proof (induction "high - low" arbitrary: low high rule: less_induct)
  case less
  let ?m = "low + (high - low) div 2"
  have lh: "low < high" using less.prems by simp
  note m = middle_bounds [OF lh]
  have p: "probe ?m = Inr (compare (key ?m) target)" using m less.prems by (intro probes) auto
  show ?case
  proof (cases i ?m rule: linorder_cases)
    case less': less
    then have "probe ?m = Inr Greater" using p ascending [of i ?m] m less.prems by auto
    moreover have "binary_search probe low ?m = Inr (Some i)"
      using less' m less.prems by (intro less.hyps) auto
    ultimately show ?thesis using lh by (simp add: binary_search.simps [of probe low high])
  next
    case equal
    then have "probe ?m = Inr Equal" using p less.prems by auto
    then show ?thesis using lh equal by (simp add: binary_search.simps [of probe low high])
  next
    case greater
    then have "probe ?m = Inr Less" using p ascending [of ?m i] m less.prems by auto
    moreover have "binary_search probe (?m + 1) high = Inr (Some i)"
      using greater m less.prems by (intro less.hyps) auto
    ultimately show ?thesis using lh by (simp add: binary_search.simps [of probe low high])
  qed
qed

lemma search_result:
  assumes "first \<le> low" "high \<le> bound"
  shows "\<exists>r. binary_search probe low high = Inr r
    \<and> (\<forall>i. r = Some i \<longleftrightarrow> low \<le> i \<and> i < high \<and> key i = target)"
proof -
  have probe: "\<forall>i. low \<le> i \<and> i < high \<longrightarrow> (\<exists>c. probe i = Inr c)" using assms probes by force
  obtain r where r: "binary_search probe low high = Inr r"
    and sound: "\<forall>i. r = Some i \<longrightarrow> low \<le> i \<and> i < high \<and> probe i = Inr Equal"
    using binary_search_total [OF probe] by blast
  have "key i = target" if "r = Some i" for i using sound probes [of i] that assms by fastforce
  moreover have "r = Some i" if "low \<le> i" "i < high" "key i = target" for i
    using search_present [OF assms that] r by simp
  ultimately show ?thesis using r sound by blast
qed

end

section \<open>Searching for the end of a prefix\<close>

locale falling_probe =
  fixes probe :: "nat \<Rightarrow> 'e + bool" and holds :: "nat \<Rightarrow> bool" and first :: nat and bound :: nat
  assumes probes: "first \<le> i \<Longrightarrow> i < bound \<Longrightarrow> probe i = Inr (holds i)"
    and falling: "first \<le> i \<Longrightarrow> i < j \<Longrightarrow> j < bound \<Longrightarrow> holds j \<Longrightarrow> holds i"
begin

lemma partition_result:
  assumes "first \<le> low" "low \<le> high" "high \<le> bound"
  shows "\<exists>k. partition_search probe low high = Inr k \<and> low \<le> k \<and> k \<le> high
    \<and> (\<forall>i. low \<le> i \<and> i < high \<longrightarrow> holds i = (i < k))"
  using assms
proof (induction "high - low" arbitrary: low high rule: less_induct)
  case less
  let ?m = "low + (high - low) div 2"
  show ?case
  proof (cases "low < high")
    case lh: True
    note m = middle_bounds [OF lh]
    have p: "probe ?m = Inr (holds ?m)" using m less.prems by (intro probes) auto
    have smaller: "high - (?m + 1) < high - low" "?m - low < high - low" using m lh by linarith+
    show ?thesis
    proof (cases "holds ?m")
      case True
      obtain k where k: "partition_search probe (?m + 1) high = Inr k" "?m + 1 \<le> k" "k \<le> high"
        "\<forall>i. ?m + 1 \<le> i \<and> i < high \<longrightarrow> holds i = (i < k)"
        using less.hyps [OF smaller(1)] m less.prems by auto
      have below: "holds i" if "low \<le> i" "i \<le> ?m" for i
        using falling [of i ?m] True that m less.prems by (cases "i = ?m") auto
      have "holds i = (i < k)" if "low \<le> i" "i < high" for i
        using k below [of i] that by (cases "i \<le> ?m") auto
      then show ?thesis using lh p True k m by (auto simp add: partition_search.simps [of probe low high])
    next
      case False
      obtain k where k: "partition_search probe low ?m = Inr k" "low \<le> k" "k \<le> ?m"
        "\<forall>i. low \<le> i \<and> i < ?m \<longrightarrow> holds i = (i < k)"
        using less.hyps [OF smaller(2)] m less.prems by auto
      have above: "\<not> holds i" if "?m \<le> i" "i < high" for i
        using falling [of ?m i] False that m less.prems by (cases "i = ?m") auto
      have "holds i = (i < k)" if "low \<le> i" "i < high" for i
        using k above [of i] that by (cases "i < ?m") auto
      then show ?thesis using lh p False k m by (auto simp add: partition_search.simps [of probe low high])
    qed
  next
    case False
    then have "partition_search probe low high = Inr low" by (simp add: partition_search.simps)
    then show ?thesis using False less.prems by auto
  qed
qed

end

end
