(* ===== verification/Offset_Order.thy ===== *)
theory Offset_Order
  imports Encodings "HOL-Library.Multiset"
begin

text \<open>
  The sort of \<^verbatim>\<open>src/pack/index.rs\<close>: pack entries by offset. The code packs an offset and its
  position into one 64-bit key and sorts the keys by a least-significant-digit radix sort over
  the offset bits; keys too wide for that go to the library's sort. Numbers are naturals: the
  guard keeps every key below \<open>2 ^ 64\<close>, so the shifts lose no bits. The library's sort is unstable:
  it may leave positions of equal offsets in any order, of which the model takes the ascending
  one. The caller refuses equal offsets before it uses the positions.
\<close>

section \<open>The model\<close>

text \<open>\<^verbatim>\<open>BITS - leading_zeros\<close>: the number of bits up to the highest one that is set.\<close>

fun bit_len :: "nat \<Rightarrow> nat" where
  "bit_len n = (if n = 0 then 0 else Suc (bit_len (n div 2)))"

declare bit_len.simps [simp del]

definition radix_digit :: "nat \<Rightarrow> nat \<Rightarrow> nat \<Rightarrow> nat" where
  "radix_digit digit_shift digit_mask key = drop_bit digit_shift key AND digit_mask"

definition count_digits :: "(nat \<Rightarrow> nat) \<Rightarrow> nat list \<Rightarrow> nat list \<Rightarrow> nat list" where
  "count_digits digit keys counts = fold (\<lambda>key cs. cs[digit key := cs ! digit key + 1]) keys counts"

text \<open>The exclusive running sums that replace the counts.\<close>

fun running_starts :: "nat \<Rightarrow> nat list \<Rightarrow> nat list" where
  "running_starts start [] = []"
| "running_starts start (c # cs) = start # running_starts (start + c) cs"

definition place_keys :: "(nat \<Rightarrow> nat) \<Rightarrow> nat list \<Rightarrow> nat list \<Rightarrow> nat list \<Rightarrow> nat list \<times> nat list" where
  "place_keys digit keys counts scratch =
     fold (\<lambda>key (cs, ss). (cs[digit key := cs ! digit key + 1], ss[cs ! digit key := key]))
       keys (counts, scratch)"

definition radix_pass :: "nat \<Rightarrow> nat \<Rightarrow> nat \<Rightarrow> nat list \<times> nat list \<Rightarrow> nat list \<times> nat list" where
  "radix_pass digit_bits digit_mask digit_shift = (\<lambda>(keys, scratch).
     let digit = radix_digit digit_shift digit_mask;
         counts = running_starts 0 (count_digits digit keys (replicate (2 ^ digit_bits) 0));
         (counts, scratch) = place_keys digit keys counts scratch
     in (scratch, keys))"

definition offset_order :: "nat list \<Rightarrow> nat list \<times> nat list" where
  "offset_order offsets =
     (let shift = bit_len (length offsets);
          largest = fold max offsets 0;
          offset_bits = bit_len largest
      in if offset_bits + shift > 64 then
           let order = sort_key (\<lambda>position. offsets ! position) [0..<length offsets]
           in (order, map (\<lambda>position. offsets ! position) order)
         else
           let keys = map (\<lambda>(position, key). push_bit shift key OR position) (enumerate 0 offsets);
               passes = max 1 (div_ceil offset_bits 16);
               digit_bits = div_ceil offset_bits passes;
               digit_mask = 2 ^ digit_bits - 1;
               (keys, scratch) = fold (\<lambda>pass. radix_pass digit_bits digit_mask (shift + pass * digit_bits))
                 [0..<passes] (keys, replicate (length keys) 0);
               positions = 2 ^ shift - 1
           in (map (\<lambda>key. key AND positions) keys, map (drop_bit shift) keys))"

section \<open>One pass is a stable distribution\<close>

lemma bit_len_bound: "n < 2 ^ bit_len n"
proof (induction n rule: bit_len.induct)
  case (1 n)
  then show ?case by (cases "n = 0") (auto simp add: bit_len.simps [of n])
qed

text \<open>The keys of one digit, in order; and where they start.\<close>

definition bucket :: "(nat \<Rightarrow> nat) \<Rightarrow> nat list \<Rightarrow> nat \<Rightarrow> nat list" where
  "bucket digit keys d = filter (\<lambda>key. digit key = d) keys"

definition start_of :: "(nat \<Rightarrow> nat) \<Rightarrow> nat list \<Rightarrow> nat \<Rightarrow> nat" where
  "start_of digit keys d = (\<Sum>c<d. length (bucket digit keys c))"

definition distribute :: "(nat \<Rightarrow> nat) \<Rightarrow> nat \<Rightarrow> nat list \<Rightarrow> nat list" where
  "distribute digit m keys = concat (map (bucket digit keys) [0..<m])"

lemma length_count_digits [simp]: "length (count_digits digit keys counts) = length counts"
  unfolding count_digits_def by (induction keys arbitrary: counts) auto

lemma count_digits_nth:
  "\<forall>key \<in> set keys. digit key < length counts \<Longrightarrow> d < length counts \<Longrightarrow>
     count_digits digit keys counts ! d = counts ! d + length (bucket digit keys d)"
  unfolding count_digits_def bucket_def
  by (induction keys arbitrary: counts) (auto simp add: nth_list_update)

lemma length_running_starts [simp]: "length (running_starts s cs) = length cs"
  by (induction s cs rule: running_starts.induct) auto

lemma running_starts_nth: "d < length cs \<Longrightarrow> running_starts s cs ! d = s + (\<Sum>c<d. cs ! c)"
proof (induction s cs arbitrary: d rule: running_starts.induct)
  case (2 s c cs)
  then show ?case by (cases d) (simp_all add: sum.lessThan_Suc_shift del: sum.lessThan_Suc)
qed simp

lemma counts_start:
  assumes "\<forall>key \<in> set keys. digit key < m" "d < m"
  shows "running_starts 0 (count_digits digit keys (replicate m 0)) ! d = start_of digit keys d"
proof -
  have "count_digits digit keys (replicate m 0) ! c = length (bucket digit keys c)" if "c < m" for c
    using count_digits_nth [of keys digit "replicate m 0" c] assms that by simp
  then show ?thesis using assms by (simp add: running_starts_nth start_of_def)
qed

lemma bucket_snoc:
  "bucket digit (keys @ [key]) d = bucket digit keys d @ (if digit key = d then [key] else [])"
  by (simp add: bucket_def)

lemma start_of_mono: "d \<le> e \<Longrightarrow> start_of digit keys d \<le> start_of digit keys e"
  unfolding start_of_def by (rule sum_mono2) auto

lemma start_of_Suc: "start_of digit keys (Suc d) = start_of digit keys d + length (bucket digit keys d)"
  by (simp add: start_of_def)

text \<open>Slots of different digits do not meet.\<close>

lemma slots_apart:
  assumes "i < length (bucket digit keys d)" "j < length (bucket digit keys e)" "d \<noteq> e"
  shows "start_of digit keys d + i \<noteq> start_of digit keys e + j"
proof (cases "d < e")
  case True
  then have "start_of digit keys (Suc d) \<le> start_of digit keys e" by (intro start_of_mono) simp
  then show ?thesis using assms by (simp add: start_of_Suc)
next
  case False
  then have "start_of digit keys (Suc e) \<le> start_of digit keys d" using assms(3) by (intro start_of_mono) simp
  then show ?thesis using assms by (simp add: start_of_Suc)
qed

lemma length_distribute: "length (distribute digit m keys) = start_of digit keys m"
  by (simp add: distribute_def start_of_def length_concat comp_def interv_sum_list_conv_sum_set_nat
      atLeast0LessThan)

lemma distribute_nth:
  "d < m \<Longrightarrow> j < length (bucket digit keys d) \<Longrightarrow>
     distribute digit m keys ! (start_of digit keys d + j) = bucket digit keys d ! j"
proof (induction m)
  case (Suc m)
  have snoc: "distribute digit (Suc m) keys = distribute digit m keys @ bucket digit keys m"
    by (simp add: distribute_def)
  show ?case
  proof (cases "d = m")
    case True
    then show ?thesis using Suc.prems by (simp add: snoc nth_append length_distribute)
  next
    case False
    then have "d < m" using Suc.prems by simp
    then have "start_of digit keys (Suc d) \<le> start_of digit keys m" by (intro start_of_mono) simp
    then show ?thesis
      using Suc \<open>d < m\<close> by (simp add: snoc nth_append length_distribute start_of_Suc)
  qed
qed simp

lemma mset_distribute:
  assumes "\<forall>key \<in> set keys. digit key < m"
  shows "mset (distribute digit m keys) = mset keys"
proof -
  have "mset (distribute digit m ks) = mset (filter (\<lambda>k. digit k < m) ks)" for ks
  proof (induction m)
    case (Suc m)
    have "filter (\<lambda>k. digit k < Suc m) ks = filter (\<lambda>k. digit k < m \<or> digit k = m) ks"
      by (rule filter_cong) auto
    moreover have "mset (filter (\<lambda>k. digit k < m \<or> digit k = m) ks) =
        mset (filter (\<lambda>k. digit k < m) ks) + mset (filter (\<lambda>k. digit k = m) ks)"
      by (induction ks) auto
    ultimately show ?case using Suc by (simp add: distribute_def bucket_def)
  qed (simp add: distribute_def)
  moreover have "filter (\<lambda>k. digit k < m) keys = keys" using assms by (simp add: filter_id_conv)
  ultimately show ?thesis by metis
qed


text \<open>After placing the keys \<open>done\<close> of all \<open>keys\<close>, every slot so far holds its key.\<close>

lemma place_keys_nth:
  assumes "\<forall>key \<in> set keys. digit key < m" and starts: "\<And>d. d < m \<Longrightarrow> starts ! d = start_of digit keys d"
    and "length starts = m" "length scratch = length keys" "placed @ rest = keys"
    and "start_of digit keys m = length keys"
  shows "length (fst (place_keys digit placed starts scratch)) = m
    \<and> length (snd (place_keys digit placed starts scratch)) = length keys
    \<and> (\<forall>d < m. fst (place_keys digit placed starts scratch) ! d =
          start_of digit keys d + length (bucket digit placed d))
    \<and> (\<forall>d < m. \<forall>j < length (bucket digit placed d).
          snd (place_keys digit placed starts scratch) ! (start_of digit keys d + j) = bucket digit placed d ! j)"
  using assms(5)
proof (induction placed arbitrary: rest rule: rev_induct)
  case Nil
  then show ?case using assms by (simp add: place_keys_def bucket_def)
next
  case (snoc key placed)
  obtain cs ss where state: "place_keys digit placed starts scratch = (cs, ss)" by fastforce
  have IH: "length cs = m" "length ss = length keys"
    "\<forall>d < m. cs ! d = start_of digit keys d + length (bucket digit placed d)"
    "\<forall>d < m. \<forall>j < length (bucket digit placed d). ss ! (start_of digit keys d + j) = bucket digit placed d ! j"
    using snoc.IH [of "key # rest"] snoc.prems state by simp_all
  let ?d = "digit key"
  have d: "?d < m" using snoc.prems assms(1) by auto
  have step: "place_keys digit (placed @ [key]) starts scratch =
      (cs[?d := cs ! ?d + 1], ss[cs ! ?d := key])"
    using state by (simp add: place_keys_def)
  have within: "length (bucket digit placed c) + (if c = ?d then 1 else 0) \<le> length (bucket digit keys c)" for c
    using snoc.prems [symmetric] by (simp add: bucket_def)
  have slot: "cs ! ?d < length keys"
  proof -
    have "start_of digit keys (Suc ?d) \<le> start_of digit keys m" using d by (intro start_of_mono) simp
    then show ?thesis using IH(3) d within [of ?d] assms(6) by (simp add: start_of_Suc)
  qed
  have slots: "ss[cs ! ?d := key] ! (start_of digit keys c + j) = bucket digit (placed @ [key]) c ! j"
    if c: "c < m" and j: "j < length (bucket digit (placed @ [key]) c)" for c j
  proof (cases "c = ?d \<and> j = length (bucket digit placed c)")
    case True
    then show ?thesis using IH(2,3) d slot by (simp add: bucket_snoc)
  next
    case False
    then have old: "j < length (bucket digit placed c)" using j by (auto simp add: bucket_snoc split: if_splits)
    have "start_of digit keys c + j \<noteq> cs ! ?d"
    proof (cases "c = ?d")
      case True
      then show ?thesis using IH(3) d old by simp
    next
      case ne: False
      have "start_of digit keys c + j \<noteq> start_of digit keys ?d + length (bucket digit placed ?d)"
        using old within [of c] within [of ?d] ne by (intro slots_apart) auto
      then show ?thesis using IH(3) d by simp
    qed
    then show ?thesis using IH(4) c old by (simp add: bucket_snoc nth_append)
  qed
  show ?case unfolding step using IH d slots by (simp add: bucket_snoc nth_list_update)
qed

lemma start_of_total:
  assumes "\<forall>key \<in> set keys. digit key < m"
  shows "start_of digit keys m = length keys"
  using mset_distribute [OF assms] length_distribute [of digit m keys] by (metis size_mset)

lemma slot_exists:
  assumes "i < start_of digit keys m"
  shows "\<exists>d < m. \<exists>j < length (bucket digit keys d). i = start_of digit keys d + j"
  using assms
proof (induction m)
  case (Suc m)
  show ?case
  proof (cases "i < start_of digit keys m")
    case True
    then show ?thesis using Suc.IH less_SucI by blast
  next
    case False
    then have "i - start_of digit keys m < length (bucket digit keys m)"
      "i = start_of digit keys m + (i - start_of digit keys m)"
      using Suc.prems by (auto simp add: start_of_Suc)
    then show ?thesis by blast
  qed
qed (simp add: start_of_def)

lemma place_keys_distribute:
  assumes "\<forall>key \<in> set keys. digit key < m" "length scratch = length keys"
  shows "snd (place_keys digit keys (running_starts 0 (count_digits digit keys (replicate m 0))) scratch) =
    distribute digit m keys"
proof -
  let ?starts = "running_starts 0 (count_digits digit keys (replicate m 0))"
  have placed: "length (snd (place_keys digit keys ?starts scratch)) = length keys
    \<and> (\<forall>d < m. \<forall>j < length (bucket digit keys d).
          snd (place_keys digit keys ?starts scratch) ! (start_of digit keys d + j) = bucket digit keys d ! j)"
    using place_keys_nth [OF assms(1), of ?starts scratch keys "[]"] counts_start [OF assms(1)]
      assms(2) start_of_total [OF assms(1)] by simp
  show ?thesis
  proof (rule nth_equalityI)
    show "length (snd (place_keys digit keys ?starts scratch)) = length (distribute digit m keys)"
      using placed start_of_total [OF assms(1)] by (simp add: length_distribute)
    fix i
    assume "i < length (snd (place_keys digit keys ?starts scratch))"
    then have "i < start_of digit keys m" using placed start_of_total [OF assms(1)] by simp
    then obtain d j where "d < m" "j < length (bucket digit keys d)" "i = start_of digit keys d + j"
      using slot_exists by blast
    then show "snd (place_keys digit keys ?starts scratch) ! i = distribute digit m keys ! i"
      using placed by (simp add: distribute_nth)
  qed
qed


section \<open>The passes sort the keys\<close>

lemma radix_digit_eq: "radix_digit s (2 ^ b - 1) key = key div 2 ^ s mod 2 ^ b"
  unfolding radix_digit_def and_mask_nat drop_bit_eq_div ..

lemma radix_pass_distribute:
  assumes "length scratch = length keys"
  shows "radix_pass b (2 ^ b - 1) s (keys, scratch) =
    (distribute (\<lambda>key. key div 2 ^ s mod 2 ^ b) (2 ^ b) keys, keys)"
proof -
  let ?digit = "\<lambda>key::nat. key div 2 ^ s mod 2 ^ b"
  have "snd (place_keys ?digit keys
      (running_starts 0 (count_digits ?digit keys (replicate (2 ^ b) 0))) scratch) =
      distribute ?digit (2 ^ b) keys"
    using assms by (intro place_keys_distribute) auto
  moreover have "radix_digit s (2 ^ b - 1) = ?digit" by (rule ext) (rule radix_digit_eq)
  ultimately show ?thesis unfolding radix_pass_def by (simp add: Let_def case_prod_beta)
qed

lemma mod_split: "(k::nat) mod 2 ^ (s + b) = 2 ^ s * (k div 2 ^ s mod 2 ^ b) + k mod 2 ^ s"
  by (simp add: power_add mod_mult2_eq)

lemma set_distribute: "key \<in> set (distribute digit m keys) \<longleftrightarrow> key \<in> set keys \<and> digit key < m"
  by (auto simp add: distribute_def bucket_def)

lemma distribute_sorted:
  assumes "sorted (map (\<lambda>k. k mod 2 ^ s) keys)"
  shows "sorted (map (\<lambda>k. k mod 2 ^ (s + b)) (distribute (\<lambda>k. k div 2 ^ s mod 2 ^ b) m keys))"
proof (induction m)
  case (Suc m)
  let ?digit = "\<lambda>k::nat. k div 2 ^ s mod 2 ^ b"
  have "sorted (map (\<lambda>k. k mod 2 ^ s) (bucket ?digit keys m))"
    using assms unfolding bucket_def by (rule sorted_filter)
  then have "sorted (map (\<lambda>k. 2 ^ s * m + k) (map (\<lambda>k. k mod 2 ^ s) (bucket ?digit keys m)))"
    by (simp add: sorted_map)
  moreover have "map (\<lambda>k. k mod 2 ^ (s + b)) (bucket ?digit keys m) =
      map (\<lambda>k. 2 ^ s * m + k) (map (\<lambda>k. k mod 2 ^ s) (bucket ?digit keys m))"
    by (auto simp add: bucket_def mod_split)
  ultimately have "sorted (map (\<lambda>k. k mod 2 ^ (s + b)) (bucket ?digit keys m))" by (simp only:)
  moreover have "x mod 2 ^ (s + b) \<le> y mod 2 ^ (s + b)"
    if "x \<in> set (distribute ?digit m keys)" "y \<in> set (bucket ?digit keys m)" for x y
  proof -
    have "?digit x < m" "?digit y = m" using that by (auto simp add: set_distribute bucket_def)
    then have "2 ^ s * ?digit x + 2 ^ s \<le> 2 ^ s * ?digit y"
      using mult_le_mono2 [of "Suc (?digit x)" m "2 ^ s"] by simp
    moreover have "x mod 2 ^ s < 2 ^ s" by simp
    ultimately show ?thesis unfolding mod_split [of x] mod_split [of y] by linarith
  qed
  ultimately show ?case using Suc by (auto simp add: distribute_def sorted_append)
qed (simp add: distribute_def)

lemma radix_passes_sorted:
  assumes "length scratch = length keys" "sorted (map (\<lambda>k. k mod 2 ^ s) keys)"
    and "final = fold (\<lambda>pass. radix_pass b (2 ^ b - 1) (s + pass * b)) [0..<passes] (keys, scratch)"
  shows "mset (fst final) = mset keys" and "sorted (map (\<lambda>k. k mod 2 ^ (s + passes * b)) (fst final))"
proof -
  define state where "state = (\<lambda>n. fold (\<lambda>pass. radix_pass b (2 ^ b - 1) (s + pass * b)) [0..<n] (keys, scratch))"
  have "mset (fst (state n)) = mset keys \<and> length (snd (state n)) = length keys
      \<and> sorted (map (\<lambda>k. k mod 2 ^ (s + n * b)) (fst (state n)))" for n
  proof (induction n)
    case 0
    then show ?case using assms(1,2) by (simp add: state_def)
  next
    case (Suc n)
    obtain ks ss where st: "state n = (ks, ss)" by fastforce
    have len: "length ss = length ks" using Suc st by (metis fst_conv mset_eq_length snd_conv)
    have next_state: "state (Suc n) =
        (distribute (\<lambda>k. k div 2 ^ (s + n * b) mod 2 ^ b) (2 ^ b) ks, ks)"
      using st radix_pass_distribute [OF len, of b "s + n * b"] by (simp add: state_def)
    have "mset (distribute (\<lambda>k. k div 2 ^ (s + n * b) mod 2 ^ b) (2 ^ b) ks) = mset ks"
      by (rule mset_distribute) auto
    moreover have "sorted (map (\<lambda>k. k mod 2 ^ (s + n * b + b))
        (distribute (\<lambda>k. k div 2 ^ (s + n * b) mod 2 ^ b) (2 ^ b) ks))"
      using Suc st by (intro distribute_sorted) simp
    moreover have "s + n * b + b = s + Suc n * b" by simp
    moreover have m: "mset ks = mset keys" using Suc st by simp
    moreover have "length ks = length keys" by (rule mset_eq_length [OF m])
    ultimately show ?case unfolding next_state fst_conv snd_conv by (simp only: simp_thms)
  qed
  then show "mset (fst final) = mset keys" and "sorted (map (\<lambda>k. k mod 2 ^ (s + passes * b)) (fst final))"
    by (simp_all add: assms(3) state_def)
qed

section \<open>The order of the offsets\<close>

lemma fold_max_ge: "(x::nat) \<in> set xs \<Longrightarrow> x \<le> fold max xs a" and fold_max_start: "a \<le> fold max xs (a::nat)"
proof -
  show ge: "a \<le> fold max xs (a::nat)" for a xs
  proof (induction xs arbitrary: a)
    case (Cons x xs)
    have "max x a \<le> fold max xs (max x a)" by (rule Cons.IH)
    then show ?case by simp
  qed simp
  show "(x::nat) \<in> set xs \<Longrightarrow> x \<le> fold max xs a"
  proof (induction xs arbitrary: a)
    case (Cons y ys)
    show ?case
    proof (cases "x = y")
      case True
      then show ?thesis using ge [of "max y a" ys] by simp
    next
      case False
      then show ?thesis using Cons by simp
    qed
  qed simp
qed

lemma div_ceil_covers: "0 < p \<Longrightarrow> n \<le> p * div_ceil n p"
proof -
  assume p: "0 < p"
  have "p * ((n + p - 1) div p) + (n + p - 1) mod p = n + p - 1" by simp
  moreover have "(n + p - 1) mod p < p" using p by simp
  ultimately show ?thesis unfolding div_ceil_def by linarith
qed

lemma sort_map_key: "sort (map f xs) = map f (sort_key f xs)"
  by (rule properties_for_sort) (simp_all add: multiset.map_comp)


lemma sort_key_same:
  assumes "\<And>p q. p \<in> set xs \<Longrightarrow> q \<in> set xs \<Longrightarrow> g p < g q \<Longrightarrow> f p \<le> f q"
    and "\<And>p q. p \<in> set xs \<Longrightarrow> q \<in> set xs \<Longrightarrow> f p = f q \<Longrightarrow> g p \<le> g q \<Longrightarrow> p \<le> (q :: nat)"
    and "sorted xs" "distinct xs" "inj_on (g :: nat \<Rightarrow> nat) (set xs)"
  shows "sort_key (f :: nat \<Rightarrow> nat) xs = sort_key g xs"
proof (rule properties_for_sort_key)
  let ?ys = "sort_key g xs"
  have order: "sorted_wrt (\<lambda>p q. g p \<le> g q) ?ys" using sorted_sort_key [of g xs] by (simp add: sorted_map)
  show "mset ?ys = mset xs" by simp
  have "sorted_wrt (\<lambda>p q. f p \<le> f q) ?ys"
  proof (rule sorted_wrt_mono_rel [OF _ order])
    fix p q
    assume "p \<in> set ?ys" "q \<in> set ?ys" "g p \<le> g q"
    then show "f p \<le> f q" using assms(1) assms(5) by (metis inj_onD le_neq_implies_less order_refl set_sort)
  qed
  then show "sorted (map f ?ys)" by (simp add: sorted_map)
  fix k
  have "sorted_wrt (\<lambda>p q. g p \<le> g q) (filter (\<lambda>x. f k = f x) ?ys)"
    using order by (rule sorted_wrt_filter)
  then have "sorted_wrt (\<le>) (filter (\<lambda>x. f k = f x) ?ys)"
    by (rule sorted_wrt_mono_rel [rotated]) (use assms(2) in auto)
  then show "filter (\<lambda>x. f k = f x) ?ys = filter (\<lambda>x. f k = f x) xs"
    using assms(3, 4) by (intro sorted_distinct_set_unique) (auto simp add: sorted_wrt_filter)
qed

text \<open>What the keys hold: the offset above the position.\<close>

definition offset_key :: "nat list \<Rightarrow> nat \<Rightarrow> nat" where
  "offset_key offsets pos = 2 ^ bit_len (length offsets) * offsets ! pos + pos"

lemma offset_key_parts:
  assumes "pos < length offsets"
  shows "offset_key offsets pos mod 2 ^ bit_len (length offsets) = pos"
    and "offset_key offsets pos div 2 ^ bit_len (length offsets) = offsets ! pos"
  using assms bit_len_bound [of "length offsets"] by (simp_all add: offset_key_def)

lemma offset_keys:
  "map (\<lambda>(position, key). push_bit (bit_len (length offsets)) key OR position) (enumerate 0 offsets) =
     map (offset_key offsets) [0..<length offsets]"
  using bit_len_bound [of "length offsets"]
  by (auto intro!: nth_equalityI simp add: nth_enumerate_eq offset_key_def push_bit_or_nat)

lemma sort_key_offset: "sort_key (offset_key offsets) [0..<length offsets] =
    sort_key (\<lambda>p. offsets ! p) [0..<length offsets]"
proof (rule sort_key_same [symmetric])
  fix p q
  assume pq: "p \<in> set [0..<length offsets]" "q \<in> set [0..<length offsets]"
  then have small: "p < 2 ^ bit_len (length offsets)" "q < 2 ^ bit_len (length offsets)"
    using bit_len_bound [of "length offsets"] by auto
  show "offsets ! p \<le> offsets ! q" if "offset_key offsets p < offset_key offsets q"
    using div_le_mono [of "offset_key offsets p" "offset_key offsets q" "2 ^ bit_len (length offsets)"]
      that pq offset_key_parts(2) by simp
  show "p \<le> q" if "offsets ! p = offsets ! q" "offset_key offsets p \<le> offset_key offsets q"
    using that by (simp add: offset_key_def)
next
  show "inj_on (offset_key offsets) (set [0..<length offsets])"
    by (rule inj_onI) (metis atLeastLessThan_iff offset_key_parts(1) set_upt)
qed simp_all

lemma offset_order_eq:
  "offset_order offsets = (sort_key (\<lambda>p. offsets ! p) [0..<length offsets], sort offsets)"
proof -
  let ?n = "length offsets" and ?s = "bit_len (length offsets)" and ?bits = "bit_len (fold max offsets 0)"
  let ?order = "sort_key (\<lambda>p. offsets ! p) [0..<?n]"
  have offs: "map (\<lambda>p. offsets ! p) ?order = sort offsets"
    using sort_map_key [of "(!) offsets" "[0..<?n]"] by (simp add: map_nth)
  show ?thesis
  proof (cases "?bits + ?s > 64")
    case True
    then show ?thesis using offs by (simp add: offset_order_def Let_def)
  next
    case False
    let ?keys = "map (offset_key offsets) [0..<?n]"
    let ?passes = "max 1 (div_ceil ?bits 16)"
    let ?b = "div_ceil ?bits ?passes"
    define final where "final = fold (\<lambda>pass. radix_pass ?b (2 ^ ?b - 1) (?s + pass * ?b)) [0..<?passes]
      (?keys, replicate ?n 0)"
    have low: "map (\<lambda>k. k mod 2 ^ ?s) ?keys = [0..<?n]"
      by (rule nth_equalityI) (simp_all add: offset_key_parts)
    have run: "mset (fst final) = mset ?keys" "sorted (map (\<lambda>k. k mod 2 ^ (?s + ?passes * ?b)) (fst final))"
      using radix_passes_sorted [of "replicate ?n 0" ?keys ?s final ?b ?passes] low
      by (simp_all add: final_def)
    have small: "k mod 2 ^ (?s + ?passes * ?b) = k" if k: "k \<in> set (fst final)" for k
    proof (rule mod_less)
      obtain p where p: "p < ?n" "k = offset_key offsets p"
        using k mset_eq_setD [OF run(1)] by auto
      have "offsets ! p < 2 ^ ?bits"
        using fold_max_ge [of "offsets ! p" offsets 0] bit_len_bound [of "fold max offsets 0"] p by simp
      then have "2 ^ ?s * offsets ! p + 2 ^ ?s \<le> 2 ^ ?s * 2 ^ ?bits"
        using mult_le_mono2 [of "Suc (offsets ! p)" "2 ^ ?bits" "2 ^ ?s"] by simp
      then have "k < 2 ^ (?s + ?bits)"
        using p bit_len_bound [of ?n] by (simp add: offset_key_def power_add)
      also have "\<dots> \<le> 2 ^ (?s + ?passes * ?b)"
        using div_ceil_covers [of ?passes ?bits] by (intro power_increasing) auto
      finally show "k < 2 ^ (?s + ?passes * ?b)" .
    qed
    have "map (\<lambda>k. k mod 2 ^ (?s + ?passes * ?b)) (fst final) = fst final"
      by (rule map_idI) (rule small)
    then have "sorted (fst final)" using run(2) by (simp only:)
    then have "fst final = sort ?keys" by (intro properties_for_sort [symmetric] run(1))
    also have "\<dots> = map (offset_key offsets) ?order" by (simp add: sort_map_key sort_key_offset)
    finally have final: "fst final = map (offset_key offsets) ?order" .
    have "map (\<lambda>key. key AND (2 ^ ?s - 1)) (fst final) = ?order"
      unfolding final and_mask_nat map_map by (rule map_idI) (simp add: offset_key_parts)
    moreover have "map (drop_bit ?s) (fst final) = sort offsets"
      unfolding final offs [symmetric] map_map drop_bit_eq_div
      by (rule map_cong) (simp_all add: offset_key_parts)
    ultimately show ?thesis using False
      by (simp add: offset_order_def Let_def offset_keys case_prod_beta final_def)
  qed
qed



end
