(* ===== verification/Pack_Index.thy ===== *)
theory Pack_Index
  imports Object_Id Object_Read Binary_Search Offset_Order Ordered_Map
begin

text \<open>
  \<^verbatim>\<open>src/pack/index.rs\<close>: the index of a pack file. The reader keeps the bytes of the file and
  looks entries up in place: a fanout by first byte, a sorted table of names, checksums, and
  offsets with an overflow table. A slice out of range panics in Rust; here it is the error
  \<open>IndexPanic\<close>, so that the absence of panics can be stated. The cell that caches the offset order
  is a field of the index, returned updated.
\<close>

section \<open>The model\<close>

record pack_entry =
  pe_id :: object_id
  pe_offset :: nat
  pe_end :: nat
  pe_crc :: "nat option"

record pack_span =
  span_offset :: nat
  span_end :: nat
  span_exact :: bool
  span_crc :: "nat option"
  span_position :: "nat option"

record pack_order =
  po_order :: "nat list"
  po_rank :: "nat list"

record pack_index =
  px_format :: object_format
  px_legacy :: bool
  px_count :: nat
  px_large :: nat
  px_stray :: bool
  px_pack_end :: nat
  px_pack_hash :: object_id
  px_order :: "(string + pack_order) option"

text \<open>\<^verbatim>\<open>get(position..)\<close> followed by \<^verbatim>\<open>first_chunk::<n>\<close>.\<close>

definition first_chunk :: "nat \<Rightarrow> bytes \<Rightarrow> nat \<Rightarrow> bytes option" where
  "first_chunk n bytes at =
     (case get_from bytes at of
        None \<Rightarrow> None
      | Some rest \<Rightarrow> if n \<le> length rest then Some (take n rest) else None)"

definition index_word :: "bytes \<Rightarrow> nat \<Rightarrow> object_read_error + nat" where
  "index_word bytes at =
     and_then (ok_or (Corrupt ''truncated integer'') (first_chunk 4 bytes at)) (\<lambda>w. Inr (be_nat w))"

definition slice :: "bytes \<Rightarrow> nat \<Rightarrow> nat \<Rightarrow> object_read_error + bytes" where
  "slice bytes a b = ok_or IndexPanic (get_range bytes a b)"

fun check_fanout :: "bytes \<Rightarrow> nat \<Rightarrow> nat list \<Rightarrow> nat \<Rightarrow> object_read_error + unit" where
  "check_fanout bytes fanout [] previous = Inr ()"
| "check_fanout bytes fanout (n # buckets) previous =
     and_then (index_word bytes (fanout + n * 4)) (\<lambda>cumulative.
     if cumulative < previous then Inl (Corrupt ''index fanout'')
     else check_fanout bytes fanout buckets cumulative)"

definition index_parse :: "object_format \<Rightarrow> bytes \<Rightarrow> nat \<Rightarrow> object_read_error + pack_index" where
  "index_parse format bytes pack_end =
     (if length bytes < 8 then Inl (Corrupt ''truncated index header'')
      else
        let width = digest_len format;
            legacy = (\<not> starts_with bytes [255, 116, 79, 99])
        in and_then (if legacy then Inr 0
             else and_then (index_word bytes 4) (\<lambda>version.
               if version \<noteq> 2 then Inl (IndexVersion version) else Inr 8)) (\<lambda>fanout.
           and_then (index_word bytes (fanout + 1020)) (\<lambda>count.
           and_then (ok_or (Corrupt ''truncated index'') (checked_sub (length bytes) (2 * width))) (\<lambda>trailer.
           let record_size = (if legacy then width + 4 else width + 8)
           in and_then (ok_or (Corrupt ''index length overflow'')
                (Option.bind (checked_mul count record_size) (\<lambda>n. checked_add n (fanout + 1024)))) (\<lambda>table_end.
              and_then (ok_or (Corrupt ''index table length'') (checked_sub trailer table_end)) (\<lambda>large_bytes.
              if saturating_mul (count - 1) 8 < large_bytes \<or> (legacy \<and> large_bytes \<noteq> 0)
              then Inl (Corrupt ''index table length'')
              else
                and_then (check_fanout bytes fanout [0..<256] 0) (\<lambda>_.
                and_then (ok_or (Corrupt ''truncated index'')
                  (Option.bind (get_range bytes trailer (trailer + width)) (\<lambda>hash.
                   ok (from_bytes format hash)))) (\<lambda>pack_hash.
                Inr \<lparr>px_format = format, px_legacy = legacy, px_count = count,
                     px_large = large_bytes div 8, px_stray = (large_bytes mod 8 \<noteq> 0),
                     px_pack_end = pack_end, px_pack_hash = pack_hash, px_order = None\<rparr>))))))))"

definition fanout_start :: "pack_index \<Rightarrow> nat" where
  "fanout_start self = (if px_legacy self then 0 else 8)"

definition name_start :: "pack_index \<Rightarrow> nat \<Rightarrow> nat" where
  "name_start self pos =
     (let width = digest_len (px_format self)
      in if px_legacy self then 1028 + pos * (width + 4) else 1032 + pos * width)"

definition name_at :: "pack_index \<Rightarrow> bytes \<Rightarrow> nat \<Rightarrow> object_read_error + bytes" where
  "name_at self bytes pos =
     (let start = name_start self pos
      in slice bytes start (start + digest_len (px_format self)))"

definition identity :: "pack_index \<Rightarrow> bytes \<Rightarrow> nat \<Rightarrow> object_read_error + object_id" where
  "identity self bytes pos =
     and_then (name_at self bytes pos) (\<lambda>name.
     map_err (\<lambda>_. IndexPanic) (from_bytes (px_format self) name))"

text \<open>The bounds of a fanout bucket.\<close>

definition bucket_bounds :: "pack_index \<Rightarrow> bytes \<Rightarrow> nat \<Rightarrow> object_read_error + nat \<times> nat" where
  "bucket_bounds self bytes first =
     and_then (if first = 0 then Inr 0
       else index_word bytes (fanout_start self + (first - 1) * 4)) (\<lambda>low.
     and_then (index_word bytes (fanout_start self + first * 4)) (\<lambda>high.
     Inr (low, high)))"

definition index_find :: "pack_index \<Rightarrow> bytes \<Rightarrow> object_id \<Rightarrow> object_read_error + nat option" where
  "index_find self bytes oid =
     (let target = as_bytes oid
      in case target of
           [] \<Rightarrow> Inl IndexPanic
         | b # _ \<Rightarrow>
             and_then (bucket_bounds self bytes (unat b)) (\<lambda>(low, high).
             binary_search (\<lambda>middle.
               and_then (name_at self bytes middle) (\<lambda>name. Inr (compare name target))) low high))"

text \<open>The derived order of identities: by format, then by digest.\<close>

fun oid_less :: "object_id \<Rightarrow> object_id \<Rightarrow> bool" where
  "oid_less (IdSha1 a) (IdSha1 b) = (a < b)"
| "oid_less (IdSha256 a) (IdSha256 b) = (a < b)"
| "oid_less (IdSha1 _) (IdSha256 _) = True"
| "oid_less (IdSha256 _) (IdSha1 _) = False"

definition prefix_range ::
  "pack_index \<Rightarrow> bytes \<Rightarrow> object_id_prefix \<Rightarrow> object_read_error + nat \<times> nat" where
  "prefix_range self bytes prefix =
     (case as_bytes (lower prefix) of
        [] \<Rightarrow> Inl (Corrupt ''empty prefix'')
      | b # _ \<Rightarrow>
          and_then (bucket_bounds self bytes (unat b)) (\<lambda>(low, high).
          and_then (partition_search (\<lambda>middle.
            and_then (identity self bytes middle) (\<lambda>oid. Inr (oid_less oid (lower prefix)))) low high) (\<lambda>start.
          and_then (partition_search (\<lambda>middle.
            and_then (identity self bytes middle) (\<lambda>oid. Inr (prefix_matches prefix oid))) start high) (\<lambda>stop.
          Inr (start, stop)))))"

definition checked_offset :: "nat \<Rightarrow> nat \<Rightarrow> object_read_error + nat" where
  "checked_offset offset pack_end =
     (if usize_max < offset then Inl (Corrupt ''offset overflow'')
      else if offset < 12 \<or> pack_end \<le> offset then Inl (Corrupt ''offset outside pack entries'')
      else Inr offset)"

definition offset_table :: "pack_index \<Rightarrow> nat" where
  "offset_table self = 1032 + px_count self * (digest_len (px_format self) + 4)"

definition index_offset :: "pack_index \<Rightarrow> bytes \<Rightarrow> nat \<Rightarrow> object_read_error + nat" where
  "index_offset self bytes pos =
     (let width = digest_len (px_format self)
      in if px_legacy self then
           and_then (index_word bytes (1024 + pos * (width + 4))) (\<lambda>offset.
           checked_offset offset (px_pack_end self))
         else
           let table = offset_table self
           in and_then (index_word bytes (table + pos * 4)) (\<lambda>raw.
              if raw AND 2147483648 = 0 then checked_offset raw (px_pack_end self)
              else
                let slot = raw AND 2147483647
                in if px_large self \<le> slot then Inl (Corrupt ''large offset index'')
                   else
                     let start = table + px_count self * 4 + slot * 8
                     in and_then (ok_or (Corrupt ''large offset index'') (first_chunk 8 bytes start)) (\<lambda>large.
                        checked_offset (be_nat large) (px_pack_end self))))"

definition index_crc :: "pack_index \<Rightarrow> bytes \<Rightarrow> nat \<Rightarrow> object_read_error + nat option" where
  "index_crc self bytes pos =
     (if px_legacy self then Inr None
      else
        let start = 1032 + px_count self * digest_len (px_format self) + pos * 4
        in and_then (index_word bytes start) (\<lambda>w. Inr (Some w)))"

subsection \<open>The order by offset\<close>

fun order_reason :: "object_read_error \<Rightarrow> string" where
  "order_reason (Corrupt reason) = reason"
| "order_reason _ = ''index table length''"

text \<open>The overflow slot of a position, when it has one.\<close>

definition large_slot :: "pack_index \<Rightarrow> bytes \<Rightarrow> nat \<Rightarrow> string + nat option" where
  "large_slot self bytes pos =
     (if px_legacy self then Inr None
      else
        and_then (map_err order_reason (index_word bytes (offset_table self + pos * 4))) (\<lambda>raw.
        Inr (if raw AND 2147483648 \<noteq> 0 then Some (raw AND 2147483647) else None)))"

fun order_offsets ::
  "pack_index \<Rightarrow> bytes \<Rightarrow> nat list \<Rightarrow> bool list \<Rightarrow> nat list \<Rightarrow> string + bool list \<times> nat list" where
  "order_offsets self bytes [] used offsets = Inr (used, offsets)"
| "order_offsets self bytes (pos # rest) used offsets =
     and_then (large_slot self bytes pos) (\<lambda>slot.
     and_then (case slot of
         None \<Rightarrow> Inr used
       | Some s \<Rightarrow>
           (case get_at used s of
              None \<Rightarrow> Inl ''large offset index''
            | Some u \<Rightarrow> if u then Inl ''duplicate large offset index'' else Inr (used[s := True]))) (\<lambda>used.
     and_then (map_err order_reason (index_offset self bytes pos)) (\<lambda>offset.
     order_offsets self bytes rest used (offsets @ [offset]))))"

text \<open>The inverse permutation.\<close>

definition order_rank :: "nat list \<Rightarrow> nat list" where
  "order_rank order =
     fold (\<lambda>(index, pos) rank. rank[pos := index]) (enumerate 0 order) (replicate (length order) 0)"

definition build_order :: "pack_index \<Rightarrow> bytes \<Rightarrow> string + pack_order" where
  "build_order self bytes =
     and_then (order_offsets self bytes [0..<px_count self] (replicate (px_large self) False) []) (\<lambda>(used, offsets).
     if False \<in> set used then Inl ''unused large offset''
     else
       let (order, ascending) = offset_order offsets
       in if list_ex (\<lambda>(a, b). a = b) (windows2 ascending) then Inl ''duplicate pack offset''
          else if (case ascending of [] \<Rightarrow> px_pack_end self | first # _ \<Rightarrow> first) \<noteq> 12
          then Inl ''unindexed pack bytes''
          else Inr \<lparr>po_order = order, po_rank = order_rank order\<rparr>)"

definition index_order :: "pack_index \<Rightarrow> bytes \<Rightarrow> pack_index \<times> (object_read_error + pack_order)" where
  "index_order self bytes =
     (case px_order self of
        Some r \<Rightarrow> (self, map_err Corrupt r)
      | None \<Rightarrow>
          let r = build_order self bytes
          in (self\<lparr>px_order := Some r\<rparr>, map_err Corrupt r))"

definition entry_end :: "pack_index \<Rightarrow> bytes \<Rightarrow> pack_order \<Rightarrow> nat \<Rightarrow> object_read_error + nat" where
  "entry_end self bytes order pos =
     and_then (ok_or (Corrupt ''index position'') (get_at (po_rank order) pos)) (\<lambda>rank.
     case get_at (po_order order) (rank + 1) of
       Some following \<Rightarrow> index_offset self bytes following
     | None \<Rightarrow> Inr (px_pack_end self))"

definition index_span :: "pack_index \<Rightarrow> bytes \<Rightarrow> nat \<Rightarrow> object_read_error + pack_span" where
  "index_span self bytes pos =
     and_then (index_offset self bytes pos) (\<lambda>offset.
     and_then (case px_order self of
         Some (Inr order) \<Rightarrow> and_then (entry_end self bytes order pos) (\<lambda>e. Inr (Some e))
       | _ \<Rightarrow> Inr None) (\<lambda>stop.
     and_then (index_crc self bytes pos) (\<lambda>crc.
     Inr \<lparr>span_offset = offset,
          span_end = (case stop of Some e \<Rightarrow> e | None \<Rightarrow> px_pack_end self),
          span_exact = (stop \<noteq> None), span_crc = crc, span_position = Some pos\<rparr>)))"

definition index_entry ::
  "pack_index \<Rightarrow> bytes \<Rightarrow> nat \<Rightarrow> pack_index \<times> (object_read_error + pack_entry)" where
  "index_entry self bytes pos =
     (let (self, order) = index_order self bytes
      in (self,
          and_then order (\<lambda>order.
          and_then (identity self bytes pos) (\<lambda>oid.
          and_then (index_offset self bytes pos) (\<lambda>offset.
          and_then (entry_end self bytes order pos) (\<lambda>e.
          and_then (index_crc self bytes pos) (\<lambda>crc.
          Inr \<lparr>pe_id = oid, pe_offset = offset, pe_end = e, pe_crc = crc\<rparr>)))))))"

text \<open>
  The library's \<^verbatim>\<open>binary_search_by\<close> finds some equal entry of a sorted slice if there is one;
  the offsets of an order are distinct, so which one it finds is not left open.
\<close>

definition at_offset ::
  "pack_index \<Rightarrow> bytes \<Rightarrow> nat \<Rightarrow> pack_index \<times> (object_read_error + nat)" where
  "at_offset self bytes offset =
     (let (self, order) = index_order self bytes
      in (self,
          and_then order (\<lambda>order.
          and_then (binary_search (\<lambda>rank.
            and_then (ok_or IndexPanic (get_at (po_order order) rank)) (\<lambda>pos.
            and_then (index_offset self bytes pos) (\<lambda>found.
            Inr (compare found offset)))) 0 (length (po_order order))) (\<lambda>rank.
          ok_or (Corrupt ''base offset is not an indexed entry'')
            (Option.bind rank (get_at (po_order order)))))))"

definition span_at :: "pack_index \<Rightarrow> bytes \<Rightarrow> nat \<Rightarrow> object_read_error + pack_span" where
  "span_at self bytes offset =
     (case px_order self of
        Some (Inr _) \<Rightarrow>
          and_then (snd (at_offset self bytes offset)) (\<lambda>pos. index_span self bytes pos)
      | _ \<Rightarrow>
          and_then (checked_offset offset (px_pack_end self)) (\<lambda>offset.
          Inr \<lparr>span_offset = offset, span_end = px_pack_end self, span_exact = False, span_crc = None,
               span_position = None\<rparr>))"

subsection \<open>Validation\<close>

fun validate_index_names ::
  "bytes \<Rightarrow> nat \<Rightarrow> nat \<Rightarrow> nat list \<Rightarrow> nat list \<Rightarrow> bytes option \<Rightarrow> object_read_error + nat list" where
  "validate_index_names names stride width [] fanout previous = Inr fanout"
| "validate_index_names names stride width (pos # rest) fanout previous =
     and_then (ok_or (Corrupt ''index table length'')
       (get_range names (pos * stride) (pos * stride + width))) (\<lambda>name.
     if (case previous of None \<Rightarrow> False | Some p \<Rightarrow> name \<le> p)
     then Inl (Corrupt ''unsorted or duplicate index identities'')
     else
       validate_index_names names stride width rest
         (case name of [] \<Rightarrow> fanout | b # _ \<Rightarrow> fanout[unat b := fanout ! unat b + 1]) (Some name))"

fun validate_fanout :: "pack_index \<Rightarrow> bytes \<Rightarrow> nat \<Rightarrow> nat list \<Rightarrow> nat \<Rightarrow> object_read_error + unit" where
  "validate_fanout self bytes index [] cumulative = Inr ()"
| "validate_fanout self bytes index (n # sizes) cumulative =
     (let cumulative = cumulative + n
      in and_then (index_word bytes (fanout_start self + index * 4)) (\<lambda>w.
         if w \<noteq> cumulative then Inl (Corrupt ''index fanout'')
         else validate_fanout self bytes (Suc index) sizes cumulative))"

definition index_validate :: "pack_index \<Rightarrow> bytes \<Rightarrow> pack_index \<times> (object_read_error + unit)" where
  "index_validate self bytes =
     (if px_stray self then (self, Inl (Corrupt ''index table length''))
      else
        let width = digest_len (px_format self);
            stride = (if px_legacy self then width + 4 else width)
        in case and_then (ok_or (Corrupt ''index table length'') (get_from bytes (name_start self 0))) (\<lambda>names.
                and_then (validate_index_names names stride width [0..<px_count self] (replicate 256 0) None) (\<lambda>fanout.
                validate_fanout self bytes 0 fanout 0)) of
             Inl e \<Rightarrow> (self, Inl e)
           | Inr _ \<Rightarrow>
               let (self, order) = index_order self bytes
               in (self, and_then order (\<lambda>_. Inr ())))"

text \<open>The trailing checksum; the digest is a parameter.\<close>

definition verify_hash :: "(bytes \<Rightarrow> bytes) \<Rightarrow> object_format \<Rightarrow> bytes \<Rightarrow> string \<Rightarrow> object_read_error + unit" where
  "verify_hash checksum format bytes reason =
     and_then (ok_or (Corrupt reason)
       (Option.bind (checked_sub (length bytes) (digest_len format)) (split_at_checked bytes))) (\<lambda>(content, sum).
     if checksum content \<noteq> sum then Inl (Corrupt reason) else Inr ())"


section \<open>What parsing establishes\<close>

lemma first_chunk_Some:
  "first_chunk n bytes at = Some w \<longleftrightarrow> at + n \<le> length bytes \<and> w = take n (drop at bytes)"
  by (auto simp add: first_chunk_def get_from_def split: if_splits)

lemma index_word_Inr:
  "index_word bytes at = Inr v \<longleftrightarrow> at + 4 \<le> length bytes \<and> v = be_nat (take 4 (drop at bytes))"
  by (auto simp add: index_word_def and_then_Inr_iff first_chunk_Some)

lemma index_word_less:
  assumes "index_word bytes at = Inr v"
  shows "v < 2 ^ 32"
proof -
  have "length (take 4 (drop at bytes)) = 4" using assms by (auto simp add: index_word_Inr)
  then have "be_nat (take 4 (drop at bytes)) < 256 ^ 4" using be_nat_less by metis
  then show ?thesis using assms by (simp add: index_word_Inr)
qed

lemma get_range_Some:
  "get_range xs a b = Some ys \<longleftrightarrow> a \<le> b \<and> b \<le> length xs \<and> ys = take (b - a) (drop a xs)"
  by (auto simp add: get_range_def)

definition fan :: "pack_index \<Rightarrow> bytes \<Rightarrow> nat \<Rightarrow> nat" where
  "fan self bytes b = be_nat (take 4 (drop (fanout_start self + b * 4) bytes))"

definition record_size :: "pack_index \<Rightarrow> nat" where
  "record_size self = digest_len (px_format self) + (if px_legacy self then 4 else 8)"

text \<open>The tables lie within the file, and the fanout ascends to the number of entries.\<close>

definition index_ok :: "pack_index \<Rightarrow> bytes \<Rightarrow> bool" where
  "index_ok self bytes \<longleftrightarrow>
     fanout_start self + 1024 + px_count self * record_size self + 2 * digest_len (px_format self) \<le> length bytes
     \<and> (\<forall>b c. b \<le> c \<longrightarrow> c < 256 \<longrightarrow> fan self bytes b \<le> fan self bytes c)
     \<and> fan self bytes 255 = px_count self"

lemma check_fanout_sorted:
  "check_fanout bytes fanout bs previous = Inr () \<Longrightarrow>
     sorted (previous # map (\<lambda>b. be_nat (take 4 (drop (fanout + b * 4) bytes))) bs)"
proof (induction bs arbitrary: previous)
  case (Cons b bs)
  then obtain w where w: "index_word bytes (fanout + b * 4) = Inr w" "\<not> w < previous"
    and rest: "check_fanout bytes fanout bs w = Inr ()"
    by (auto simp add: and_then_Inr_iff split: if_splits)
  have "w = be_nat (take 4 (drop (fanout + b * 4) bytes))" using w(1) by (simp add: index_word_Inr)
  then show ?case using Cons.IH [OF rest] w(2) by auto
qed simp

lemma index_parse_Inr:
  assumes "index_parse format bytes pack_end = Inr self"
  shows "index_ok self bytes" and "px_format self = format" and "px_pack_end self = pack_end"
    and "px_order self = None" and "px_count self < 2 ^ 32"
proof -
  let ?legacy = "\<not> starts_with bytes [255, 116, 79, 99]"
  obtain fanout count trailer table_end large_bytes pack_hash
    where fanout: "fanout = (if ?legacy then 0 else 8)"
      and count: "index_word bytes (fanout + 1020) = Inr count"
      and trailer: "checked_sub (length bytes) (2 * digest_len format) = Some trailer"
      and table: "Option.bind (checked_mul count (if ?legacy then digest_len format + 4 else digest_len format + 8))
          (\<lambda>n. checked_add n (fanout + 1024)) = Some table_end"
      and large: "checked_sub trailer table_end = Some large_bytes"
      and check: "check_fanout bytes fanout [0..<256] 0 = Inr ()"
      and self: "self = \<lparr>px_format = format, px_legacy = ?legacy, px_count = count,
                     px_large = large_bytes div 8, px_stray = (large_bytes mod 8 \<noteq> 0),
                     px_pack_end = pack_end, px_pack_hash = pack_hash, px_order = None\<rparr>"
    using assms unfolding index_parse_def Let_def refuse_Inr_iff
    by (elim conjE and_then_InrE) (auto elim!: and_then_InrE simp add: refuse_Inr_iff split: if_splits)
  have fields: "px_count self = count" "px_format self = format" by (simp_all add: self)
  have fs: "fanout_start self = fanout" by (simp add: fanout_start_def self fanout)
  have "table_end = count * record_size self + (fanout + 1024)"
    using table by (auto simp add: Option.bind_eq_Some_conv record_size_def self split: if_splits)
  then have len: "fanout + 1024 + count * record_size self + 2 * digest_len format \<le> length bytes"
    using trailer large by auto
  have sorted: "sorted (0 # map (fan self bytes) [0..<256])"
    using check_fanout_sorted [OF check] unfolding fan_def fs .
  have mono: "fan self bytes b \<le> fan self bytes c" if "b \<le> c" "c < 256" for b c
  proof -
    have "sorted (map (fan self bytes) [0..<256])" using sorted by (simp only: sorted_wrt.simps)
    from sorted_nth_mono [OF this, of b c] that show ?thesis by simp
  qed
  moreover have "fan self bytes 255 = count" using count by (simp add: fan_def fs index_word_Inr)
  ultimately show "index_ok self bytes" using len by (simp add: index_ok_def fs fields)
  show "px_format self = format" "px_pack_end self = pack_end" "px_order self = None" by (simp_all add: self)
  show "px_count self < 2 ^ 32" unfolding fields by (rule index_word_less [OF count])
qed


section \<open>Lookups in a parsed index\<close>

lemma digest_len_bounds: "0 < digest_len format" "digest_len format \<le> 32"
  by (cases format; simp)+

definition name_of :: "pack_index \<Rightarrow> bytes \<Rightarrow> nat \<Rightarrow> bytes" where
  "name_of self bytes pos = take (digest_len (px_format self)) (drop (name_start self pos) bytes)"

lemma name_in_bounds:
  assumes "index_ok self bytes" "pos < px_count self"
  shows "name_start self pos + digest_len (px_format self) \<le> length bytes"
proof -
  have "(pos + 1) * record_size self \<le> px_count self * record_size self"
    using assms(2) by (intro mult_le_mono1) simp
  then have "fanout_start self + 1024 + (pos + 1) * record_size self \<le> length bytes"
    using assms(1) by (simp add: index_ok_def)
  moreover have "pos * digest_len (px_format self) \<le> pos * (digest_len (px_format self) + 8)" by simp
  ultimately show ?thesis
    by (auto simp add: name_start_def record_size_def fanout_start_def Let_def algebra_simps split: if_splits)
qed

lemma name_at_of:
  assumes "index_ok self bytes" "pos < px_count self"
  shows "name_at self bytes pos = Inr (name_of self bytes pos)"
    and "length (name_of self bytes pos) = digest_len (px_format self)"
  using name_in_bounds [OF assms] by (simp_all add: name_at_def slice_def name_of_def get_range_def Let_def)

lemma fan_word:
  assumes "index_ok self bytes" "b < 256"
  shows "index_word bytes (fanout_start self + b * 4) = Inr (fan self bytes b)"
  using assms by (auto simp add: index_word_Inr fan_def index_ok_def)

lemma fan_le_count: "index_ok self bytes \<Longrightarrow> b < 256 \<Longrightarrow> fan self bytes b \<le> px_count self"
  unfolding index_ok_def by (elim conjE, drule spec [of _ b], drule spec [of _ 255]) simp

definition bucket_low :: "pack_index \<Rightarrow> bytes \<Rightarrow> nat \<Rightarrow> nat" where
  "bucket_low self bytes b = (if b = 0 then 0 else fan self bytes (b - 1))"

lemma bucket_bounds_ok:
  assumes "index_ok self bytes" "b < 256"
  shows "bucket_bounds self bytes b = Inr (bucket_low self bytes b, fan self bytes b)"
    and "bucket_low self bytes b \<le> fan self bytes b" and "fan self bytes b \<le> px_count self"
  using assms fan_word [OF assms] fan_word [OF assms(1), of "b - 1"] fan_le_count [OF assms]
  by (auto simp add: bucket_bounds_def bucket_low_def index_ok_def)

definition name_probe :: "pack_index \<Rightarrow> bytes \<Rightarrow> bytes \<Rightarrow> nat \<Rightarrow> object_read_error + cmp" where
  "name_probe self bytes target middle =
     and_then (name_at self bytes middle) (\<lambda>name. Inr (compare name target))"

lemma index_find_probe:
  assumes "index_ok self bytes" "as_bytes oid = b # rest"
  shows "index_find self bytes oid =
    binary_search (name_probe self bytes (as_bytes oid)) (bucket_low self bytes (unat b)) (fan self bytes (unat b))"
proof -
  have "unat b < 256" by (rule unat_byte_less)
  then show ?thesis using assms by (simp add: index_find_def bucket_bounds_ok name_probe_def [abs_def])
qed

lemma oid_first:
  assumes "oid_wf oid"
  obtains b rest where "as_bytes oid = b # rest"
  using assms digest_len_bounds(1) [of "oid_format oid"] by (cases "as_bytes oid") (auto simp add: oid_wf_def)

text \<open>
  C22: Looking an object up in a pack index never panics, whatever the file holds. For every file
  the parser accepts, sorted or not, and every identity, the search returns a result: its reads of
  the fanout and of the names stay in bounds, and a position it returns is the position of an entry
  whose name is the identity's.
\<close>

theorem index_find_safe:
  assumes "index_parse format bytes pack_end = Inr self" and "oid_wf oid"
  shows "\<exists>r. index_find self bytes oid = Inr r
    \<and> (\<forall>pos. r = Some pos \<longrightarrow> pos < px_count self \<and> name_at self bytes pos = Inr (as_bytes oid))"
proof -
  have ok: "index_ok self bytes" by (rule index_parse_Inr [OF assms(1)])
  obtain b rest where b: "as_bytes oid = b # rest" by (rule oid_first [OF assms(2)])
  have bound: "fan self bytes (unat b) \<le> px_count self" by (rule bucket_bounds_ok(3) [OF ok unat_byte_less])
  have total: "\<forall>i. bucket_low self bytes (unat b) \<le> i \<and> i < fan self bytes (unat b) \<longrightarrow>
      (\<exists>c. name_probe self bytes (as_bytes oid) i = Inr c)"
    using bound by (auto simp add: name_probe_def name_at_of [OF ok])
  obtain r where "binary_search (name_probe self bytes (as_bytes oid)) (bucket_low self bytes (unat b))
      (fan self bytes (unat b)) = Inr r"
    and found: "\<forall>i. r = Some i \<longrightarrow> bucket_low self bytes (unat b) \<le> i \<and> i < fan self bytes (unat b)
      \<and> name_probe self bytes (as_bytes oid) i = Inr Equal"
    using binary_search_total [OF total] by blast
  moreover have "name_at self bytes i = Inr (as_bytes oid)" if "name_probe self bytes (as_bytes oid) i = Inr Equal" for i
    using that by (auto simp add: name_probe_def and_then_Inr_iff)
  ultimately show ?thesis
    using index_find_probe [OF ok b] bound by (intro exI [of _ r]) auto
qed


section \<open>A validated index\<close>

text \<open>The names of a validated index ascend strictly, and the fanout counts them.\<close>

definition names_list :: "pack_index \<Rightarrow> bytes \<Rightarrow> bytes list" where
  "names_list self bytes = map (name_of self bytes) [0..<px_count self]"

definition index_sorted :: "pack_index \<Rightarrow> bytes \<Rightarrow> bool" where
  "index_sorted self bytes \<longleftrightarrow>
     index_ok self bytes \<and> sorted_wrt (<) (names_list self bytes)
     \<and> (\<forall>b < 256. fan self bytes b = length (filter (\<lambda>name. unat (hd name) \<le> b) (names_list self bytes)))"

lemma validate_names_Inr:
  assumes "validate_index_names names stride width ps fanout previous = Inr fanout'"
    "length fanout = 256" "0 < width"
  shows "\<exists>ns. length ns = length ps
    \<and> (\<forall>i < length ps. get_range names (ps ! i * stride) (ps ! i * stride + width) = Some (ns ! i))
    \<and> sorted_wrt (<) ((case previous of None \<Rightarrow> [] | Some p \<Rightarrow> [p]) @ ns)
    \<and> length fanout' = 256
    \<and> (\<forall>b < 256. fanout' ! b = fanout ! b + length (filter (\<lambda>x. unat (hd x) = b) ns))"
  using assms
proof (induction ps arbitrary: fanout previous)
  case Nil
  then show ?case by (cases previous) auto
next
  case (Cons p ps)
  then obtain name where name: "get_range names (p * stride) (p * stride + width) = Some name"
    and above: "\<not> (case previous of None \<Rightarrow> False | Some p \<Rightarrow> name \<le> p)"
    and rest: "validate_index_names names stride width ps
         (case name of [] \<Rightarrow> fanout | b # _ \<Rightarrow> fanout[unat b := fanout ! unat b + 1]) (Some name) = Inr fanout'"
    by (auto simp add: and_then_Inr_iff split: if_splits)
  have "length name = width" using name by (auto simp add: get_range_Some)
  then obtain b r where br: "name = b # r" using Cons.prems(3) by (cases name) auto
  have rest': "validate_index_names names stride width ps (fanout[unat b := fanout ! unat b + 1]) (Some name) = Inr fanout'"
    using rest br by simp
  obtain ns where ns: "length ns = length ps"
    "\<forall>i < length ps. get_range names (ps ! i * stride) (ps ! i * stride + width) = Some (ns ! i)"
    "sorted_wrt (<) (name # ns)" "length fanout' = 256"
    "\<forall>c < 256. fanout' ! c = fanout[unat b := fanout ! unat b + 1] ! c + length (filter (\<lambda>x. unat (hd x) = c) ns)"
    using Cons.IH [OF rest'] Cons.prems by auto
  have "\<forall>i < length (p # ps). get_range names ((p # ps) ! i * stride) ((p # ps) ! i * stride + width) =
      Some ((name # ns) ! i)"
    using ns(2) name by (auto simp add: nth_Cons split: nat.splits)
  moreover have "sorted_wrt (<) ((case previous of None \<Rightarrow> [] | Some p \<Rightarrow> [p]) @ name # ns)"
    using ns(3) above by (cases previous) (auto simp add: not_le intro: less_trans)
  moreover have "\<forall>c < 256. fanout' ! c = fanout ! c + length (filter (\<lambda>x. unat (hd x) = c) (name # ns))"
    using ns(5) Cons.prems(2) br by (auto simp add: nth_list_update)
  ultimately show ?case using ns(1,4) by (intro exI [of _ "name # ns"]) simp
qed

lemma validate_fanout_Inr:
  "validate_fanout self bytes index sizes cumulative = Inr () \<Longrightarrow> i < length sizes \<Longrightarrow>
     index_word bytes (fanout_start self + (index + i) * 4) = Inr (cumulative + sum_list (take (Suc i) sizes))"
proof (induction sizes arbitrary: index cumulative i)
  case (Cons n sizes)
  have word: "index_word bytes (fanout_start self + index * 4) = Inr (cumulative + n)"
    and rest: "validate_fanout self bytes (Suc index) sizes (cumulative + n) = Inr ()"
    using Cons.prems by (auto simp add: Let_def and_then_Inr_iff split: if_splits)
  show ?case
  proof (cases i)
    case 0
    then show ?thesis using word by simp
  next
    case (Suc j)
    then show ?thesis using Cons.IH [OF rest, of j] Cons.prems by (simp add: add.assoc)
  qed
qed simp

lemma sum_buckets:
  "length sizes = m \<Longrightarrow> (\<forall>b < m. sizes ! b = length (filter (\<lambda>x. f x = b) xs)) \<Longrightarrow> n \<le> m \<Longrightarrow>
     sum_list (take n sizes) = length (filter (\<lambda>x. f x < n) xs)" for sizes :: "nat list" and f :: "'a \<Rightarrow> nat"
proof (induction n)
  case (Suc n)
  have "filter (\<lambda>x. f x < Suc n) xs = filter (\<lambda>x. f x < n \<or> f x = n) xs" by (rule filter_cong) auto
  moreover have "length (filter (\<lambda>x. f x < n \<or> f x = n) xs) =
      length (filter (\<lambda>x. f x < n) xs) + length (filter (\<lambda>x. f x = n) xs)"
    by (induction xs) auto
  ultimately show ?case using Suc by (simp add: take_Suc_conv_app_nth)
qed simp

lemma index_validate_Inr:
  assumes "index_validate self bytes = (self', Inr ())"
  obtains names fanout order where "get_from bytes (name_start self 0) = Some names"
    "validate_index_names names (if px_legacy self then digest_len (px_format self) + 4 else digest_len (px_format self))
       (digest_len (px_format self)) [0..<px_count self] (replicate 256 0) None = Inr fanout"
    "validate_fanout self bytes 0 fanout 0 = Inr ()"
    "index_order self bytes = (self', Inr order)"
  using assms unfolding index_validate_def Let_def
  by (auto simp add: and_then_Inr_iff case_prod_beta prod_eq_iff split: if_splits sum.splits)

lemma index_validate_sorted:
  assumes ok: "index_ok self bytes" and valid: "index_validate self bytes = (self', Inr ())"
  shows "index_sorted self bytes"
proof -
  let ?w = "digest_len (px_format self)"
  let ?stride = "if px_legacy self then ?w + 4 else ?w"
  obtain names fanout where names: "get_from bytes (name_start self 0) = Some names"
    and scan: "validate_index_names names ?stride ?w [0..<px_count self] (replicate 256 0) None = Inr fanout"
    and fan: "validate_fanout self bytes 0 fanout 0 = Inr ()"
    by (rule index_validate_Inr [OF valid])
  obtain ns where ns: "length ns = px_count self"
    "\<forall>i < px_count self. get_range names (i * ?stride) (i * ?stride + ?w) = Some (ns ! i)"
    "sorted_wrt (<) ns" "length fanout = 256"
    "\<forall>b < 256. fanout ! b = length (filter (\<lambda>x. unat (hd x) = b) ns)"
    using validate_names_Inr [OF scan] digest_len_bounds(1) [of "px_format self"] by auto
  have "ns ! i = name_of self bytes i" if "i < px_count self" for i
  proof -
    have "names = drop (name_start self 0) bytes" using names by (auto simp add: get_from_def split: if_splits)
    moreover have "name_start self 0 + i * ?stride = name_start self i" by (simp add: name_start_def Let_def)
    ultimately show ?thesis using ns(2) that by (auto simp add: get_range_Some name_of_def add.commute)
  qed
  then have list: "ns = names_list self bytes"
    using ns(1) by (auto intro!: nth_equalityI simp add: names_list_def)
  have "fan self bytes b = length (filter (\<lambda>name. unat (hd name) \<le> b) ns)" if "b < 256" for b
  proof -
    have "fan self bytes b = sum_list (take (Suc b) fanout)"
      using validate_fanout_Inr [OF fan, of b] fan_word [OF ok that] ns(4) that by simp
    also have "\<dots> = length (filter (\<lambda>x. unat (hd x) < Suc b) ns)"
      using ns(4,5) that by (intro sum_buckets [of _ 256]) auto
    finally show ?thesis by (simp add: less_Suc_eq_le)
  qed
  then show ?thesis using ok ns(3) by (simp add: index_sorted_def list)
qed


text \<open>A bucket holds exactly the names with its first byte.\<close>

lemma filter_prefix:
  "sorted (map f xs) \<Longrightarrow> i < length xs \<Longrightarrow> i < length (filter (\<lambda>x. f x \<le> b) xs) \<longleftrightarrow> f (xs ! i) \<le> b"
  for f :: "'a \<Rightarrow> nat"
proof (induction xs arbitrary: i)
  case (Cons x xs)
  show ?case
  proof (cases "f x \<le> b")
    case True
    then show ?thesis using Cons by (cases i) auto
  next
    case False
    then have above: "\<forall>y \<in> set (x # xs). \<not> f y \<le> b" using Cons.prems(1) by auto
    then have "filter (\<lambda>y. f y \<le> b) (x # xs) = []" by (simp add: filter_empty_conv)
    moreover have "\<not> f ((x # xs) ! i) \<le> b" using above Cons.prems(2) nth_mem by blast
    ultimately show ?thesis by simp
  qed
qed simp

lemma hd_less: "x < y \<Longrightarrow> x \<noteq> [] \<Longrightarrow> unat (hd x) \<le> unat (hd y)" for x y :: bytes
  by (cases x; cases y) (auto simp add: word_less_nat_alt)

lemma name_not_Nil: "index_ok self bytes \<Longrightarrow> pos < px_count self \<Longrightarrow> name_of self bytes pos \<noteq> []"
  using name_at_of(2) [of self bytes pos] digest_len_bounds(1) [of "px_format self"] by auto

lemma names_ascending:
  "index_sorted self bytes \<Longrightarrow> i < j \<Longrightarrow> j < px_count self \<Longrightarrow> name_of self bytes i < name_of self bytes j"
  using sorted_wrt_nth_less [of "(<)" "names_list self bytes" i j] by (simp add: index_sorted_def names_list_def)

lemma bucket_position:
  assumes "index_sorted self bytes" "pos < px_count self" "b < 256"
  shows "pos < fan self bytes b \<longleftrightarrow> unat (hd (name_of self bytes pos)) \<le> b"
proof -
  have "sorted (map (\<lambda>name. unat (hd name)) (names_list self bytes))"
    unfolding sorted_map
  proof (rule sorted_wrt_mono_rel)
    show "sorted_wrt (<) (names_list self bytes)" using assms(1) by (simp add: index_sorted_def)
    fix x y
    assume "x \<in> set (names_list self bytes)" "y \<in> set (names_list self bytes)" "x < y"
    then show "unat (hd x) \<le> unat (hd y)"
      using assms(1) name_not_Nil by (intro hd_less) (auto simp add: names_list_def index_sorted_def)
  qed
  from filter_prefix [OF this, of pos b] show ?thesis
    using assms by (simp add: index_sorted_def names_list_def)
qed

lemma in_bucket:
  assumes "index_sorted self bytes" "pos < px_count self" "b < 256"
  shows "bucket_low self bytes b \<le> pos \<and> pos < fan self bytes b \<longleftrightarrow> unat (hd (name_of self bytes pos)) = b"
  using bucket_position [OF assms] bucket_position [OF assms(1,2), of "b - 1"] assms(3)
  by (cases b) (auto simp add: bucket_low_def not_less)

definition searchable :: "pack_index \<Rightarrow> bytes \<Rightarrow> nat" where
  "searchable self bytes = (if index_sorted self bytes then px_count self else 0)"

interpretation name_search:
  ordered_probe "name_probe self bytes target" "name_of self bytes" target 0 "searchable self bytes"
  for self bytes target
proof
  show "name_probe self bytes target i = Inr (compare (name_of self bytes i) target)"
    if "i < searchable self bytes" for i
    using that by (auto simp add: searchable_def index_sorted_def name_probe_def name_at_of split: if_splits)
  show "name_of self bytes i < name_of self bytes j" if "i < j" "j < searchable self bytes" for i j
    using that by (auto simp add: searchable_def names_ascending split: if_splits)
qed

lemma identity_name:
  assumes "index_ok self bytes" "pos < px_count self" "oid_wf oid"
  shows "identity self bytes pos = Inr oid \<longleftrightarrow> name_of self bytes pos = as_bytes oid"
proof -
  have len: "length (name_of self bytes pos) = digest_len (px_format self)" by (rule name_at_of [OF assms(1,2)])
  have "as_bytes oid = name_of self bytes pos \<Longrightarrow> oid_format oid = px_format self"
    using len assms(3) by (cases "oid_format oid"; cases "px_format self") (auto simp add: oid_wf_def)
  then show ?thesis
    using len assms(3) name_at_of(1) [OF assms(1,2)] from_bytes_Inr_iff [of "px_format self" "name_of self bytes pos" oid]
    by (auto simp add: identity_def)
qed

text \<open>
  C5: The search of a validated index refines the obvious lookup. For every identity, going through
  the fanout and bisecting the names gives exactly what scanning all entries in order for the first
  one with that identity gives, present or absent, for both index versions.
\<close>

theorem index_find_refines:
  assumes "index_parse format bytes pack_end = Inr self" and "index_validate self bytes = (self', Inr ())"
    and "oid_wf oid"
  shows "index_find self bytes oid = Inr (find (\<lambda>pos. identity self bytes pos = Inr oid) [0..<px_count self])"
proof -
  have ok: "index_ok self bytes" by (rule index_parse_Inr [OF assms(1)])
  have sorted: "index_sorted self bytes" by (rule index_validate_sorted [OF ok assms(2)])
  then have all: "searchable self bytes = px_count self" by (simp add: searchable_def)
  obtain b rest where b: "as_bytes oid = b # rest" by (rule oid_first [OF assms(3)])
  obtain r where r: "index_find self bytes oid = Inr r"
    and found: "\<And>pos. r = Some pos \<longleftrightarrow> bucket_low self bytes (unat b) \<le> pos \<and> pos < fan self bytes (unat b)
      \<and> name_of self bytes pos = as_bytes oid"
    using name_search.search_result [of "bucket_low self bytes (unat b)" "fan self bytes (unat b)" self bytes "as_bytes oid"]
      bucket_bounds_ok(3) [OF ok unat_byte_less, of b] index_find_probe [OF ok b] all by auto
  have iff: "r = Some pos \<longleftrightarrow> pos < px_count self \<and> identity self bytes pos = Inr oid" for pos
  proof (cases "pos < px_count self")
    case True
    then show ?thesis
      using found [of pos] in_bucket [OF sorted True unat_byte_less, of b] identity_name [OF ok True assms(3)] b
      by auto
  next
    case False
    then show ?thesis using found [of pos] bucket_bounds_ok(3) [OF ok unat_byte_less, of b] by auto
  qed
  have "find (\<lambda>pos. identity self bytes pos = Inr oid) [0..<px_count self] = r"
  proof (cases r)
    case None
    then show ?thesis using iff by (auto simp add: find_None_iff)
  next
    case (Some pos)
    then have "pos < px_count self" "identity self bytes pos = Inr oid" using iff by auto
    moreover have "identity self bytes j \<noteq> Inr oid" if "j < pos" for j
      using iff [of j] Some that \<open>pos < px_count self\<close> by auto
    ultimately show ?thesis unfolding Some find_Some_iff by (intro exI [of _ pos]) auto
  qed
  then show ?thesis using r by simp
qed


section \<open>Entries by offset\<close>

lemma index_offset_bounds:
  "index_offset self bytes pos = Inr off \<Longrightarrow> 12 \<le> off \<and> off < px_pack_end self"
  by (auto simp add: index_offset_def checked_offset_def Let_def and_then_Inr_iff split: if_splits)

lemma order_offsets_Inr:
  "order_offsets self bytes ps used offs = Inr (used', offs') \<Longrightarrow>
     \<exists>os. offs' = offs @ os \<and> length os = length ps \<and> (\<forall>i < length ps. index_offset self bytes (ps ! i) = Inr (os ! i))"
proof (induction ps arbitrary: used offs)
  case (Cons p ps)
  then obtain used1 off where off: "index_offset self bytes p = Inr off"
    and rest: "order_offsets self bytes ps used1 (offs @ [off]) = Inr (used', offs')"
    by (auto simp add: and_then_Inr_iff)
  obtain os where "offs' = (offs @ [off]) @ os" "length os = length ps"
    "\<forall>i < length ps. index_offset self bytes (ps ! i) = Inr (os ! i)"
    using Cons.IH [OF rest] by blast
  then show ?case using off by (intro exI [of _ "off # os"]) (auto simp add: nth_Cons split: nat.splits)
qed simp

lemma ascending_windows:
  "sorted xs \<Longrightarrow> \<not> list_ex (\<lambda>(a, b). a = b) (windows2 xs) \<Longrightarrow> sorted_wrt (<) xs" for xs :: "nat list"
  by (induction xs rule: windows2.induct) auto

lemma rank_fold:
  "distinct xs \<Longrightarrow> \<forall>x \<in> set xs. x < length rank \<Longrightarrow> i < length xs \<Longrightarrow>
     fold (\<lambda>(index, pos) rank. rank[pos := index]) (enumerate k xs) rank ! (xs ! i) = k + i"
proof (induction xs arbitrary: k rank i)
  case (Cons x xs)
  have untouched: "fold (\<lambda>(index, pos) rank. rank[pos := index]) (enumerate j ys) rank' ! x = rank' ! x"
    if "x \<notin> set ys" for j ys rank'
    using that by (induction ys arbitrary: j rank') auto
  show ?case
  proof (cases i)
    case 0
    then show ?thesis using Cons.prems by (simp add: untouched)
  next
    case (Suc j)
    then show ?thesis using Cons by simp
  qed
qed simp

lemma order_rank_inverse:
  "distinct order \<Longrightarrow> set order = {0..<length order} \<Longrightarrow> i < length order \<Longrightarrow>
     order_rank order ! (order ! i) = i \<and> length (order_rank order) = length order"
proof -
  assume order: "distinct order" "set order = {0..<length order}" "i < length order"
  have "length (fold (\<lambda>(index, pos) rank. rank[pos := index]) es rank) = length (rank :: nat list)" for es rank
    by (induction es arbitrary: rank) auto
  then show ?thesis
    using rank_fold [of order "replicate (length order) 0" i 0] order by (simp add: order_rank_def)
qed

text \<open>What an order built from an index says about its offsets.\<close>

lemma build_order_Inr:
  assumes "build_order self bytes = Inr order"
  obtains offs where "length offs = px_count self"
    and "\<forall>p < px_count self. index_offset self bytes p = Inr (offs ! p)"
    and "po_order order = sort_key (\<lambda>p. offs ! p) [0..<px_count self]"
    and "po_rank order = order_rank (po_order order)"
    and "sorted_wrt (<) (sort offs)"
    and "(case sort offs of [] \<Rightarrow> px_pack_end self | first # _ \<Rightarrow> first) = 12"
proof -
  obtain used offs where offs: "order_offsets self bytes [0..<px_count self] (replicate (px_large self) False) [] =
      Inr (used, offs)"
    and distinct: "\<not> list_ex (\<lambda>(a, b). a = b) (windows2 (sort offs))"
    and first: "(case sort offs of [] \<Rightarrow> px_pack_end self | first # _ \<Rightarrow> first) = 12"
    and order: "order = \<lparr>po_order = sort_key (\<lambda>p. offs ! p) [0..<length offs],
      po_rank = order_rank (sort_key (\<lambda>p. offs ! p) [0..<length offs])\<rparr>"
    using assms by (auto simp add: build_order_def offset_order_eq and_then_Inr_iff Let_def split: if_splits)
  have "length offs = px_count self" "\<forall>p < px_count self. index_offset self bytes p = Inr (offs ! p)"
    using order_offsets_Inr [OF offs] by auto
  with distinct first order show thesis
    by (intro that [of offs]) (simp_all add: ascending_windows)
qed


definition stop_of :: "nat list \<Rightarrow> nat \<Rightarrow> nat \<Rightarrow> nat" where
  "stop_of starts pack_end i = (if i + 1 < length starts then starts ! (i + 1) else pack_end)"

lemma tiles_unique:
  assumes asc: "sorted_wrt (<) starts" and i: "i < length starts" "starts ! i \<le> x" "x < stop_of starts e i"
    and j: "j < length starts" "starts ! j \<le> x" "x < stop_of starts e j"
  shows "i = j"
proof (rule ccontr)
  have no: False if "a < b" "b < length starts" "starts ! b \<le> x" "x < stop_of starts e a" for a b
  proof -
    have "starts ! (a + 1) \<le> starts ! b"
      using sorted_wrt_nth_less [OF asc, of "a + 1" b] that by (cases "a + 1 = b") auto
    then show False using that by (simp add: stop_of_def)
  qed
  assume "i \<noteq> j"
  then show False using no [of i j] no [of j i] i j by (metis linorder_neqE_nat)
qed

lemma tiles_cover:
  assumes asc: "sorted_wrt (<) starts" and x: "starts \<noteq> []" "starts ! 0 \<le> x" "x < e"
  shows "\<exists>i < length starts. starts ! i \<le> x \<and> x < stop_of starts e i"
proof -
  let ?I = "{i. i < length starts \<and> starts ! i \<le> x}"
  have fin: "finite ?I" and ne: "?I \<noteq> {}" using x by auto
  define i where "i = Max ?I"
  have i: "i < length starts" "starts ! i \<le> x" using Max_in [OF fin ne] by (auto simp add: i_def)
  have "x < stop_of starts e i"
  proof (cases "i + 1 < length starts")
    case True
    have "\<not> starts ! (i + 1) \<le> x"
    proof
      assume "starts ! (i + 1) \<le> x"
      then have "i + 1 \<le> i" unfolding i_def using True by (intro Max_ge fin) (simp add: i_def)
      then show False by simp
    qed
    then show ?thesis using True by (simp add: stop_of_def)
  qed (use x in \<open>simp add: stop_of_def\<close>)
  with i show ?thesis by blast
qed

lemma tiles_ex1:
  assumes asc: "sorted_wrt (<) starts" and first: "(case starts of [] \<Rightarrow> e | first # _ \<Rightarrow> first) = 12"
    and x: "12 \<le> x" "x < e" and n: "length starts = n"
    and pos: "\<forall>i < n. order ! i < n" and rank: "\<forall>p < n. \<exists>i < n. p = order ! i"
    and covered: "\<And>i. i < n \<Longrightarrow> covers (order ! i) \<longleftrightarrow> starts ! i \<le> x \<and> x < stop_of starts e i"
  shows "\<exists>!p. p < n \<and> covers p"
proof -
  have "starts \<noteq> []" using first x by (cases starts) auto
  then have "starts ! 0 = 12" using first by (cases starts) auto
  then obtain i where i: "i < n" "starts ! i \<le> x" "x < stop_of starts e i"
    using tiles_cover [OF asc \<open>starts \<noteq> []\<close>, of x e] x n by auto
  show ?thesis
  proof (rule ex1I [of _ "order ! i"])
    fix p
    assume p: "p < n \<and> covers p"
    then obtain j where j: "j < n" "p = order ! j" using rank by blast
    then have "i = j" using tiles_unique [OF asc, of i x e j] i n p covered [OF j(1)] by simp
    then show "p = order ! i" using j by simp
  qed (use i pos covered in simp)
qed

text \<open>The entries of an ordered index, by rank.\<close>

lemma order_entries:
  assumes "build_order self bytes = Inr order"
  obtains starts where "length starts = px_count self" and "sorted_wrt (<) starts"
    and "(case starts of [] \<Rightarrow> px_pack_end self | first # _ \<Rightarrow> first) = 12"
    and "length (po_order order) = px_count self" and "distinct (po_order order)"
    and "set (po_order order) = {0..<px_count self}"
    and "\<forall>i < px_count self. index_offset self bytes (po_order order ! i) = Inr (starts ! i)"
    and "\<forall>i < px_count self.
      entry_end self bytes order (po_order order ! i) = Inr (stop_of starts (px_pack_end self) i)"
proof -
  obtain offs where offs: "length offs = px_count self"
      "\<forall>p < px_count self. index_offset self bytes p = Inr (offs ! p)"
    and ord: "po_order order = sort_key (\<lambda>p. offs ! p) [0..<px_count self]"
    and rank: "po_rank order = order_rank (po_order order)"
    and asc: "sorted_wrt (<) (sort offs)"
    and first: "(case sort offs of [] \<Rightarrow> px_pack_end self | first # _ \<Rightarrow> first) = 12"
    by (rule build_order_Inr [OF assms])
  have len: "length (po_order order) = px_count self" by (simp add: ord)
  have perm: "distinct (po_order order)" "set (po_order order) = {0..<px_count self}" by (simp_all add: ord)
  have "map (\<lambda>p. offs ! p) (po_order order) = sort offs"
    using sort_map_key [of "(!) offs" "[0..<px_count self]"] offs(1) map_nth [of offs] by (simp add: ord)
  then have at: "offs ! (po_order order ! i) = sort offs ! i" if "i < px_count self" for i
    using that len by (metis nth_map)
  have off: "index_offset self bytes (po_order order ! i) = Inr (sort offs ! i)" if "i < px_count self" for i
  proof -
    have "po_order order ! i \<in> set (po_order order)" using that len by (intro nth_mem) simp
    then show ?thesis using offs(2) at [OF that] perm(2) by simp
  qed
  have "entry_end self bytes order (po_order order ! i) = Inr (stop_of (sort offs) (px_pack_end self) i)"
    if i: "i < px_count self" for i
  proof -
    have "po_order order ! i \<in> set (po_order order)" using i len by (intro nth_mem) simp
    then have "po_order order ! i < length (po_rank order)"
      using order_rank_inverse [of "po_order order" i] perm len i by (simp add: rank)
    then have "get_at (po_rank order) (po_order order ! i) = Some i"
      using order_rank_inverse [of "po_order order" i] perm len i by (simp add: rank get_at_def)
    then show ?thesis
      using off [of "i + 1"] len offs(1) by (simp add: entry_end_def get_at_def stop_of_def)
  qed
  with off show thesis using that [of "sort offs"] offs(1) asc first len perm by simp
qed


lemma order_cell_fields [simp]:
  "px_pack_end (self\<lparr>px_order := r\<rparr>) = px_pack_end self" "offset_table (self\<lparr>px_order := r\<rparr>) = offset_table self"
  by (simp_all add: offset_table_def)

lemma order_cell_irrelevant [simp]:
  "identity (self\<lparr>px_order := r\<rparr>) bytes pos = identity self bytes pos"
  "index_offset (self\<lparr>px_order := r\<rparr>) bytes pos = index_offset self bytes pos"
  "index_crc (self\<lparr>px_order := r\<rparr>) bytes pos = index_crc self bytes pos"
  "entry_end (self\<lparr>px_order := r\<rparr>) bytes order pos = entry_end self bytes order pos"
proof -
  show offset: "index_offset (self\<lparr>px_order := r\<rparr>) bytes pos = index_offset self bytes pos" for pos
    by (simp add: index_offset_def Let_def cong: if_cong)
  show "entry_end (self\<lparr>px_order := r\<rparr>) bytes order pos = entry_end self bytes order pos"
    by (simp add: entry_end_def offset cong: option.case_cong)
qed (simp_all add: identity_def name_at_def name_start_def index_crc_def)

lemma index_crc_ok:
  assumes "index_ok self bytes" "pos < px_count self"
  shows "\<exists>crc. index_crc self bytes pos = Inr crc"
proof (cases "px_legacy self")
  case False
  have "pos * 4 + 4 \<le> px_count self * 4" using assms(2) by simp
  then have "1032 + px_count self * digest_len (px_format self) + pos * 4 + 4 \<le> length bytes"
    using assms(1) False by (simp add: index_ok_def record_size_def fanout_start_def algebra_simps)
  then have "index_word bytes (1032 + px_count self * digest_len (px_format self) + pos * 4) =
      Inr (be_nat (take 4 (drop (1032 + px_count self * digest_len (px_format self) + pos * 4) bytes)))"
    by (simp add: index_word_Inr)
  then show ?thesis using False by (simp add: index_crc_def Let_def)
qed (simp add: index_crc_def)

lemma identity_ok:
  assumes "index_ok self bytes" "pos < px_count self"
  shows "\<exists>oid. identity self bytes pos = Inr oid"
  using name_at_of [OF assms] by (cases "px_format self") (simp_all add: identity_def from_bytes_def)

definition offset_probe :: "pack_index \<Rightarrow> bytes \<Rightarrow> pack_order \<Rightarrow> nat \<Rightarrow> nat \<Rightarrow> object_read_error + cmp" where
  "offset_probe self bytes order offset rank =
     and_then (ok_or IndexPanic (get_at (po_order order) rank)) (\<lambda>pos.
     and_then (index_offset self bytes pos) (\<lambda>found. Inr (compare found offset)))"

definition offset_of :: "pack_index \<Rightarrow> bytes \<Rightarrow> pack_order \<Rightarrow> nat \<Rightarrow> nat" where
  "offset_of self bytes order rank =
     (case index_offset self bytes (po_order order ! rank) of Inr off \<Rightarrow> off | Inl _ \<Rightarrow> 0)"

definition ranked :: "pack_index \<Rightarrow> bytes \<Rightarrow> pack_order \<Rightarrow> nat" where
  "ranked self bytes order = (if build_order self bytes = Inr order then px_count self else 0)"

interpretation offset_search:
  ordered_probe "offset_probe self bytes order offset" "offset_of self bytes order" offset 0 "ranked self bytes order"
  for self bytes order offset
proof
  fix i j
  show "offset_probe self bytes order offset i = Inr (compare (offset_of self bytes order i) offset)"
    if i: "i < ranked self bytes order"
  proof -
    have built: "build_order self bytes = Inr order" "i < px_count self"
      using i by (auto simp add: ranked_def split: if_splits)
    obtain starts where "length (po_order order) = px_count self"
      "\<forall>i < px_count self. index_offset self bytes (po_order order ! i) = Inr (starts ! i)"
      by (rule order_entries [OF built(1)])
    then show ?thesis using built(2) by (simp add: offset_probe_def offset_of_def get_at_def)
  qed
  show "offset_of self bytes order i < offset_of self bytes order j" if ij: "i < j" "j < ranked self bytes order"
  proof -
    have built: "build_order self bytes = Inr order" "j < px_count self"
      using ij by (auto simp add: ranked_def split: if_splits)
    obtain starts where "length starts = px_count self" "sorted_wrt (<) starts"
      "\<forall>i < px_count self. index_offset self bytes (po_order order ! i) = Inr (starts ! i)"
      by (rule order_entries [OF built(1)])
    then show ?thesis using built(2) ij(1) by (simp add: offset_of_def sorted_wrt_nth_less)
  qed
qed

lemma validated_order:
  assumes "index_parse format bytes pack_end = Inr self" "index_validate self bytes = (self', Inr ())"
  obtains order where "build_order self bytes = Inr order"
    "index_order self bytes = (self\<lparr>px_order := Some (Inr order)\<rparr>, Inr order)"
proof -
  obtain order where order: "index_order self bytes = (self', Inr order)"
    by (rule index_validate_Inr [OF assms(2)])
  have "px_order self = None" by (rule index_parse_Inr [OF assms(1)])
  then have "build_order self bytes = Inr order"
    using order by (auto simp add: index_order_def Let_def)
  moreover from this have "index_order self bytes = (self\<lparr>px_order := Some (Inr order)\<rparr>, Inr order)"
    using \<open>px_order self = None\<close> by (simp add: index_order_def)
  ultimately show thesis using that by blast
qed

lemma entry_at_rank:
  assumes ok: "index_ok self bytes" and order: "index_order self bytes = (self\<lparr>px_order := Some (Inr order)\<rparr>, Inr order)"
    and pos: "po_order order ! i < px_count self"
    and off: "index_offset self bytes (po_order order ! i) = Inr start"
    and stop: "entry_end self bytes order (po_order order ! i) = Inr e"
  shows "\<exists>entry. snd (index_entry self bytes (po_order order ! i)) = Inr entry
    \<and> pe_offset entry = start \<and> pe_end entry = e \<and> identity self bytes (po_order order ! i) = Inr (pe_id entry)"
proof -
  obtain oid crc where "identity self bytes (po_order order ! i) = Inr oid"
    "index_crc self bytes (po_order order ! i) = Inr crc"
    using identity_ok [OF ok pos] index_crc_ok [OF ok pos] by blast
  then show ?thesis using order off stop by (simp add: index_entry_def)
qed


lemma at_offset_rank:
  assumes order: "index_order self bytes = (self\<lparr>px_order := Some (Inr order)\<rparr>, Inr order)"
    and built: "build_order self bytes = Inr order" and len: "length (po_order order) = px_count self"
    and i: "i < px_count self" and off: "index_offset self bytes (po_order order ! i) = Inr start"
  shows "snd (at_offset self bytes start) = Inr (po_order order ! i)"
proof -
  have "offset_of self bytes order i = start" using off by (simp add: offset_of_def)
  then have "binary_search (offset_probe self bytes order start) 0 (px_count self) = Inr (Some i)"
    using i built by (intro offset_search.search_present) (simp_all add: ranked_def)
  then show ?thesis
    using order len i by (simp add: at_offset_def offset_probe_def [abs_def] get_at_def)
qed

text \<open>The entries of a validated index in the order of their offsets.\<close>

lemma validated_ranks:
  assumes "index_parse format bytes pack_end = Inr self" "index_validate self bytes = (self', Inr ())"
  obtains order starts where "length starts = px_count self" and "sorted_wrt (<) starts"
    and "(case starts of [] \<Rightarrow> pack_end | first # _ \<Rightarrow> first) = 12"
    and "\<forall>i < px_count self. order ! i < px_count self"
    and "\<forall>p < px_count self. \<exists>i < px_count self. p = order ! i"
    and "\<forall>i < px_count self. \<exists>entry. snd (index_entry self bytes (order ! i)) = Inr entry
      \<and> pe_offset entry = starts ! i \<and> pe_end entry = stop_of starts pack_end i
      \<and> identity self bytes (order ! i) = Inr (pe_id entry)
      \<and> snd (at_offset self bytes (pe_offset entry)) = Inr (order ! i)"
    and "\<forall>i < px_count self. 12 \<le> starts ! i \<and> starts ! i < stop_of starts pack_end i
      \<and> stop_of starts pack_end i \<le> pack_end"
proof -
  have ok: "index_ok self bytes" and pe: "px_pack_end self = pack_end" by (rule index_parse_Inr [OF assms(1)])+
  obtain order where built: "build_order self bytes = Inr order"
    and cell: "index_order self bytes = (self\<lparr>px_order := Some (Inr order)\<rparr>, Inr order)"
    by (rule validated_order [OF assms])
  obtain starts where n: "length starts = px_count self" and asc: "sorted_wrt (<) starts"
    and first: "(case starts of [] \<Rightarrow> px_pack_end self | first # _ \<Rightarrow> first) = 12"
    and len: "length (po_order order) = px_count self" and dist: "distinct (po_order order)"
    and perm: "set (po_order order) = {0..<px_count self}"
    and off: "\<forall>i < px_count self. index_offset self bytes (po_order order ! i) = Inr (starts ! i)"
    and stop: "\<forall>i < px_count self. entry_end self bytes order (po_order order ! i) =
      Inr (stop_of starts (px_pack_end self) i)"
    by (rule order_entries [OF built])
  have pos: "po_order order ! i < px_count self" if "i < px_count self" for i
    using nth_mem [of i "po_order order"] that len perm by simp
  have rank: "\<exists>i < px_count self. p = po_order order ! i" if "p < px_count self" for p
    using that perm len by (metis atLeastLessThan_iff in_set_conv_nth le0)
  have entry: "\<exists>entry. snd (index_entry self bytes (po_order order ! i)) = Inr entry
      \<and> pe_offset entry = starts ! i \<and> pe_end entry = stop_of starts pack_end i
      \<and> identity self bytes (po_order order ! i) = Inr (pe_id entry)
      \<and> snd (at_offset self bytes (pe_offset entry)) = Inr (po_order order ! i)" if "i < px_count self" for i
    using entry_at_rank [OF ok cell pos] at_offset_rank [OF cell built len] off stop that pe by metis
  have bounds: "12 \<le> starts ! i" "starts ! i < stop_of starts pack_end i" "stop_of starts pack_end i \<le> pack_end"
    if "i < px_count self" for i
    using index_offset_bounds [of self bytes "po_order order ! i"] index_offset_bounds [of self bytes "po_order order ! (i + 1)"]
      off that pe n sorted_wrt_nth_less [OF asc, of i "i + 1"] by (auto simp add: stop_of_def)
  show thesis
    using that [of starts "po_order order"] n asc first [unfolded pe] pos rank entry bounds by simp
qed

text \<open>
  C3: The entries of a validated index tile the pack. Every entry can be read, carries the identity
  of its position and covers a non-empty stretch of bytes between the pack's header and its
  trailer; every byte in between belongs to exactly one entry; and looking an entry up by its offset
  leads back to its position. So no bytes of a validated pack are unaccounted for or shared.
\<close>

theorem pack_entries_tile:
  assumes "index_parse format bytes pack_end = Inr self" and "index_validate self bytes = (self', Inr ())"
  shows "(\<forall>pos < px_count self. \<exists>entry. snd (index_entry self bytes pos) = Inr entry
      \<and> 12 \<le> pe_offset entry \<and> pe_offset entry < pe_end entry \<and> pe_end entry \<le> pack_end
      \<and> identity self bytes pos = Inr (pe_id entry) \<and> snd (at_offset self bytes (pe_offset entry)) = Inr pos)
    \<and> (\<forall>x. 12 \<le> x \<and> x < pack_end \<longrightarrow> (\<exists>!pos. pos < px_count self \<and>
        (\<exists>entry. snd (index_entry self bytes pos) = Inr entry \<and> pe_offset entry \<le> x \<and> x < pe_end entry)))"
proof -
  obtain order starts where n: "length starts = px_count self" and asc: "sorted_wrt (<) starts"
    and first: "(case starts of [] \<Rightarrow> pack_end | first # _ \<Rightarrow> first) = 12"
    and pos: "\<forall>i < px_count self. order ! i < px_count self"
    and rank: "\<forall>p < px_count self. \<exists>i < px_count self. p = order ! i"
    and entry: "\<forall>i < px_count self. \<exists>entry. snd (index_entry self bytes (order ! i)) = Inr entry
      \<and> pe_offset entry = starts ! i \<and> pe_end entry = stop_of starts pack_end i
      \<and> identity self bytes (order ! i) = Inr (pe_id entry)
      \<and> snd (at_offset self bytes (pe_offset entry)) = Inr (order ! i)"
    and bounds: "\<forall>i < px_count self. 12 \<le> starts ! i \<and> starts ! i < stop_of starts pack_end i
      \<and> stop_of starts pack_end i \<le> pack_end"
    by (rule validated_ranks [OF assms])
  have covered: "(\<exists>entry. snd (index_entry self bytes (order ! i)) = Inr entry \<and> pe_offset entry \<le> x \<and> x < pe_end entry)
      \<longleftrightarrow> starts ! i \<le> x \<and> x < stop_of starts pack_end i" if "i < px_count self" for i x
    using entry that by fastforce
  have "\<exists>!p. p < px_count self \<and>
      (\<exists>entry. snd (index_entry self bytes p) = Inr entry \<and> pe_offset entry \<le> x \<and> x < pe_end entry)"
    if x: "12 \<le> x" "x < pack_end" for x
    by (rule tiles_ex1 [OF asc first x n pos rank]) (rule covered)
  moreover have "\<exists>entry. snd (index_entry self bytes p) = Inr entry
      \<and> 12 \<le> pe_offset entry \<and> pe_offset entry < pe_end entry \<and> pe_end entry \<le> pack_end
      \<and> identity self bytes p = Inr (pe_id entry) \<and> snd (at_offset self bytes (pe_offset entry)) = Inr p"
    if p: "p < px_count self" for p
  proof -
    obtain i where i: "i < px_count self" "p = order ! i" using rank p by blast
    then obtain entry where "snd (index_entry self bytes p) = Inr entry" "pe_offset entry = starts ! i"
      "pe_end entry = stop_of starts pack_end i" "identity self bytes p = Inr (pe_id entry)"
      "snd (at_offset self bytes (pe_offset entry)) = Inr p"
      using entry by blast
    then show ?thesis using bounds i(1) by (intro exI [of _ entry]) simp
  qed
  ultimately show ?thesis by blast
qed


section \<open>A sample index\<close>

text \<open>One entry, whose name starts with a zero byte, in a pack of 40 bytes before its trailer.\<close>

definition sample_fanout :: bytes where
  "sample_fanout = concat (replicate 256 [0, 0, 0, 1])"

definition sample_name :: bytes where
  "sample_name = 0 # replicate 19 0xab"

definition sample_index_bytes :: bytes where
  "sample_index_bytes =
     [255, 116, 79, 99, 0, 0, 0, 2] @ sample_fanout @ sample_name @ [1, 2, 3, 4] @ [0, 0, 0, 12] @ replicate 40 7"

definition sample_index :: pack_index where
  "sample_index = \<lparr>px_format = Sha1, px_legacy = False, px_count = 1, px_large = 0, px_stray = False,
     px_pack_end = 40, px_pack_hash = IdSha1 (replicate 20 7), px_order = None\<rparr>"

lemma length_replicated [simp]: "length (concat (replicate n w)) = n * length w"
  by (induction n) auto

lemma drop_replicated:
  "b \<le> n \<Longrightarrow> drop (b * length w) (concat (replicate n w) @ r) = concat (replicate (n - b) w) @ r"
  by (auto simp add: le_iff_add replicate_add add_mult_distrib)

lemma length_sample [simp]: "length sample_index_bytes = 1100"
  by (simp add: sample_index_bytes_def sample_fanout_def sample_name_def)

lemma word_replicated:
  assumes "b < n"
  shows "take (length w) (drop (length h + b * length w) (h @ concat (replicate n w) @ r)) = w"
proof -
  have "n - b = Suc (n - b - 1)" using assms by simp
  then have "concat (replicate (n - b) w) @ r = w @ concat (replicate (n - b - 1) w) @ r"
    by (metis append_assoc concat.simps(2) replicate_Suc)
  then show ?thesis using drop_replicated [of b n w r] assms by simp
qed

lemma sample_word:
  assumes "b < 256"
  shows "index_word sample_index_bytes (8 + b * 4) = Inr 1"
proof -
  have h: "length [255, 116, 79, 99, 0, 0, 0, 2 :: byte] = 8" "length [0, 0, 0, 1 :: byte] = 4" by simp_all
  have "take 4 (drop (8 + b * 4) sample_index_bytes) = [0, 0, 0, 1]"
    unfolding sample_index_bytes_def sample_fanout_def
    by (rule word_replicated [of b 256 "[0, 0, 0, 1 :: byte]" "[255, 116, 79, 99, 0, 0, 0, 2]", unfolded h]) (rule assms)
  then show ?thesis using assms by (simp add: index_word_Inr be_nat_def)
qed

text \<open>The tables after the fanout.\<close>

lemma sample_tables:
  "1032 \<le> k \<Longrightarrow> drop k sample_index_bytes = drop (k - 1032) (sample_name @ [1, 2, 3, 4] @ [0, 0, 0, 12] @ replicate 40 7)"
proof -
  assume "1032 \<le> k"
  then obtain j where j: "k = 1032 + j" using le_Suc_ex by blast
  have "length ([255, 116, 79, 99, 0, 0, 0, 2] @ sample_fanout) = 1032" by (simp add: sample_fanout_def)
  then have "drop 1032 sample_index_bytes = sample_name @ [1, 2, 3, 4] @ [0, 0, 0, 12] @ replicate 40 7"
    unfolding sample_index_bytes_def by simp
  then have "drop j (drop 1032 sample_index_bytes) = drop j (sample_name @ [1, 2, 3, 4] @ [0, 0, 0, 12] @ replicate 40 7)"
    by (rule arg_cong)
  then show ?thesis unfolding j drop_drop by (simp only: add.commute add_diff_cancel_right')
qed

lemma check_fanout_constant:
  "list_all (\<lambda>b. index_word bytes (fanout + b * 4) = Inr v) bs \<Longrightarrow> p \<le> v \<Longrightarrow> check_fanout bytes fanout bs p = Inr ()"
  by (induction bs arbitrary: p) auto

lemma validate_fanout_constant:
  "(\<And>b. i \<le> b \<Longrightarrow> b < i + n \<Longrightarrow> index_word bytes (fanout_start self + b * 4) = Inr v) \<Longrightarrow>
     validate_fanout self bytes i (replicate n 0) v = Inr ()"
  by (induction n arbitrary: i) (simp_all add: Let_def)

lemma sample_index_parse: "index_parse Sha1 sample_index_bytes 40 = Inr sample_index"
proof -
  have "starts_with sample_index_bytes [255, 116, 79, 99]"
    by (simp add: sample_index_bytes_def starts_with_def)
  moreover have "take 4 (drop 4 sample_index_bytes) = [0, 0, 0, 2]" by (simp add: sample_index_bytes_def)
  then have "index_word sample_index_bytes 4 = Inr 2" by (simp add: index_word_Inr be_nat_def)
  moreover have "index_word sample_index_bytes 1028 = Inr 1" using sample_word [of 255] by simp
  moreover have "check_fanout sample_index_bytes 8 [0..<256] 0 = Inr ()"
    using sample_word by (intro check_fanout_constant [of _ _ 1]) (simp_all add: list_all_iff)
  moreover have "get_range sample_index_bytes 1060 1080 = Some (replicate 20 7)"
    by (simp add: get_range_Some sample_tables sample_name_def)
  ultimately show ?thesis
    by (simp add: index_parse_def checked_sub_def checked_mul_def checked_add_def usize_max_def from_bytes_def
        saturating_mul_def sample_index_def)
qed


lemma sample_fields [simp]:
  "px_format sample_index = Sha1" "\<not> px_legacy sample_index" "px_count sample_index = 1" "px_large sample_index = 0"
  "\<not> px_stray sample_index" "px_pack_end sample_index = 40" "px_order sample_index = None"
  by (simp_all add: sample_index_def)

lemma sample_offset: "index_offset sample_index sample_index_bytes 0 = Inr 12"
proof -
  have "index_word sample_index_bytes 1056 = Inr 12"
    by (simp add: index_word_Inr sample_tables sample_name_def be_nat_def)
  then show ?thesis by (simp add: index_offset_def offset_table_def checked_offset_def usize_max_def)
qed

lemma sample_order: "build_order sample_index sample_index_bytes = Inr \<lparr>po_order = [0], po_rank = [0]\<rparr>"
proof -
  have "index_word sample_index_bytes 1056 = Inr 12"
    by (simp add: index_word_Inr sample_tables sample_name_def be_nat_def)
  then have "large_slot sample_index sample_index_bytes 0 = Inr None"
    by (simp add: large_slot_def offset_table_def)
  moreover have "offset_order [12] = ([0], [12])" by code_simp
  ultimately show ?thesis by (simp add: build_order_def sample_offset order_rank_def)
qed

lemma sample_validate:
  "index_validate sample_index sample_index_bytes =
     (sample_index\<lparr>px_order := Some (Inr \<lparr>po_order = [0], po_rank = [0]\<rparr>)\<rparr>, Inr ())"
proof -
  have "get_from sample_index_bytes 1032 = Some (sample_name @ [1, 2, 3, 4] @ [0, 0, 0, 12] @ replicate 40 7)"
    using sample_tables [of 1032] by (simp add: get_from_def)
  moreover have "get_range (sample_name @ [1, 2, 3, 4] @ [0, 0, 0, 12] @ replicate 40 7) 0 20 = Some sample_name"
    by (simp add: get_range_Some sample_name_def)
  moreover have "validate_fanout sample_index sample_index_bytes 0 ((replicate 256 0)[0 := 1]) 0 = Inr ()"
  proof -
    have "(replicate 256 0)[0 := 1] = 1 # replicate 255 (0 :: nat)" by (simp add: numeral_eq_Suc)
    moreover have "validate_fanout sample_index sample_index_bytes (Suc 0) (replicate 255 0) 1 = Inr ()"
      using sample_word by (intro validate_fanout_constant) (simp add: fanout_start_def)
    ultimately show ?thesis using sample_word [of 0] by (simp add: fanout_start_def)
  qed
  ultimately show ?thesis
    by (simp add: index_validate_def name_start_def index_order_def sample_order sample_name_def)
qed

theorem index_find_safe_witness:
  "\<exists>r. index_find sample_index sample_index_bytes (IdSha1 sample_name) = Inr r"
  using index_find_safe [OF sample_index_parse, of "IdSha1 sample_name"]
  by (auto simp add: oid_wf_def sample_name_def)


lemma sample_identity: "identity sample_index sample_index_bytes 0 = Inr (IdSha1 sample_name)"
  by (simp add: identity_def name_at_def name_start_def slice_def get_range_def sample_tables from_bytes_def
      sample_name_def)

theorem index_find_refines_witness:
  "index_find sample_index sample_index_bytes (IdSha1 sample_name) = Inr (Some 0)
   \<and> index_find sample_index sample_index_bytes (IdSha1 (replicate 20 0)) = Inr None"
proof -
  have "oid_wf (IdSha1 sample_name)" "oid_wf (IdSha1 (replicate 20 0))" by (simp_all add: oid_wf_def sample_name_def)
  moreover have "sample_name \<noteq> replicate 20 0" by code_simp
  ultimately show ?thesis
    using index_find_refines [OF sample_index_parse sample_validate, of "IdSha1 sample_name"]
      index_find_refines [OF sample_index_parse sample_validate, of "IdSha1 (replicate 20 0)"]
    by (simp add: sample_identity)
qed

theorem pack_entries_tile_witness:
  "\<exists>entry. snd (index_entry sample_index sample_index_bytes 0) = Inr entry
     \<and> pe_offset entry = 12 \<and> pe_end entry = 40 \<and> snd (at_offset sample_index sample_index_bytes 12) = Inr 0"
proof -
  have "\<exists>entry. snd (index_entry sample_index sample_index_bytes 0) = Inr entry
      \<and> snd (at_offset sample_index sample_index_bytes (pe_offset entry)) = Inr 0"
    using pack_entries_tile [OF sample_index_parse sample_validate] by auto
  then show ?thesis
    by (auto simp add: index_entry_def index_order_def sample_order sample_offset sample_identity and_then_Inr_iff
        entry_end_def get_at_def)
qed

end
