(* ===== verification/Pack_Prefix.thy ===== *)
theory Pack_Prefix
  imports Pack_Index
begin

text \<open>
  Abbreviated names in a pack index (\<^verbatim>\<open>prefix_range\<close> of \<^verbatim>\<open>src/pack/index.rs\<close>): the
  identities of a prefix are an interval of the order, so the two binary searches of the reader
  find the first and the end of exactly the matching entries.
\<close>

section \<open>The order of hexadecimal text\<close>

text \<open>Hexadecimal text has the order of the bytes it stands for.\<close>

lemma hex_char_less: "unat a < 16 \<Longrightarrow> unat b < 16 \<Longrightarrow> hex_char a < hex_char b \<longleftrightarrow> a < b"
  by (auto simp add: word_less_nat_alt unat_hex_char)

lemma hex2_less: "a < b \<Longrightarrow> hex2 a @ xs < hex2 b @ ys"
proof -
  assume "a < b"
  then have ab: "unat a < unat b" by (simp add: word_less_nat_alt)
  show ?thesis
  proof (cases "unat a div 16 = unat b div 16")
    case True
    then have "unat a mod 16 < unat b mod 16" using ab by (metis div_mult_mod_eq add_less_cancel_left)
    then have "hex_char (a AND 15) < hex_char (b AND 15)"
      by (subst hex_char_less) (simp_all add: word_less_nat_alt)
    moreover have "drop_bit 4 a = drop_bit 4 b" using True by (intro unat_eqI) simp
    ultimately show ?thesis by (simp add: hex2_def)
  next
    case False
    then have "unat a div 16 < unat b div 16" using ab by (simp add: div_le_mono less_imp_le le_neq_implies_less)
    then have "hex_char (drop_bit 4 a) < hex_char (drop_bit 4 b)"
      by (subst hex_char_less) (simp_all add: word_less_nat_alt)
    then show ?thesis by (simp add: hex2_def)
  qed
qed

lemma hex_less: "xs < ys \<longleftrightarrow> concat (map hex2 xs) < concat (map hex2 ys)"
proof -
  have forth: "xs < ys \<Longrightarrow> concat (map hex2 xs) < concat (map hex2 ys)" for xs ys
  proof (induction xs arbitrary: ys)
    case Nil
    then obtain y ys' where "ys = y # ys'" by (cases ys) auto
    then show ?case by (simp add: hex2_def)
  next
    case (Cons x xs)
    then obtain y ys' where ys: "ys = y # ys'" by (cases ys) auto
    then consider "x < y" | "x = y" "xs < ys'" using Cons.prems by auto
    then show ?case
    proof cases
      case 1
      then show ?thesis using ys by (simp add: hex2_less)
    next
      case 2
      then show ?thesis using Cons.IH [OF 2(2)] ys by (simp add: hex2_def)
    qed
  qed
  show ?thesis using forth [of xs ys] forth [of ys xs] by (metis less_asym linorder_neqE)
qed

lemma oid_less_text:
  assumes "oid_format a = oid_format b"
  shows "oid_less a b \<longleftrightarrow> as_bytes a < as_bytes b" and "as_bytes a < as_bytes b \<longleftrightarrow> oid_to_string a < oid_to_string b"
  using assms by (cases a; cases b) (simp_all add: oid_to_string_def hex_less [symmetric])

section \<open>The identities of a prefix\<close>

text \<open>The prefixes that the constructors build: at least two digits, and zeros after the digits.\<close>

definition prefix_ok :: "object_id_prefix \<Rightarrow> bool" where
  "prefix_ok p \<longleftrightarrow>
     oid_wf (lower p) \<and> 2 \<le> digits p \<and> digits p \<le> 2 * digest_len (oid_format (lower p))
     \<and> (\<forall>c \<in> set (drop (digits p) (oid_to_string (lower p))). c = 48)"

lemma prefix_from_hex_ok:
  assumes "prefix_from_hex format t = Inr p"
  shows "prefix_ok p" and "oid_format (lower p) = format"
    and "take (digits p) (oid_to_string (lower p)) = map to_ascii_lowercase t"
proof -
  note facts = prefix_from_hex_Inr [OF assms]
  have "from_hex format (t @ replicate (digest_len format * 2 - length t) 48) = Inr (lower p)"
    using assms by (auto simp add: prefix_from_hex_def Let_def and_then_Inr_iff split: if_splits)
  then have "oid_to_string (lower p) = map to_ascii_lowercase (t @ replicate (digest_len format * 2 - length t) 48)"
    by (auto simp add: from_hex_def and_then_Inr_iff from_str_iff split: if_splits)
  then have "set (drop (digits p) (oid_to_string (lower p))) \<subseteq> {to_ascii_lowercase 48}"
    using facts by auto
  moreover have "to_ascii_lowercase 48 = 48" by (simp add: to_ascii_lowercase_def is_ascii_uppercase_def in_range_def)
  ultimately show "prefix_ok p" using facts by (auto simp add: prefix_ok_def)
  show "oid_format (lower p) = format" "take (digits p) (oid_to_string (lower p)) = map to_ascii_lowercase t"
    using facts by simp_all
qed

lemma same_append_le: "xs @ ys \<le> xs @ zs \<longleftrightarrow> ys \<le> zs" for xs :: "'a::linorder list"
  by (induction xs) auto

lemma zeros_least:
  "length xs = length ys \<Longrightarrow> \<forall>c \<in> set xs. c = (48 :: byte) \<Longrightarrow> \<forall>c \<in> set ys. 48 \<le> c \<Longrightarrow> xs \<le> ys"
proof (induction xs ys rule: list_induct2)
  case (Cons x xs y ys)
  then show ?case by (cases "y = 48") auto
qed simp

lemma hex_text_ge: "c \<in> set (oid_to_string oid) \<Longrightarrow> 48 \<le> c"
proof -
  assume "c \<in> set (oid_to_string oid)"
  then have "is_ascii_hexdigit c"
    using list_all_hex2 [of "as_bytes oid"] unfolding oid_to_string_def list_all_iff by blast
  then show ?thesis
    by (auto simp add: is_ascii_hexdigit_def is_ascii_digit_def in_range_def word_le_nat_alt)
qed

text \<open>The identities a prefix matches are an interval that starts at its lower bound.\<close>

lemma prefix_text:
  assumes "prefix_ok p" "oid_wf oid" "oid_format oid = oid_format (lower p)"
  shows "prefix_matches p oid \<longleftrightarrow> starts_with (oid_to_string oid) (take (digits p) (oid_to_string (lower p)))"
proof -
  have "length (oid_to_string (lower p)) = 2 * digest_len (oid_format (lower p))"
    using assms(1) by (simp add: length_oid_to_string prefix_ok_def)
  then have "length (take (digits p) (oid_to_string (lower p))) = digits p"
    using assms(1) by (simp add: prefix_ok_def)
  then show ?thesis
    using prefix_matches_take [of p oid] assms by (simp add: prefix_ok_def starts_with_def)
qed

lemma prefix_matches_ge:
  assumes "prefix_ok p" "oid_wf oid" "oid_format oid = oid_format (lower p)" "prefix_matches p oid"
  shows "oid_to_string (lower p) \<le> oid_to_string oid"
proof -
  let ?t = "take (digits p) (oid_to_string (lower p))"
  have lower: "oid_to_string (lower p) = ?t @ drop (digits p) (oid_to_string (lower p))" by simp
  obtain r where r: "oid_to_string oid = ?t @ r"
    using prefix_text [OF assms(1-3)] assms(4) by (auto simp add: starts_with_iff)
  have "length (oid_to_string oid) = length (oid_to_string (lower p))"
    using assms(1-3) by (simp add: length_oid_to_string prefix_ok_def)
  then have "length (drop (digits p) (oid_to_string (lower p))) = length r"
    unfolding r by (subst (asm) (2) lower) (simp only: length_append add_left_cancel)
  moreover have "\<forall>c \<in> set r. 48 \<le> c" using hex_text_ge [of _ oid] by (auto simp add: r)
  ultimately have "drop (digits p) (oid_to_string (lower p)) \<le> r"
    using assms(1) by (intro zeros_least) (auto simp add: prefix_ok_def)
  then show ?thesis by (subst lower) (simp only: r same_append_le)
qed

lemma prefix_matches_interval:
  assumes p: "prefix_ok p" and a: "oid_wf a" "oid_format a = oid_format (lower p)"
    and b: "oid_wf b" "oid_format b = oid_format (lower p)" "prefix_matches p b"
    and order: "oid_to_string (lower p) \<le> oid_to_string a" "oid_to_string a \<le> oid_to_string b"
  shows "prefix_matches p a"
proof -
  let ?t = "take (digits p) (oid_to_string (lower p))"
  obtain r where "oid_to_string b = ?t @ r" using prefix_text [OF p b(1,2)] b(3) by (auto simp add: starts_with_iff)
  moreover have "?t \<le> oid_to_string (lower p)" using prefix_le [of ?t "drop (digits p) (oid_to_string (lower p))"] by simp
  ultimately have "starts_with (oid_to_string a) ?t" using order by (intro between_prefix [of ?t]) auto
  then show ?thesis using prefix_text [OF p a] by simp
qed


section \<open>The two searches\<close>

definition oid_at :: "pack_index \<Rightarrow> bytes \<Rightarrow> nat \<Rightarrow> object_id" where
  "oid_at self bytes pos =
     (case px_format self of Sha1 \<Rightarrow> IdSha1 (name_of self bytes pos) | Sha256 \<Rightarrow> IdSha256 (name_of self bytes pos))"

lemma oid_at_facts:
  assumes "index_ok self bytes" "pos < px_count self"
  shows "identity self bytes pos = Inr (oid_at self bytes pos)" and "oid_wf (oid_at self bytes pos)"
    and "oid_format (oid_at self bytes pos) = px_format self" and "as_bytes (oid_at self bytes pos) = name_of self bytes pos"
  using name_at_of [OF assms]
  by (simp_all add: identity_def oid_at_def from_bytes_def oid_wf_def split: object_format.splits)

definition lower_probe :: "pack_index \<Rightarrow> bytes \<Rightarrow> object_id_prefix \<Rightarrow> nat \<Rightarrow> object_read_error + bool" where
  "lower_probe self bytes prefix middle =
     and_then (identity self bytes middle) (\<lambda>oid. Inr (oid_less oid (lower prefix)))"

definition match_probe :: "pack_index \<Rightarrow> bytes \<Rightarrow> object_id_prefix \<Rightarrow> nat \<Rightarrow> object_read_error + bool" where
  "match_probe self bytes prefix middle =
     and_then (identity self bytes middle) (\<lambda>oid. Inr (prefix_matches prefix oid))"

definition below :: "pack_index \<Rightarrow> bytes \<Rightarrow> object_id_prefix \<Rightarrow> nat \<Rightarrow> bool" where
  "below self bytes prefix pos \<longleftrightarrow> oid_less (oid_at self bytes pos) (lower prefix)"

definition prefix_bound :: "pack_index \<Rightarrow> bytes \<Rightarrow> object_id_prefix \<Rightarrow> nat" where
  "prefix_bound self bytes prefix =
     (if index_sorted self bytes \<and> prefix_ok prefix \<and> oid_format (lower prefix) = px_format self
      then px_count self else 0)"

text \<open>The number of identities below the prefix, which is also the position of the first one that is not.\<close>

definition from_lower :: "pack_index \<Rightarrow> bytes \<Rightarrow> object_id_prefix \<Rightarrow> nat" where
  "from_lower self bytes prefix = length (filter (below self bytes prefix) [0..<prefix_bound self bytes prefix])"

lemma prefix_bound_ok:
  assumes "pos < prefix_bound self bytes prefix"
  shows "index_sorted self bytes" "index_ok self bytes" "prefix_ok prefix" "oid_format (lower prefix) = px_format self"
    "pos < px_count self"
  using assms by (auto simp add: prefix_bound_def index_sorted_def split: if_splits)

lemma text_ascending:
  assumes "i < j" "j < prefix_bound self bytes prefix"
  shows "oid_to_string (oid_at self bytes i) < oid_to_string (oid_at self bytes j)"
proof -
  note ok = prefix_bound_ok [OF assms(2)]
  have i: "i < px_count self" using assms(1) ok(5) by simp
  have "as_bytes (oid_at self bytes i) < as_bytes (oid_at self bytes j)"
    using names_ascending [OF ok(1) assms(1) ok(5)] oid_at_facts(4) ok(2,5) i by simp
  then show ?thesis using oid_less_text(2) [of "oid_at self bytes i" "oid_at self bytes j"] oid_at_facts(3) ok(2,5) i by simp
qed

lemma below_text:
  assumes "pos < prefix_bound self bytes prefix"
  shows "below self bytes prefix pos \<longleftrightarrow> oid_to_string (oid_at self bytes pos) < oid_to_string (lower prefix)"
  using oid_less_text [of "oid_at self bytes pos" "lower prefix"] oid_at_facts(3) prefix_bound_ok [OF assms]
  by (simp add: below_def)

lemma below_falling: "i < j \<Longrightarrow> j < prefix_bound self bytes prefix \<Longrightarrow> below self bytes prefix j \<Longrightarrow> below self bytes prefix i"
  using text_ascending [of i j self bytes prefix] below_text [of i] below_text [of j] by (meson less_trans)

lemma from_lower_below:
  assumes "pos < prefix_bound self bytes prefix"
  shows "pos < from_lower self bytes prefix \<longleftrightarrow> below self bytes prefix pos"
proof -
  let ?f = "\<lambda>i. if below self bytes prefix i then 0 else 1 :: nat"
  have "sorted (map ?f [0..<prefix_bound self bytes prefix])"
    using below_falling by (auto simp add: sorted_iff_nth_mono_less)
  moreover have "(\<lambda>i. ?f i = 0) = below self bytes prefix" by (simp add: fun_eq_iff)
  ultimately show ?thesis using filter_prefix [of ?f _ pos 0] assms by (simp add: from_lower_def)
qed

interpretation lower_search:
  falling_probe "lower_probe self bytes prefix" "below self bytes prefix" 0 "prefix_bound self bytes prefix"
  for self bytes prefix
proof
  show "lower_probe self bytes prefix i = Inr (below self bytes prefix i)" if "i < prefix_bound self bytes prefix" for i
    using oid_at_facts(1) prefix_bound_ok [OF that] by (simp add: lower_probe_def below_def)
qed (rule below_falling)

interpretation match_search:
  falling_probe "match_probe self bytes prefix" "\<lambda>pos. prefix_matches prefix (oid_at self bytes pos)"
    "from_lower self bytes prefix" "prefix_bound self bytes prefix"
  for self bytes prefix
proof
  fix i j
  show "match_probe self bytes prefix i = Inr (prefix_matches prefix (oid_at self bytes i))"
    if "i < prefix_bound self bytes prefix"
    using oid_at_facts(1) prefix_bound_ok [OF that] by (simp add: match_probe_def)
  show "prefix_matches prefix (oid_at self bytes i)"
    if lower: "from_lower self bytes prefix \<le> i" and ij: "i < j" "j < prefix_bound self bytes prefix"
      and m: "prefix_matches prefix (oid_at self bytes j)"
  proof -
    note ok = prefix_bound_ok [OF ij(2)]
    have i: "i < px_count self" "i < prefix_bound self bytes prefix" using ij ok(5) by simp_all
    have "\<not> below self bytes prefix i" using lower from_lower_below [OF i(2)] by simp
    then show ?thesis
      using prefix_matches_interval [OF ok(3) _ _ _ _ m] oid_at_facts(2,3) ok(2,4,5) i
        text_ascending [OF ij] below_text [OF i(2)] by (simp add: not_less less_imp_le)
  qed
qed

text \<open>A prefix and what it matches have the same first byte.\<close>

lemma prefix_first_byte:
  assumes "prefix_ok p" "oid_wf oid" "prefix_matches p oid"
  shows "hd (as_bytes oid) = hd (as_bytes (lower p))"
proof -
  let ?n = "digits p div 2"
  have n: "0 < ?n" using assms(1) by (simp add: prefix_ok_def)
  have "oid_format oid = oid_format (lower p)" and get: "get_to (as_bytes (lower p)) ?n = get_to (as_bytes oid) ?n"
    using assms(3) by (auto simp add: prefix_matches_def Let_def split: if_splits)
  then have "?n \<le> length (as_bytes (lower p))" "?n \<le> length (as_bytes oid)"
    using assms(1,2) by (auto simp add: prefix_ok_def oid_wf_def)
  then have "take ?n (as_bytes (lower p)) = take ?n (as_bytes oid)" using get by (simp add: get_to_def)
  then show ?thesis using n by (metis hd_take)
qed


lemma matches_in_bucket:
  assumes "pos < prefix_bound self bytes prefix" "prefix_matches prefix (oid_at self bytes pos)"
  shows "bucket_low self bytes (unat (hd (as_bytes (lower prefix)))) \<le> pos"
    and "pos < fan self bytes (unat (hd (as_bytes (lower prefix))))"
proof -
  note ok = prefix_bound_ok [OF assms(1)]
  have "hd (name_of self bytes pos) = hd (as_bytes (lower prefix))"
    using prefix_first_byte [OF ok(3) oid_at_facts(2) assms(2)] ok(2,5) oid_at_facts(4) [OF ok(2,5)] by simp
  then show "bucket_low self bytes (unat (hd (as_bytes (lower prefix)))) \<le> pos"
    "pos < fan self bytes (unat (hd (as_bytes (lower prefix))))"
    using in_bucket [OF ok(1,5) unat_byte_less [of "hd (as_bytes (lower prefix))"]] by simp_all
qed

lemma from_lower_bucket:
  assumes "0 < prefix_bound self bytes prefix"
  shows "from_lower self bytes prefix \<le> fan self bytes (unat (hd (as_bytes (lower prefix))))" (is "_ \<le> ?high")
proof (rule ccontr)
  assume "\<not> from_lower self bytes prefix \<le> ?high"
  then have less: "?high < from_lower self bytes prefix" by simp
  have "from_lower self bytes prefix \<le> prefix_bound self bytes prefix"
    unfolding from_lower_def using length_filter_le [of _ "[0..<prefix_bound self bytes prefix]"] by simp
  then have high: "?high < prefix_bound self bytes prefix" using less by simp
  note ok = prefix_bound_ok [OF high]
  have "below self bytes prefix ?high" using from_lower_below [OF high] less by simp
  then have "name_of self bytes ?high < as_bytes (lower prefix)"
    using oid_less_text(1) [of "oid_at self bytes ?high" "lower prefix"] oid_at_facts(3,4) [OF ok(2,5)] ok(4)
    by (simp add: below_def)
  then have "unat (hd (name_of self bytes ?high)) \<le> unat (hd (as_bytes (lower prefix)))"
    using hd_less name_not_Nil ok(2,5) by blast
  then show False using bucket_position [OF ok(1,5) unat_byte_less [of "hd (as_bytes (lower prefix))"]] by simp
qed

lemma prefix_range_searches:
  assumes "index_ok self bytes" "as_bytes (lower prefix) \<noteq> []"
  shows "prefix_range self bytes prefix =
     (let b = unat (hd (as_bytes (lower prefix)))
      in and_then (partition_search (lower_probe self bytes prefix) (bucket_low self bytes b) (fan self bytes b)) (\<lambda>start.
         and_then (partition_search (match_probe self bytes prefix) start (fan self bytes b)) (\<lambda>stop.
         Inr (start, stop))))"
  using assms bucket_bounds_ok(1) [OF assms(1) unat_byte_less]
  by (cases "as_bytes (lower prefix)") (simp_all add: prefix_range_def Let_def lower_probe_def [abs_def] match_probe_def [abs_def])

lemma prefix_range_matches:
  assumes bound: "prefix_bound self bytes prefix = px_count self" and some: "0 < px_count self"
  shows "\<exists>start stop. prefix_range self bytes prefix = Inr (start, stop) \<and> stop \<le> px_count self
    \<and> (\<forall>pos < px_count self. start \<le> pos \<and> pos < stop \<longleftrightarrow> prefix_matches prefix (oid_at self bytes pos))"
proof -
  let ?b = "unat (hd (as_bytes (lower prefix)))"
  let ?low = "bucket_low self bytes ?b" and ?high = "fan self bytes ?b"
  have zero: "0 < prefix_bound self bytes prefix" using bound some by simp
  note ok = prefix_bound_ok [OF zero]
  note bounds = bucket_bounds_ok [OF ok(2) unat_byte_less [of "hd (as_bytes (lower prefix))"]]
  obtain start where start: "partition_search (lower_probe self bytes prefix) ?low ?high = Inr start"
    "?low \<le> start" "start \<le> ?high"
    and low: "\<forall>i. ?low \<le> i \<and> i < ?high \<longrightarrow> below self bytes prefix i = (i < start)"
    using lower_search.partition_result [of ?low ?high self bytes prefix] bounds(2,3) bound by auto
  have first: "from_lower self bytes prefix \<le> start"
  proof (rule ccontr)
    assume less: "\<not> from_lower self bytes prefix \<le> start"
    then have high: "start < ?high" using from_lower_bucket [OF zero] by simp
    then have "below self bytes prefix start" using from_lower_below [of start self bytes prefix] less bounds(3) bound by simp
    then show False using low high start(2) by simp
  qed
  obtain stop where stop: "partition_search (match_probe self bytes prefix) start ?high = Inr stop"
    "start \<le> stop" "stop \<le> ?high"
    and matching: "\<forall>i. start \<le> i \<and> i < ?high \<longrightarrow> prefix_matches prefix (oid_at self bytes i) = (i < stop)"
    using match_search.partition_result [OF first start(3)] bounds(3) bound by auto
  have "as_bytes (lower prefix) \<noteq> []" using ok(3) by (auto simp add: prefix_ok_def oid_wf_def split: object_format.splits)
  then have "prefix_range self bytes prefix = Inr (start, stop)"
    by (simp add: prefix_range_searches [OF ok(2)] Let_def start(1) stop(1))
  moreover have "start \<le> pos \<and> pos < stop \<longleftrightarrow> prefix_matches prefix (oid_at self bytes pos)" if pos: "pos < px_count self" for pos
  proof
    assume m: "prefix_matches prefix (oid_at self bytes pos)"
    have bucket: "?low \<le> pos" "pos < ?high" using matches_in_bucket [OF _ m] pos bound by simp_all
    have "\<not> below self bytes prefix pos"
      using prefix_matches_ge [OF ok(3) _ _ m] oid_at_facts(2,3) [OF ok(2) pos] ok(4) below_text [of pos self bytes prefix] pos bound
      by (simp add: not_less)
    then show "start \<le> pos \<and> pos < stop" using bucket low matching m by auto
  qed (use matching stop(3) in auto)
  ultimately show ?thesis using stop(3) bounds(3) by auto
qed

text \<open>
  C15: Abbreviated names resolve exactly. In a validated index, the range returned for a prefix that
  was typed as hexadecimal text holds the positions of precisely those entries whose identity,
  written out, starts with that text in lower case; an ambiguous abbreviation is one whose range has
  more than one position.
\<close>

theorem prefix_range_exact:
  assumes "index_parse format bytes pack_end = Inr self" and "index_validate self bytes = (self', Inr ())"
    and "prefix_from_hex format t = Inr prefix"
  shows "\<exists>start stop. prefix_range self bytes prefix = Inr (start, stop)
    \<and> (\<forall>pos < px_count self. start \<le> pos \<and> pos < stop \<longleftrightarrow>
        (\<exists>oid. identity self bytes pos = Inr oid \<and> starts_with (oid_to_string oid) (map to_ascii_lowercase t)))"
proof (cases "px_count self = 0")
  case True
  have ok: "index_ok self bytes" by (rule index_parse_Inr [OF assms(1)])
  note p = prefix_from_hex_ok [OF assms(3)]
  have "as_bytes (lower prefix) \<noteq> []" using p(1) by (auto simp add: prefix_ok_def oid_wf_def split: object_format.splits)
  moreover have "fan self bytes b = 0" "bucket_low self bytes b = 0" if "b < 256" for b
    using fan_le_count [OF ok that] bucket_bounds_ok(2) [OF ok that] True by simp_all
  ultimately have "prefix_range self bytes prefix = Inr (0, 0)"
    by (simp add: prefix_range_searches [OF ok] partition_search.simps unat_byte_less)
  then show ?thesis using True by simp
next
  case False
  have ok: "index_ok self bytes" by (rule index_parse_Inr [OF assms(1)])
  note p = prefix_from_hex_ok [OF assms(3)]
  have format: "oid_format (lower prefix) = px_format self" using p(2) index_parse_Inr(2) [OF assms(1)] by simp
  then have bound: "prefix_bound self bytes prefix = px_count self"
    using index_validate_sorted [OF ok assms(2)] p(1) by (simp add: prefix_bound_def)
  obtain start stop where "prefix_range self bytes prefix = Inr (start, stop)"
    "\<forall>pos < px_count self. start \<le> pos \<and> pos < stop \<longleftrightarrow> prefix_matches prefix (oid_at self bytes pos)"
    using prefix_range_matches [OF bound] False by auto
  moreover have "prefix_matches prefix (oid_at self bytes pos) \<longleftrightarrow>
      (\<exists>oid. identity self bytes pos = Inr oid \<and> starts_with (oid_to_string oid) (map to_ascii_lowercase t))"
    if "pos < px_count self" for pos
    using prefix_text [OF p(1) oid_at_facts(2) [OF ok that]] oid_at_facts(1,3) [OF ok that] p(3) format by simp
  ultimately show ?thesis by (intro exI [of _ start] exI [of _ stop]) simp
qed


theorem prefix_range_exact_witness:
  "\<exists>start stop. prefix_range sample_index sample_index_bytes
       \<lparr>lower = IdSha1 ([0, 0xab, 0xa0] @ replicate 17 0), digits = 5\<rparr> = Inr (start, stop) \<and> start = 0 \<and> 0 < stop"
proof -
  let ?p = "\<lparr>lower = IdSha1 ([0, 0xab, 0xa0] @ replicate 17 0), digits = 5\<rparr>"
  have p: "prefix_from_hex Sha1 (ascii ''00AbA'') = Inr ?p" by code_simp
  have "starts_with (oid_to_string (IdSha1 sample_name)) (map to_ascii_lowercase (ascii ''00AbA''))" by code_simp
  then show ?thesis
    using prefix_range_exact [OF sample_index_parse sample_validate p] by (auto simp add: sample_identity)
qed

end
