(* ===== verification/Spec2Isabelle.thy ===== *)
theory Spec2Isabelle
  imports Bridge Delta Tree_Editor Commit_Payload Packed_Refs Refspec_Budget Pack_Prefix
begin

text \<open>
  A verification development for girt, a Git implementation in Rust. It models the parts of the
  crate that decide what bytes mean: the codecs of objects, references, packs and protocol
  frames, the searches and sorts over their tables, and the bounded computations on them. This
  theory holds no definitions; it imports the components and describes them.

  \<^bold>\<open>Conventions.\<close> A \<^verbatim>\<open>u8\<close> is a word of 8 bits and a byte string is a list of them.
  A \<^verbatim>\<open>usize\<close> is a natural number; where the code checks for overflow, the model checks against
  \<open>usize_max\<close>, and where a value is packed into a word the model keeps the word or proves that no
  bit is lost. A \<^verbatim>\<open>Result\<close> is a sum whose left side is the error, sequenced by \<open>and_then\<close>; every
  early return of the code is a branch of the model. A struct that is changed in place is a record
  that is returned. A loop is a recursive function with a termination proof; no model uses fuel.
  An index out of range, which panics in Rust, is an error value of its own where the absence of
  panics is stated.

  \<^bold>\<open>The library.\<close> \<open>Prelude\<close> and \<open>Encodings\<close> model what the sources use of Rust and of its
  standard library. \<open>Metered\<close> sequences computations that carry a budget. \<open>Ordered_Map\<close> models
  \<^verbatim>\<open>BTreeMap\<close> with the interface \<open>keyed_map\<close>. \<open>Lines\<close> relates text to its lines. \<open>Record_Stream\<close>
  is the interface of a stream of self-delimiting records, and \<open>Binary_Search\<close> has the search
  loops with the interfaces \<open>ordered_probe\<close> and \<open>falling_probe\<close>. Every interface is a locale
  interpreted on the definitions that model the code.

  \<^bold>\<open>Bytes and object names.\<close> \<open>Bytes\<close> models \<^verbatim>\<open>src/bytes.rs\<close>. \<open>Object_Id\<close> models
  \<^verbatim>\<open>src/object.rs\<close> and \<^verbatim>\<open>src/object/prefix.rs\<close>: parsing and printing of identities,
  abbreviations, and the framing that is hashed. Its properties are the round trip, the exact
  meaning of a prefix, and that two objects with the same framing are the same object.

  \<^bold>\<open>Transport.\<close> \<open>Packet\<close> models pkt-line framing (\<^verbatim>\<open>src/packet.rs\<close>) over the interfaces
  \<open>byte_source\<close> and \<open>byte_sink\<close>. \<open>Bridge\<close> models the blocking ends of the async bridge
  (\<^verbatim>\<open>src/serve/bridge.rs\<close>) and interprets the interfaces on them, so that packets written on one
  side are the packets read on the other. Its step relation \<open>bridge_run\<close> covers every
  interleaving of reads, writes and flushes; the invariant bounds the output that can be pending,
  and a read sends what is pending before it waits.

  \<^bold>\<open>Objects.\<close> \<open>Tree_Object\<close> models \<^verbatim>\<open>src/tree.rs\<close>; \<open>Tree_Editor\<close> models
  \<^verbatim>\<open>src/tree/editor.rs\<close>, a map of paths in which no path is both a file and a directory.
  \<open>Identity\<close>, \<open>Commit_Object\<close> and \<open>Commit_Payload\<close> model \<^verbatim>\<open>src/commit.rs\<close>,
  \<^verbatim>\<open>src/commit/identity.rs\<close>, \<^verbatim>\<open>src/commit/payload.rs\<close>, the signed build of
  \<^verbatim>\<open>src/commit/builder.rs\<close> and the recovery of signed bytes of \<^verbatim>\<open>src/signing.rs\<close>. The properties
  are round trips, the equivalence of the fast and the general readers, and that the bytes whose
  signature is checked are the bytes that were signed.

  \<^bold>\<open>Packs.\<close> \<open>Object_Read\<close> holds the errors. \<open>Delta\<close> models the decoder of
  \<^verbatim>\<open>src/pack/delta.rs\<close> and the encoder of \<^verbatim>\<open>src/pack/compression.rs\<close>: decoding what was encoded
  returns the target, the encoder always finds a program when its budget lasts, and a decode stays
  within its limits. \<open>Offset_Order\<close>, \<open>Pack_Index\<close> and \<open>Pack_Prefix\<close> model
  \<^verbatim>\<open>src/pack/index.rs\<close>: the radix sort is a sort, lookups in an accepted file do not panic, lookups
  in a validated file refine a scan of all entries, an abbreviation selects exactly the names it
  abbreviates, and the entries tile the pack.

  \<^bold>\<open>References.\<close> \<open>Ref_Name\<close> models \<^verbatim>\<open>src/refs/name.rs\<close> and \<^verbatim>\<open>src/hide_refs.rs\<close>. \<open>Packed_Refs\<close>
  models the parser, the encoder and the editor of the packed-refs file (\<^verbatim>\<open>src/refs/packed.rs\<close>,
  \<^verbatim>\<open>src/refs/pack.rs\<close>) and the loose reader of \<^verbatim>\<open>src/refs/store.rs\<close>. \<open>Refspec\<close> models
  \<^verbatim>\<open>src/remote/refspec.rs\<close>, and \<open>Refspec_Budget\<close> the same mapping under limits and cancellation
  (\<^verbatim>\<open>src/remote/refspec/controlled.rs\<close>): the limits never change an outcome, they only stop it.

  \<^bold>\<open>Cancellation.\<close> A cancellation flag can change between two readings. It is a function from
  the number of readings so far, so a theorem about all such functions is one about every moment
  at which another thread may set it.

  \<^bold>\<open>Parameters.\<close> Code outside the sources is a parameter of the definition that calls it: the
  digest behind a checksum and the store that an editor writes trees to. Theorems that need
  something of a parameter say so in a hypothesis.

  \<^bold>\<open>Not modelled.\<close> Opening, mapping, locking, renaming and watching files; processes and
  sockets; zlib; the object store, the fetch, push and checkout workflows, the index file,
  configuration files, revision walks, merging of trees and the repository facade. These parts are
  mostly sequences of file-system and process effects around the codecs above, or algorithms that
  read objects through the store. Within the modelled files, display formats and setters that only
  assign a field are left out.
\<close>

end
